(* ===== verification/Nlog_Prelude.thy ===== *)
theory Nlog_Prelude
  imports Main "HOL-Library.Word"
begin

text \<open>
  The vocabulary shared by every component of the native log of Proton
  (\<^verbatim>\<open>src/src/Cluster/LocalLog\<close>): machine types, error codes, the result structure
  \<^verbatim>\<open>CallResult\<close> of \<^verbatim>\<open>src/src/Cluster/Common/CallResult.h\<close>, the effects of the C++ code
  (a result, an exception, undefined behaviour, a loop that never ends) and the generic facts on
  lists, binary search and decimal numerals that the component theories use.
\<close>

section \<open>Machine types\<close>

type_synonym byte = "8 word"
type_synonym bytes = "8 word list"
type_synonym u16 = "16 word"
type_synonym u32 = "32 word"
type_synonym u64 = "64 word"

text \<open>
  A C++ \<^verbatim>\<open>int64_t\<close> that is only compared and incremented is an \<^typ>\<open>int\<close>; \<open>int64\<close> and
  \<open>uint64\<close> say that a value fits the machine type, which the codecs need.
\<close>

definition int64 :: "int \<Rightarrow> bool" where
  "int64 x \<longleftrightarrow> - (2 ^ 63) \<le> x \<and> x < 2 ^ 63"

definition uint64 :: "int \<Rightarrow> bool" where
  "uint64 x \<longleftrightarrow> 0 \<le> x \<and> x < 2 ^ 64"

section \<open>Error codes and results\<close>

text \<open>
  \<open>ErrorCode\<close> has the members of \<^verbatim>\<open>DB::ErrorCodes\<close> the native log uses. The file layer returns
  the errno of the failing system call in the same field: \<open>Errno e\<close>. \<open>STD_EXCEPTION\<close> is an exception of
  the standard library.
\<close>

datatype ErrorCode =
    OK
  | ATOMIC_RENAME_FAIL
  | LOGICAL_ERROR
  | CANNOT_WRITE_TO_FILE_DESCRIPTOR
  | CANNOT_READ_FILE
  | CANNOT_DELETE_FILE
  | CANNOT_FLUSH_FILE
  | CANNOT_FSTAT
  | CANNOT_TRUNCATE_FILE
  | CANNOT_OPEN_FILE
  | CANNOT_READ_ALL_DATA
  | CANNOT_DELETE_DIRECTORY
  | ATTEMPT_TO_READ_AFTER_EOF
  | CORRUPTED_DATA
  | FILE_CORRUPTION
  | INCORRECT_FILE_NAME
  | DIRECTORY_DOESNT_EXIST
  | FILE_DOESNT_EXIST
  | BAD_FILE_NAME
  | INVALID_INTEGER_STRING
  | INVALID_STATE
  | SEQUENCE_OUT_OF_RANGE
  | RECORD_NOT_FOUND
  | FAILED_TO_ROLL_LOG_SEGMENT
  | TOO_LARGE_RECORD
  | SEQUENCE_COMPACTED_AWAY
  | SEQUENCE_UNAVAILABLE
  | INVALID_SEQUENCE
  | STREAM_PAUSED
  | STD_EXCEPTION
  | Errno int

record 'a CallResult =
  result :: 'a
  error_code :: ErrorCode

definition hasError :: "'a CallResult \<Rightarrow> bool" where
  "hasError r \<longleftrightarrow> error_code r \<noteq> OK"

definition okR :: "'a \<Rightarrow> 'a CallResult" where
  "okR x = \<lparr>result = x, error_code = OK\<rparr>"

definition errR :: "'a \<Rightarrow> ErrorCode \<Rightarrow> 'a CallResult" where
  "errR x e = \<lparr>result = x, error_code = e\<rparr>"

lemma hasError_simps [simp]:
  "hasError (okR x) = False" "hasError (errR x e) = (e \<noteq> OK)"
  "result (okR x) = x" "result (errR x e) = x"
  "error_code (okR x) = OK" "error_code (errR x e) = e"
  by (simp_all add: hasError_def okR_def errR_def)

lemma okR_inject [simp]: "okR x = okR y \<longleftrightarrow> x = y" "errR x e = errR y d \<longleftrightarrow> x = y \<and> e = d"
  by (auto simp: okR_def errR_def)

section \<open>Effects\<close>

text \<open>
  What running a piece of C++ code can come to: \<open>Ret\<close> (it returns), \<open>Throw\<close> (it throws a
  \<^verbatim>\<open>DB::Exception\<close> with that code), \<open>Undef\<close> (the C++ standard gives it no meaning: \<^verbatim>\<open>front()\<close>
  of an empty deque, a read past the end of a buffer) and \<open>Diverge\<close> (a loop iteration that leaves
  the loop's whole state as it was, so that the loop never ends). A program is a function from a
  state to an effect and the state it leaves behind.
\<close>

datatype 'a exec = Ret 'a | Throw ErrorCode | Undef | Diverge

type_synonym ('s, 'a) prog = "'s \<Rightarrow> 'a exec \<times> 's"

definition retE :: "'a \<Rightarrow> ('s, 'a) prog" where
  "retE x = (\<lambda>s. (Ret x, s))"

definition throwE :: "ErrorCode \<Rightarrow> ('s, 'a) prog" where
  "throwE e = (\<lambda>s. (Throw e, s))"

definition undefE :: "('s, 'a) prog" where
  "undefE = (\<lambda>s. (Undef, s))"

definition bindE :: "('s, 'a) prog \<Rightarrow> ('a \<Rightarrow> ('s, 'b) prog) \<Rightarrow> ('s, 'b) prog" where
  "bindE m f = (\<lambda>s. case m s of
      (Ret x, t) \<Rightarrow> f x t
    | (Throw e, t) \<Rightarrow> (Throw e, t)
    | (Undef, t) \<Rightarrow> (Undef, t)
    | (Diverge, t) \<Rightarrow> (Diverge, t))"

definition getS :: "('s, 's) prog" where
  "getS = (\<lambda>s. (Ret s, s))"

definition modS :: "('s \<Rightarrow> 's) \<Rightarrow> ('s, unit) prog" where
  "modS f = (\<lambda>s. (Ret (), f s))"

lemma prog_simps [simp]:
  "retE x s = (Ret x, s)" "throwE e s = (Throw e, s)" "undefE s = (Undef, s)"
  "getS s = (Ret s, s)" "modS f s = (Ret (), f s)"
  by (simp_all add: retE_def throwE_def undefE_def getS_def modS_def)

lemma bindE_Ret [simp]: "m s = (Ret x, t) \<Longrightarrow> bindE m f s = f x t"
  by (simp add: bindE_def)

lemma bindE_Throw: "m s = (Throw e, t) \<Longrightarrow> bindE m f s = (Throw e, t)"
  by (simp add: bindE_def)

lemma bindE_Ret_iff:
  "bindE m f s = (Ret y, u) \<longleftrightarrow> (\<exists>x t. m s = (Ret x, t) \<and> f x t = (Ret y, u))"
  by (auto simp: bindE_def split: prod.splits exec.splits)

text \<open>
  A component's program run on a part of a bigger state: \<open>onPart get put p\<close> runs \<open>p\<close> on
  \<open>get s\<close> and stores what it leaves with \<open>put\<close>.
\<close>

definition onPart :: "('t \<Rightarrow> 's) \<Rightarrow> ('s \<Rightarrow> 't \<Rightarrow> 't) \<Rightarrow> ('s, 'a) prog \<Rightarrow> ('t, 'a) prog" where
  "onPart get put p = (\<lambda>t. case p (get t) of (r, s) \<Rightarrow> (r, put s t))"

lemma onPart_eq: "p (get t) = (r, s) \<Longrightarrow> onPart get put p t = (r, put s t)"
  by (simp add: onPart_def)

section \<open>Binary search\<close>

text \<open>
  \<^verbatim>\<open>std::lower_bound\<close> on a random access range: \<open>p\<close> is the comparison with the value searched
  for, \<open>first\<close> and \<open>len\<close> the part of the range still searched.
\<close>

function lower_bound_loop :: "('a \<Rightarrow> bool) \<Rightarrow> 'a list \<Rightarrow> nat \<Rightarrow> nat \<Rightarrow> nat" where
  "lower_bound_loop p xs first len =
    (if len \<noteq> 0 then
       let half = len div 2; m = first + half
       in if p (xs ! m) then lower_bound_loop p xs (m + 1) (len - (half + 1))
          else lower_bound_loop p xs first half
     else first)"
  by pat_completeness auto

termination lower_bound_loop
  by (relation "measure (\<lambda>(_, _, _, len). len)") auto

declare lower_bound_loop.simps [simp del]

definition lower_bound :: "('a \<Rightarrow> bool) \<Rightarrow> 'a list \<Rightarrow> nat" where
  "lower_bound p xs = lower_bound_loop p xs 0 (length xs)"

text \<open>\<open>p\<close> holds on an initial part of the list only.\<close>

definition partitioned :: "('a \<Rightarrow> bool) \<Rightarrow> 'a list \<Rightarrow> bool" where
  "partitioned p xs \<longleftrightarrow> (\<forall>i j. i < j \<longrightarrow> j < length xs \<longrightarrow> p (xs ! j) \<longrightarrow> p (xs ! i))"

lemma takeWhile_length_eqI:
  assumes "n \<le> length xs" "\<And>i. i < n \<Longrightarrow> p (xs ! i)" "n < length xs \<Longrightarrow> \<not> p (xs ! n)"
  shows "length (takeWhile p xs) = n"
  using assms takeWhile_eq_take_P_nth [of n xs p] by simp

lemma lower_bound_loop_partitioned:
  assumes "partitioned p xs" "first + len \<le> length xs"
    and "\<And>i. i < first \<Longrightarrow> p (xs ! i)" "\<And>i. first + len \<le> i \<Longrightarrow> i < length xs \<Longrightarrow> \<not> p (xs ! i)"
  shows "lower_bound_loop p xs first len = length (takeWhile p xs)"
  using assms
proof (induction p xs first len rule: lower_bound_loop.induct)
  case (1 p xs first len)
  show ?case
  proof (cases "len = 0")
    case True
    then show ?thesis using 1(3-6) by (simp add: lower_bound_loop.simps takeWhile_length_eqI)
  next
    case False
    let ?m = "first + len div 2"
    have m: "?m < first + len" using False by simp
    show ?thesis
    proof (cases "p (xs ! ?m)")
      case True
      then have "i < ?m + 1 \<Longrightarrow> p (xs ! i)" for i
        using 1(3) [unfolded partitioned_def, rule_format, of i ?m] 1(4) m by (cases "i = ?m") simp_all
      then show ?thesis
        using 1(1) [OF False refl refl True] 1(3-6) False True
        by (simp add: lower_bound_loop.simps [of p xs first len] Let_def)
    next
      case False
      then have "first + len div 2 \<le> i \<Longrightarrow> i < length xs \<Longrightarrow> \<not> p (xs ! i)" for i
        using 1(3) [unfolded partitioned_def, rule_format, of ?m i] by (cases "i = ?m") auto
      then show ?thesis
        using 1(2) [OF \<open>len \<noteq> 0\<close> refl refl False] 1(3-6) False \<open>len \<noteq> 0\<close>
        by (simp add: lower_bound_loop.simps [of p xs first len] Let_def)
    qed
  qed
qed

lemma lower_bound_partitioned: "partitioned p xs \<Longrightarrow> lower_bound p xs = length (takeWhile p xs)"
  by (simp add: lower_bound_def lower_bound_loop_partitioned)

lemma partitioned_less: "sorted_wrt (<) (map f xs) \<Longrightarrow> partitioned (\<lambda>y. f y < (x :: int)) xs"
  by (fastforce simp: partitioned_def sorted_wrt_iff_nth_less)

section \<open>Decimal numerals\<close>

text \<open>The decimal form \<^verbatim>\<open>fmt::format\<close> gives an unsigned integer, and \<^verbatim>\<open>std::from_chars\<close>.\<close>

definition digit_char :: "nat \<Rightarrow> char" where
  "digit_char d = char_of (48 + d)"

definition is_digit :: "char \<Rightarrow> bool" where
  "is_digit c \<longleftrightarrow> 48 \<le> (of_char c :: nat) \<and> (of_char c :: nat) \<le> 57"

definition digit_value :: "char \<Rightarrow> nat" where
  "digit_value c = of_char c - 48"

fun nat_to_dec :: "nat \<Rightarrow> string" where
  "nat_to_dec n = (if n < 10 then [digit_char n] else nat_to_dec (n div 10) @ [digit_char (n mod 10)])"

declare nat_to_dec.simps [simp del]

definition dec_value :: "string \<Rightarrow> nat" where
  "dec_value s = foldl (\<lambda>a c. 10 * a + digit_value c) 0 s"

text \<open>
  \<^verbatim>\<open>from_chars\<close> for \<^verbatim>\<open>uint64_t\<close>: the number read and what follows it, or \<open>None\<close> for a missing
  number or one that does not fit.
\<close>

definition from_chars_u64 :: "string \<Rightarrow> (nat \<times> string) option" where
  "from_chars_u64 s =
    (let ds = takeWhile is_digit s in
     if ds = [] then None
     else if dec_value ds < 2 ^ 64 then Some (dec_value ds, dropWhile is_digit s) else None)"

lemma digit_char_simps [simp]:
  "d < 10 \<Longrightarrow> is_digit (digit_char d)" "d < 10 \<Longrightarrow> digit_value (digit_char d) = d"
  by (simp_all add: is_digit_def digit_char_def digit_value_def)

lemma nat_to_dec_digits: "list_all is_digit (nat_to_dec n)"
  by (induction n rule: nat_to_dec.induct) (subst nat_to_dec.simps, simp)

lemma nat_to_dec_nonempty [simp]: "nat_to_dec n \<noteq> []"
  by (subst nat_to_dec.simps) simp

lemma dec_value_nat_to_dec [simp]: "dec_value (nat_to_dec n) = n"
proof (induction n rule: nat_to_dec.induct)
  case (1 n)
  then show ?case by (subst nat_to_dec.simps) (simp add: dec_value_def)
qed

lemma from_chars_nat_to_dec [simp]:
  assumes "n < 2 ^ 64"
  shows "from_chars_u64 (nat_to_dec n) = Some (n, [])"
proof -
  have "takeWhile is_digit (nat_to_dec n) = nat_to_dec n" "dropWhile is_digit (nat_to_dec n) = []"
    using nat_to_dec_digits [of n] by (simp_all add: list_all_iff)
  then show ?thesis using assms by (simp add: from_chars_u64_def Let_def del: takeWhile_eq_all_conv)
qed

lemma nat_to_dec_inject [simp]: "nat_to_dec m = nat_to_dec n \<longleftrightarrow> m = n"
  using dec_value_nat_to_dec by metis

end
