(* ===== verification/Nlog_Codec.thy ===== *)
theory Nlog_Codec
  imports Nlog_Prelude
begin

text \<open>
  The integer codecs every persistent structure of the native log is written with:
  the base-128 and zigzag encodings of \<^verbatim>\<open>src/src/IO/VarInt.h\<close>, the fixed-width
  \<^verbatim>\<open>writeIntBinary\<close>/\<^verbatim>\<open>readIntBinary\<close> of \<^verbatim>\<open>src/src/IO/ReadHelpers.h\<close> on a little-endian
  machine, and \<^verbatim>\<open>ReadBuffer::readStrict\<close>. A reader is a program whose state is what the buffer
  still holds.
\<close>

unbundle bit_operations_syntax

type_synonym 'a reader = "(bytes, 'a) prog"

section \<open>Variable-length integers\<close>

function writeVarUInt :: "u64 \<Rightarrow> bytes" where
  "writeVarUInt x =
    (if 0x7F < x then ucast (0x80 OR (x AND 0x7F)) # writeVarUInt (drop_bit 7 x) else [ucast x])"
  by auto

termination writeVarUInt
proof (relation "measure unat")
  fix x :: u64
  assume "0x7F < x"
  then have "0 < unat x" by (simp add: word_less_nat_alt)
  then show "(drop_bit 7 x, x) \<in> measure unat"
    by (simp add: drop_bit_eq_div unat_div)
qed simp

declare writeVarUInt.simps [simp del]

text \<open>
  One loop for both instances of the template: with \<open>check_eof\<close> an empty buffer throws, without
  it the read is past the end of the buffer.
\<close>

fun readVarUInt_impl :: "bool \<Rightarrow> nat \<Rightarrow> u64 \<Rightarrow> bytes \<Rightarrow> u64 exec \<times> bytes" where
  "readVarUInt_impl check_eof i x bs =
    (if i < 10 then
       case bs of
         [] \<Rightarrow> (if check_eof then Throw ATTEMPT_TO_READ_AFTER_EOF else Undef, [])
       | b # r \<Rightarrow>
           let x' = x OR push_bit (7 * i) (ucast (b AND 0x7F)) in
           if b AND 0x80 = 0 then (Ret x', r) else readVarUInt_impl check_eof (i + 1) x' r
     else (Ret x, bs))"

declare readVarUInt_impl.simps [simp del]

definition readVarUInt :: "u64 reader" where
  "readVarUInt bs = readVarUInt_impl (\<not> 10 \<le> length bs) 0 0 bs"

definition readVarUInt32 :: "u32 reader" where
  "readVarUInt32 = bindE readVarUInt (\<lambda>tmp. retE (ucast tmp))"

definition readVarUInt16 :: "u16 reader" where
  "readVarUInt16 = bindE readVarUInt (\<lambda>tmp. retE (ucast tmp))"

definition getLengthOfVarUInt :: "u64 \<Rightarrow> nat" where
  "getLengthOfVarUInt x =
    (if x < 2 ^ 7 then 1 else if x < 2 ^ 14 then 2 else if x < 2 ^ 21 then 3
     else if x < 2 ^ 28 then 4 else if x < 2 ^ 35 then 5 else if x < 2 ^ 42 then 6
     else if x < 2 ^ 49 then 7 else if x < 2 ^ 56 then 8 else if x < 2 ^ 63 then 9 else 10)"

text \<open>Signed integers: zigzag, on the two's complement representation of the \<^verbatim>\<open>Int64\<close>.\<close>

definition zigzag :: "u64 \<Rightarrow> u64" where
  "zigzag x = push_bit 1 x XOR signed_drop_bit 63 x"

definition unzigzag :: "u64 \<Rightarrow> u64" where
  "unzigzag x = drop_bit 1 x XOR - (x AND 1)"

definition writeVarInt :: "int \<Rightarrow> bytes" where
  "writeVarInt x = writeVarUInt (zigzag (word_of_int x))"

definition readVarInt :: "int reader" where
  "readVarInt = bindE readVarUInt (\<lambda>u. retE (sint (unzigzag u)))"

section \<open>Fixed-width integers and byte runs\<close>

primrec le_bytes :: "nat \<Rightarrow> 'a::len word \<Rightarrow> bytes" where
  "le_bytes 0 w = []"
| "le_bytes (Suc n) w = ucast w # le_bytes n (drop_bit 8 w)"

primrec le_word :: "bytes \<Rightarrow> 'a::len word" where
  "le_word [] = 0"
| "le_word (b # bs) = ucast b OR push_bit 8 (le_word bs)"

definition readStrict :: "nat \<Rightarrow> bytes reader" where
  "readStrict n bs =
    (if n \<le> length bs then (Ret (take n bs), drop n bs) else (Throw CANNOT_READ_ALL_DATA, []))"

definition readIntBinary8 :: "byte reader" where
  "readIntBinary8 = bindE (readStrict 1) (\<lambda>bs. retE (le_word bs))"

definition readIntBinary32 :: "u32 reader" where
  "readIntBinary32 = bindE (readStrict 4) (\<lambda>bs. retE (le_word bs))"

definition readIntBinary64 :: "u64 reader" where
  "readIntBinary64 = bindE (readStrict 8) (\<lambda>bs. retE (le_word bs))"

definition writeInt64 :: "int \<Rightarrow> bytes" where
  "writeInt64 x = le_bytes 8 (word_of_int x :: u64)"

definition readInt64 :: "int reader" where
  "readInt64 = bindE readIntBinary64 (\<lambda>u. retE (sint u))"

section \<open>Round trips\<close>

lemma length_le_bytes [simp]: "length (le_bytes n w) = n"
  by (induction n arbitrary: w) simp_all

lemma le_word_le_bytes: "le_word (le_bytes n w) = take_bit (8 * n) (w :: 'a::len word)"
proof (induction n arbitrary: w)
  case (Suc n)
  have "ucast (ucast w :: byte) OR push_bit 8 (take_bit (8 * n) (drop_bit 8 w))
      = take_bit (8 * Suc n) w"
    by (rule bit_word_eqI) (auto simp: bit_simps)
  with Suc show ?case by simp
qed simp

lemma readStrict_append [simp]: "length xs = n \<Longrightarrow> readStrict n (xs @ ys) = (Ret xs, ys)"
  by (auto simp: readStrict_def)

lemma readIntBinary8_le [simp]: "readIntBinary8 (w # r) = (Ret w, r)"
  by (simp add: readIntBinary8_def readStrict_def bindE_def)

lemma readIntBinary32_le [simp]: "readIntBinary32 (le_bytes 4 w @ r) = (Ret w, r)"
  by (simp add: readIntBinary32_def bindE_def le_word_le_bytes take_bit_word_eq_self)

lemma readIntBinary64_le [simp]: "readIntBinary64 (le_bytes 8 w @ r) = (Ret w, r)"
  by (simp add: readIntBinary64_def bindE_def le_word_le_bytes take_bit_word_eq_self)

lemma sint_word_of_int64: "int64 x \<Longrightarrow> sint (word_of_int x :: u64) = x"
  by (simp add: int64_def signed_of_int signed_take_bit_int_eq_self)

lemma readInt64_write [simp]: "int64 x \<Longrightarrow> readInt64 (writeInt64 x @ r) = (Ret x, r)"
  by (simp add: readInt64_def writeInt64_def sint_word_of_int64)

lemma length_writeInt64 [simp]: "length (writeInt64 x) = 8"
  by (simp add: writeInt64_def)

lemma bit_0x80: "bit (0x80 :: 'b::len word) n \<longleftrightarrow> n = 7 \<and> n < LENGTH('b)"
  using bit_exp_iff [where 'a = "'b word", of 7 n] by (auto simp: possible_bit_word)

lemma bit_0x80_int: "bit (0x80 :: int) n \<longleftrightarrow> n = 7"
  using bit_exp_iff [where 'a = int, of 7 n] by (auto simp: possible_bit_def)

lemma varUInt_byte:
  fixes x :: u64
  shows "ucast ((ucast (0x80 OR (x AND 0x7F)) :: byte) AND 0x7F) = x AND 0x7F"
    and "(ucast (0x80 OR (x AND 0x7F)) :: byte) AND 0x80 \<noteq> 0"
proof -
  have m: "(0x7F :: 'b::len word) = mask 7" by (simp add: mask_eq_exp_minus_1)
  show "ucast ((ucast (0x80 OR (x AND 0x7F)) :: byte) AND 0x7F) = x AND 0x7F"
    unfolding m by (rule bit_word_eqI) (auto simp: bit_simps bit_0x80 bit_0x80_int)
  have "bit ((ucast (0x80 OR (x AND 0x7F)) :: byte) AND 0x80) 7"
    by (simp add: bit_simps bit_0x80 bit_0x80_int)
  then show "(ucast (0x80 OR (x AND 0x7F)) :: byte) AND 0x80 \<noteq> 0"
    by auto
qed

lemma varUInt_final_byte:
  fixes x :: u64
  assumes "\<not> 0x7F < x"
  shows "ucast ((ucast x :: byte) AND 0x7F) = x" and "(ucast x :: byte) AND 0x80 = 0"
proof -
  have m: "(0x7F :: 'b::len word) = mask 7" by (simp add: mask_eq_exp_minus_1)
  from assms have "x < 2 ^ 7" by (simp add: word_less_nat_alt)
  then have t: "x = take_bit 7 x" by (simp add: less_mask_eq take_bit_eq_mask)
  show "ucast ((ucast x :: byte) AND 0x7F) = x"
    unfolding m by (subst (2) t, rule bit_word_eqI) (auto simp: bit_simps)
  show "(ucast x :: byte) AND 0x80 = 0"
    by (subst t, rule bit_word_eqI) (auto simp: bit_simps bit_0x80 bit_0x80_int)
qed

lemma readVarUInt_impl_write:
  "i < 10 \<Longrightarrow> unat x < 2 ^ (7 * (10 - i)) \<Longrightarrow>
    readVarUInt_impl ce i acc (writeVarUInt x @ r) = (Ret (acc OR push_bit (7 * i) x), r)"
proof (induction x arbitrary: i acc rule: writeVarUInt.induct)
  case (1 x)
  show ?case
  proof (cases "0x7F < x")
    case True
    then have big: "128 \<le> unat x" by (simp add: word_less_nat_alt)
    have "i \<noteq> 9" using 1(3) big by auto
    then have i: "i + 1 < 10" using 1(2) by simp
    have e: "7 * (10 - i) = 7 * (10 - (i + 1)) + 7" using i by simp
    have "unat (drop_bit 7 x) < 2 ^ (7 * (10 - (i + 1)))"
      using 1(3) unfolding e power_add
      by (simp add: drop_bit_eq_div unat_div less_mult_imp_div_less)
    note IH = 1(1) [OF True i this, of "acc OR push_bit (7 * i) (x AND 0x7F)"]
    have m: "x AND 0x7F = take_bit 7 x" by (simp add: take_bit_eq_mask mask_eq_exp_minus_1)
    have b: "\<not> n - 7 * i < 7 \<Longrightarrow> 7 + (n - (7 + 7 * i)) = n - 7 * i \<and> 7 + 7 * i \<le> n" for n
      by linarith
    have "(acc OR push_bit (7 * i) (take_bit 7 x)) OR push_bit (7 * (i + 1)) (drop_bit 7 x)
        = acc OR push_bit (7 * i) x"
      by (rule bit_word_eqI, rename_tac n, case_tac "n - 7 * i < 7") (auto simp: bit_simps b)
    then show ?thesis
      using IH True 1(2) varUInt_byte [of x] m
      by (simp add: writeVarUInt.simps [of x] readVarUInt_impl.simps [of _ i])
  next
    case False
    then show ?thesis
      using 1(2) varUInt_final_byte [OF False]
      by (simp add: writeVarUInt.simps [of x] readVarUInt_impl.simps [of _ i])
  qed
qed

lemma readVarUInt_write [simp]: "readVarUInt (writeVarUInt x @ r) = (Ret x, r)"
proof -
  have "unat x < 2 ^ 64" using unsigned_less [of x] by simp
  also have "(2::nat) ^ 64 \<le> 2 ^ (7 * (10 - 0))" by (rule power_increasing) simp_all
  finally show ?thesis by (simp add: readVarUInt_def readVarUInt_impl_write)
qed

lemma bit_zigzag:
  "n < 64 \<Longrightarrow> bit (zigzag x) n \<longleftrightarrow> (0 < n \<and> bit x (n - 1)) \<noteq> bit x 63"
  by (cases n)
    (simp_all only: zigzag_def bit_xor_iff bit_push_bit_iff bit_signed_drop_bit_iff, auto)

lemma bit_zigzag_Suc: "bit (zigzag x) (Suc n) \<longleftrightarrow> n < 63 \<and> bit x n \<noteq> bit x 63"
  using bit_zigzag [of "Suc n" x] bit_imp_le_length [of "zigzag x" "Suc n"] by auto

lemma unzigzag_zigzag [simp]: "unzigzag (zigzag x) = x"
proof -
  have "zigzag x AND 1 = (if bit x 63 then 1 else 0)"
    by (rule bit_word_eqI) (auto simp: bit_simps bit_zigzag)
  then show ?thesis
    using bit_imp_le_length [of "zigzag x" 64]
    by (intro bit_word_eqI, rename_tac n, case_tac "n = 63")
      (auto simp: unzigzag_def bit_simps bit_zigzag_Suc split: if_splits)
qed

lemma ucast_down_up: "LENGTH('b::len) \<le> LENGTH('a::len) \<Longrightarrow>
    ucast (ucast (w :: 'b word) :: 'a word) = w"
  by (rule bit_word_eqI) (auto simp: bit_simps)

lemma readVarInt_write [simp]: "int64 x \<Longrightarrow> readVarInt (writeVarInt x @ r) = (Ret x, r)"
  by (simp add: readVarInt_def writeVarInt_def bindE_def sint_word_of_int64)

lemma readVarUInt32_write [simp]: "readVarUInt32 (writeVarUInt (ucast w) @ r) = (Ret w, r)"
  by (simp add: readVarUInt32_def bindE_def ucast_down_up)

lemma readVarUInt16_write [simp]: "readVarUInt16 (writeVarUInt (ucast w) @ r) = (Ret w, r)"
  by (simp add: readVarUInt16_def bindE_def ucast_down_up)

lemma readVarUInt_impl_check_eof:
  "10 - i \<le> length bs \<Longrightarrow> readVarUInt_impl True i x bs = readVarUInt_impl False i x bs"
proof (induction bs arbitrary: i x)
  case Nil
  then show ?case by (simp add: readVarUInt_impl.simps)
next
  case (Cons b bs)
  then show ?case by (simp add: readVarUInt_impl.simps [of _ i] Let_def)
qed

lemma length_writeVarUInt_pos: "0 < length (writeVarUInt x)"
  by (subst writeVarUInt.simps) simp

section \<open>Lengths\<close>

lemma length_writeVarUInt_le: "length (writeVarUInt x) \<le> Suc n \<longleftrightarrow> unat x < 2 ^ (7 * Suc n)"
proof (induction n arbitrary: x)
  case 0
  show ?case
    using length_writeVarUInt_pos [of "drop_bit 7 x"]
    by (subst writeVarUInt.simps) (auto simp: word_less_nat_alt)
next
  case (Suc n)
  show ?case
  proof (cases "0x7F < x")
    case True
    have e: "(2::nat) ^ (7 * Suc (Suc n)) = 2 ^ (7 * Suc n) * 128" by (simp add: power_add)
    have "unat (drop_bit 7 x) = unat x div 128" by (simp add: drop_bit_eq_div unat_div)
    then have "unat (drop_bit 7 x) < 2 ^ (7 * Suc n) \<longleftrightarrow> unat x < 2 ^ (7 * Suc (Suc n))"
      unfolding e by (simp only: div_less_iff_less_mult)
    then show ?thesis using True Suc.IH [of "drop_bit 7 x"] by (subst writeVarUInt.simps) simp
  next
    case False
    then have "unat x < 2 ^ 7" by (simp add: word_less_nat_alt)
    also have "(2::nat) ^ 7 \<le> 2 ^ (7 * Suc (Suc n))" by (rule power_increasing) simp_all
    finally show ?thesis using False by (subst writeVarUInt.simps) simp
  qed
qed

section \<open>Truncated input\<close>

text \<open>A reader that throws on every strict prefix of an encoding.\<close>

definition tornRead :: "'a reader \<Rightarrow> bytes \<Rightarrow> bool" where
  "tornRead p bs \<longleftrightarrow> (\<forall>k < length bs. \<exists>c r. p (take k bs) = (Throw c, r))"

named_theorems torn

lemma tornReadD: "tornRead p bs \<Longrightarrow> k < length bs \<Longrightarrow> \<exists>c r. p (take k bs) = (Throw c, r)"
  by (simp add: tornRead_def)

lemma tornRead_Nil [torn]: "tornRead p []"
  by (simp add: tornRead_def)

lemma tornRead_bind [torn]:
  assumes "tornRead p xs" "\<And>r. p (xs @ r) = (Ret v, r)" "tornRead (f v) ys"
  shows "tornRead (bindE p f) (xs @ ys)"
  unfolding tornRead_def
proof (intro allI impI)
  fix k
  assume k: "k < length (xs @ ys)"
  show "\<exists>c r. bindE p f (take k (xs @ ys)) = (Throw c, r)"
  proof (cases "k < length xs")
    case True
    then show ?thesis using tornReadD [OF assms(1) True] by (auto simp: bindE_def)
  next
    case False
    then have "\<exists>c r. f v (take (k - length xs) ys) = (Throw c, r)"
      using k by (intro tornReadD [OF assms(3)]) simp
    then show ?thesis using False assms(2) by simp
  qed
qed

lemma tornRead_last:
  assumes "tornRead p xs" shows "tornRead (bindE p f) xs"
  using assms by (fastforce simp: tornRead_def bindE_def)

lemma readVarUInt_impl_torn:
  assumes "i < 10" "unat x < 2 ^ (7 * (10 - i))" "k < length (writeVarUInt x)"
  shows "readVarUInt_impl True i acc (take k (writeVarUInt x)) = (Throw ATTEMPT_TO_READ_AFTER_EOF, [])"
  using assms
proof (induction x arbitrary: i acc k rule: writeVarUInt.induct)
  case (1 x)
  show ?case
  proof (cases k)
    case 0
    then show ?thesis using 1(2) by (simp add: readVarUInt_impl.simps)
  next
    case (Suc m)
    then have True: "0x7F < x" using 1(4) by (subst (asm) writeVarUInt.simps) (auto split: if_splits)
    then have big: "128 \<le> unat x" by (simp add: word_less_nat_alt)
    have "i \<noteq> 9" using 1(3) big by auto
    then have i: "i + 1 < 10" using 1(2) by simp
    have e: "7 * (10 - i) = 7 * (10 - (i + 1)) + 7" using i by simp
    have "unat (drop_bit 7 x) < 2 ^ (7 * (10 - (i + 1)))"
      using 1(3) unfolding e power_add
      by (simp add: drop_bit_eq_div unat_div less_mult_imp_div_less)
    moreover have "m < length (writeVarUInt (drop_bit 7 x))"
      using 1(4) True Suc by (subst (asm) writeVarUInt.simps) simp
    ultimately show ?thesis
      using 1(1) [OF True i] True 1(2) varUInt_byte [of x] Suc
      by (simp add: writeVarUInt.simps [of x] readVarUInt_impl.simps [of _ i] Let_def)
  qed
qed

lemma tornRead_readVarUInt [torn]: "tornRead readVarUInt (writeVarUInt x)"
  unfolding tornRead_def
proof (intro allI impI)
  fix k
  assume k: "k < length (writeVarUInt x)"
  have x: "unat x < 2 ^ 64" using unsigned_less [of x] by simp
  also have "(2::nat) ^ 64 \<le> 2 ^ (7 * (10 - 0))" by (rule power_increasing) simp_all
  finally have x': "unat x < 2 ^ (7 * (10 - 0))" .
  have "length (writeVarUInt x) \<le> 10" using length_writeVarUInt_le [of x 9] x' by simp
  with k have "\<not> 10 \<le> length (take k (writeVarUInt x))" by simp
  then show "\<exists>c r. readVarUInt (take k (writeVarUInt x)) = (Throw c, r)"
    using readVarUInt_impl_torn [OF _ x' k] by (simp add: readVarUInt_def)
qed

lemma tornRead_readers [torn]:
  "tornRead readVarUInt32 (writeVarUInt x)" "tornRead readVarUInt16 (writeVarUInt x)"
  "tornRead readVarInt (writeVarInt y)" "length bs = n \<Longrightarrow> tornRead (readStrict n) bs"
  "tornRead readIntBinary8 (le_bytes 1 w)" "tornRead readIntBinary32 (le_bytes 4 v)"
proof -
  have s: "tornRead (readStrict n) bs" if "length bs = n" for bs n
    using that by (simp add: tornRead_def readStrict_def)
  show "tornRead readVarUInt32 (writeVarUInt x)" "tornRead readVarUInt16 (writeVarUInt x)"
    "tornRead readVarInt (writeVarInt y)" "length bs = n \<Longrightarrow> tornRead (readStrict n) bs"
    "tornRead readIntBinary8 (le_bytes 1 w)" "tornRead readIntBinary32 (le_bytes 4 v)"
    unfolding readVarUInt32_def readVarUInt16_def readVarInt_def writeVarInt_def readIntBinary8_def readIntBinary32_def
    by (intro tornRead_last tornRead_readVarUInt s; simp)+
qed

section \<open>Properties\<close>

text \<open>
  Property C28: reading a base-128 integer back from the bytes \<^verbatim>\<open>writeVarUInt\<close> produced gives the
  integer and consumes exactly those bytes, with and without the end-of-buffer check, and their
  number is what \<^verbatim>\<open>getLengthOfVarUInt\<close> says.
\<close>

theorem varUInt_roundtrip:
  "readVarUInt (writeVarUInt x @ r) = (Ret x, r) \<and> length (writeVarUInt x) = getLengthOfVarUInt x"
proof
  show "readVarUInt (writeVarUInt x @ r) = (Ret x, r)" by simp
  let ?l = "length (writeVarUInt x)"
  have le: "?l \<le> n \<longleftrightarrow> unat x < 2 ^ (7 * n)" if "0 < n" for n
    using length_writeVarUInt_le [of x "n - 1"] that by simp
  have "unat x < 2 ^ 64" using unsigned_less [of x] by simp
  then have "?l \<le> 10" using le [of 10] by (simp add: less_le_trans)
  then show "?l = getLengthOfVarUInt x"
    using length_writeVarUInt_pos [of x] le [of 1] le [of 2] le [of 3] le [of 4] le [of 5] le [of 6] le [of 7] le [of 8] le [of 9]
    by (simp add: getLengthOfVarUInt_def word_less_nat_alt del: length_greater_0_conv) presburger
qed

text \<open>
  A signed 64-bit integer survives the zigzag encoding.
\<close>

lemma varInt_roundtrip:
  assumes "int64 x"
  shows "readVarInt (writeVarInt x @ r) = (Ret x, r)"
  using assms by simp

lemma varInt_roundtrip_witness: "readVarInt (writeVarInt (- 3) @ [7]) = (Ret (- 3), [7])"
  using varInt_roundtrip [of "- 3" "[7]"] by (simp add: int64_def)

end
