(* ===== verification/Nlog_Entry.thy ===== *)
theory Nlog_Entry
  imports Nlog_Codec
begin

text \<open>
  The log entry and its persistent format, from \<^verbatim>\<open>src/src/Cluster/Common/Entry.h\<close> and
  \<^verbatim>\<open>Entry.cpp\<close>: the structure, serialisation with the length prefix patched in afterwards, the
  metadata-only and full readers, and \<^verbatim>\<open>parseMany\<close>, which splits a buffer read from a segment
  file into entries and stops at a torn tail. Memory allocation is taken to succeed.
\<close>

section \<open>The structure\<close>

text \<open>
  \<^verbatim>\<open>EntryType\<close> is an enum with the fixed underlying type \<^verbatim>\<open>uint8_t\<close>: every byte is a value of it
  and two of them are named.
\<close>

type_synonym EntryType = byte

definition Normal :: EntryType where "Normal = 0"

definition ConfChange :: EntryType where "ConfChange = 1"

record Entry =
  e_prefix_length :: u32
  e_crc :: u32
  e_version :: u16
  e_correlation_id :: u64
  e_max_event_timestamp :: int
  e_append_timestamp :: int
  e_sn :: int
  e_type :: EntryType
  e_data :: bytes

definition emptyEntry :: Entry where
  "emptyEntry = \<lparr>e_prefix_length = 0, e_crc = 0, e_version = 0, e_correlation_id = 0,
     e_max_event_timestamp = 0, e_append_timestamp = 0, e_sn = 0, e_type = Normal, e_data = []\<rparr>"

definition prefixLengthSize :: nat where
  "prefixLengthSize = 4"

definition serializedSize :: "Entry \<Rightarrow> nat" where
  "serializedSize e = unat (e_prefix_length e) + prefixLengthSize"

definition payloadSize :: "Entry \<Rightarrow> nat" where
  "payloadSize e = length (e_data e)"

text \<open>\<^verbatim>\<open>sizeof(Entry)\<close> under the x86-64 ABI: 56 bytes of scalars with padding and a 32-byte vector.\<close>

definition approximateSerializedSize :: "Entry \<Rightarrow> nat" where
  "approximateSerializedSize e = 88 + length (e_data e)"

definition approximateSerializedMetadataSize :: nat where
  "approximateSerializedMetadataSize = 4 + 4 + 2 + 8 + 8 + 8 + 8 + 1"

definition payloadSizeOfEntries :: "Entry list \<Rightarrow> nat" where
  "payloadSizeOfEntries es = fold (\<lambda>e size. size + payloadSize e) es 0"

definition setData :: "bytes \<Rightarrow> Entry \<Rightarrow> Entry" where
  "setData d e = e\<lparr>e_data := d, e_prefix_length := of_nat (length d)\<rparr>"

definition entryEq :: "Entry \<Rightarrow> Entry \<Rightarrow> bool" where
  "entryEq a b \<longleftrightarrow> e_version a = e_version b \<and> e_correlation_id a = e_correlation_id b
     \<and> e_max_event_timestamp a = e_max_event_timestamp b
     \<and> e_append_timestamp a = e_append_timestamp b \<and> e_sn a = e_sn b \<and> e_type a = e_type b
     \<and> e_data a = e_data b"

definition cloneEntry :: "Entry \<Rightarrow> Entry" where
  "cloneEntry e = emptyEntry\<lparr>e_data := e_data e, e_prefix_length := e_prefix_length e,
     e_crc := e_crc e, e_version := e_version e, e_correlation_id := e_correlation_id e,
     e_max_event_timestamp := e_max_event_timestamp e, e_append_timestamp := e_append_timestamp e,
     e_sn := e_sn e, e_type := e_type e\<rparr>"

definition cloneEntryWith :: "bytes \<Rightarrow> Entry \<Rightarrow> Entry" where
  "cloneEntryWith d e = emptyEntry\<lparr>e_data := d, e_prefix_length := of_nat (length d),
     e_crc := 0, e_version := e_version e, e_correlation_id := e_correlation_id e,
     e_max_event_timestamp := e_max_event_timestamp e, e_append_timestamp := e_append_timestamp e,
     e_sn := e_sn e, e_type := e_type e\<rparr>"

section \<open>Writing\<close>

definition serializeEntry_wb :: "Entry \<Rightarrow> bytes" where
  "serializeEntry_wb e =
     le_bytes 4 (e_prefix_length e)
     @ writeVarUInt (ucast (e_crc e))
     @ writeVarUInt (ucast (e_version e))
     @ writeVarUInt (e_correlation_id e)
     @ writeVarInt (e_max_event_timestamp e)
     @ writeVarInt (e_append_timestamp e)
     @ writeVarInt (e_sn e)
     @ le_bytes 1 (e_type e)
     @ writeVarUInt (of_nat (length (e_data e)))
     @ e_data e"

text \<open>\<^verbatim>\<open>memcpy\<close> of the length over the first four bytes of the buffer.\<close>

definition prefixWithLength :: "u32 \<Rightarrow> bytes \<Rightarrow> bytes" where
  "prefixWithLength pl bs = le_bytes 4 pl @ drop 4 bs"

text \<open>
  \<^verbatim>\<open>Entry::serialize\<close> returns the bytes and, through a \<^verbatim>\<open>mutable\<close> member, updates the entry.
\<close>

definition serializeEntry :: "Entry \<Rightarrow> bytes \<times> Entry" where
  "serializeEntry e =
    (let bs = serializeEntry_wb e; pl = of_nat (length bs - 4)
     in (prefixWithLength pl bs, e\<lparr>e_prefix_length := pl\<rparr>))"

section \<open>Reading\<close>

definition deserializePrefixLength :: "Entry \<Rightarrow> Entry reader" where
  "deserializePrefixLength e =
     bindE readIntBinary32 (\<lambda>pl. retE (e\<lparr>e_prefix_length := pl\<rparr>))"

definition deserializeRest :: "bool \<Rightarrow> Entry \<Rightarrow> Entry reader" where
  "deserializeRest metadata_only e =
     bindE readVarUInt32 (\<lambda>c.
     bindE readVarUInt16 (\<lambda>v.
     bindE readVarUInt (\<lambda>cid.
     bindE readVarInt (\<lambda>met.
     bindE readVarInt (\<lambda>ats.
     bindE readVarInt (\<lambda>s.
     bindE readIntBinary8 (\<lambda>ty.
       let e' = e\<lparr>e_crc := c, e_version := v, e_correlation_id := cid,
                  e_max_event_timestamp := met, e_append_timestamp := ats, e_sn := s,
                  e_type := ty\<rparr>
       in if metadata_only then retE e'
          else bindE readVarUInt (\<lambda>size.
               bindE (readStrict (unat size)) (\<lambda>d.
               retE (e'\<lparr>e_data := d\<rparr>))))))))))"

definition deserializeEntry :: "bool \<Rightarrow> Entry \<Rightarrow> Entry reader" where
  "deserializeEntry metadata_only e =
     bindE (deserializePrefixLength e) (deserializeRest metadata_only)"

definition parseEntry :: "bool \<Rightarrow> Entry reader" where
  "parseEntry metadata_only = deserializeEntry metadata_only emptyEntry"

text \<open>
  The loop of \<^verbatim>\<open>parseMany\<close>. The source passes \<^verbatim>\<open>version_\<close> where \<^verbatim>\<open>deserializeRest\<close> expects
  \<^verbatim>\<open>metadata_only\<close>; the model does the same.
\<close>

function parseMany_loop ::
  "nat \<Rightarrow> u16 \<Rightarrow> int \<Rightarrow> nat \<Rightarrow> nat \<Rightarrow> Entry list \<Rightarrow> bytes \<Rightarrow> (nat CallResult \<times> Entry list) exec" where
  "parseMany_loop data_size version max_sn max_size parsed entries rb =
    (if parsed + prefixLengthSize < data_size then
       case deserializePrefixLength emptyEntry rb of
         (Ret e, rb') \<Rightarrow>
           if data_size < parsed + serializedSize e then Ret (okR parsed, entries)
           else (case deserializeRest (version \<noteq> 0) e rb' of
                   (Ret e', rb'') \<Rightarrow>
                     if e_sn e' < max_sn then
                       let parsed' = parsed + serializedSize e'; entries' = entries @ [e']
                       in if max_size \<le> parsed' then Ret (okR parsed', entries')
                          else parseMany_loop data_size version max_sn max_size parsed' entries' rb''
                     else Ret (okR parsed, entries)
                 | (Throw c, _) \<Rightarrow> Ret (errR parsed c, entries)
                 | (Undef, _) \<Rightarrow> Undef
                 | (Diverge, _) \<Rightarrow> Diverge)
       | (Throw c, _) \<Rightarrow> Ret (errR parsed c, entries)
       | (Undef, _) \<Rightarrow> Undef
       | (Diverge, _) \<Rightarrow> Diverge
     else Ret (okR parsed, entries))"
  by pat_completeness auto

termination parseMany_loop
  by (relation "measure (\<lambda>(n, _, _, _, p, _, _). n - p)")
    (auto simp: serializedSize_def prefixLengthSize_def)

declare parseMany_loop.simps [simp del]

definition parseMany ::
  "bytes \<Rightarrow> u16 \<Rightarrow> int \<Rightarrow> nat \<Rightarrow> Entry list \<Rightarrow> (nat CallResult \<times> Entry list) exec" where
  "parseMany data version max_sn max_size entries =
     parseMany_loop (length data) version max_sn max_size 0 entries data"

section \<open>Round trips\<close>

text \<open>An entry whose signed fields fit 64 bits and whose encoding fits the 32-bit length.\<close>

definition wfEntry :: "Entry \<Rightarrow> bool" where
  "wfEntry e \<longleftrightarrow> int64 (e_max_event_timestamp e) \<and> int64 (e_append_timestamp e)
     \<and> int64 (e_sn e) \<and> length (serializeEntry_wb e) < 2 ^ 32"

text \<open>What a reader sees of an entry: all of it with the length prefix filled in.\<close>

definition storedEntry :: "Entry \<Rightarrow> Entry" where
  "storedEntry e = snd (serializeEntry e)"

definition entryBytes :: "Entry \<Rightarrow> bytes" where
  "entryBytes e = fst (serializeEntry e)"

definition entryRest :: "Entry \<Rightarrow> bytes" where
  "entryRest e = drop 4 (serializeEntry_wb e)"

lemma entryBytes_eq: "entryBytes e = le_bytes 4 (of_nat (length (entryRest e)) :: u32) @ entryRest e"
  by (simp add: entryBytes_def entryRest_def serializeEntry_def Let_def prefixWithLength_def)

lemma storedEntry_eq: "storedEntry e = e\<lparr>e_prefix_length := of_nat (length (entryRest e))\<rparr>"
  by (simp add: storedEntry_def entryRest_def serializeEntry_def Let_def)

lemma wfEntry_rest: "wfEntry e \<Longrightarrow> length (entryRest e) < 2 ^ 32"
  by (auto simp: wfEntry_def entryRest_def)

lemma wfEntry_data: "wfEntry e \<Longrightarrow> length (e_data e) < 2 ^ 32"
  by (simp add: wfEntry_def serializeEntry_wb_def)

lemma length_entryBytes [simp]: "length (entryBytes e) = length (entryRest e) + 4"
  by (simp add: entryBytes_eq)

lemma storedEntry_simps [simp]: "e_sn (storedEntry e) = e_sn e" "e_data (storedEntry e) = e_data e"
  "e_append_timestamp (storedEntry e) = e_append_timestamp e"
  "e_max_event_timestamp (storedEntry e) = e_max_event_timestamp e"
  by (simp_all add: storedEntry_eq)

lemma serializedSize_storedEntry [simp]:
  "wfEntry e \<Longrightarrow> serializedSize (storedEntry e) = length (entryBytes e)"
  using wfEntry_rest [of e]
  by (simp add: serializedSize_def prefixLengthSize_def storedEntry_eq unat_of_nat)

lemma deserializePrefixLength_bytes [simp]:
  "deserializePrefixLength x (entryBytes e @ r)
     = (Ret (x\<lparr>e_prefix_length := of_nat (length (entryRest e))\<rparr>), entryRest e @ r)"
  by (simp add: deserializePrefixLength_def bindE_def entryBytes_eq)

lemma unat_of_data_length [simp]: "wfEntry e \<Longrightarrow> unat (of_nat (length (e_data e)) :: u64) = length (e_data e)"
  using wfEntry_data [of e] by (simp add: unat_of_nat take_bit_nat_eq_self)

lemma deserializeRest_bytes [simp]:
  assumes "wfEntry e"
  shows "deserializeRest False (emptyEntry\<lparr>e_prefix_length := pl\<rparr>) (entryRest e @ r)
    = (Ret (e\<lparr>e_prefix_length := pl\<rparr>), r)"
  using assms unat_of_data_length [OF assms] unfolding wfEntry_def
  by (simp add: deserializeRest_def entryRest_def serializeEntry_wb_def Let_def emptyEntry_def)

lemma deserializeRest_metadata [simp]:
  assumes "wfEntry e"
  shows "deserializeRest True (emptyEntry\<lparr>e_prefix_length := pl\<rparr>) (entryRest e @ r)
    = (Ret (e\<lparr>e_prefix_length := pl, e_data := []\<rparr>),
       writeVarUInt (of_nat (length (e_data e))) @ e_data e @ r)"
  using assms unfolding wfEntry_def
  by (simp add: deserializeRest_def entryRest_def serializeEntry_wb_def Let_def emptyEntry_def)

lemma parseEntry_bytes: "wfEntry e \<Longrightarrow> parseEntry False (entryBytes e @ r) = (Ret (storedEntry e), r)"
  by (simp add: parseEntry_def deserializeEntry_def storedEntry_eq)

section \<open>Splitting a buffer into entries\<close>

text \<open>
  The entries \<^verbatim>\<open>parseMany\<close> must return from a run of stored entries: up to the first one that
  reaches \<open>max_sn\<close>, and no further once \<open>max_size\<close> bytes are taken.
\<close>

fun takeEntries :: "int \<Rightarrow> nat \<Rightarrow> nat \<Rightarrow> Entry list \<Rightarrow> Entry list" where
  "takeEntries max_sn max_size n [] = []"
| "takeEntries max_sn max_size n (e # es) =
    (if e_sn e < max_sn then
       let n' = n + length (entryBytes e)
       in e # (if max_size \<le> n' then [] else takeEntries max_sn max_size n' es)
     else [])"

definition logBytes :: "Entry list \<Rightarrow> bytes" where
  "logBytes es = concat (map entryBytes es)"

lemma logBytes_simps [simp]: "logBytes [] = []" "logBytes (e # es) = entryBytes e @ logBytes es"
  "logBytes (es @ fs) = logBytes es @ logBytes fs"
  by (simp_all add: logBytes_def)

text \<open>A torn tail: a strict prefix of one more entry.\<close>

lemma parseMany_torn_tail:
  assumes "wfEntry t" "k < length (entryBytes t)"
  shows "parseMany_loop (p + k) v max_sn max_size p acc (take k (entryBytes t)) = Ret (okR p, acc)"
proof (cases "k \<le> 4")
  case True
  then show ?thesis by (simp add: parseMany_loop.simps prefixLengthSize_def)
next
  case False
  then have "take k (entryBytes t)
      = le_bytes 4 (of_nat (length (entryRest t)) :: u32) @ take (k - 4) (entryRest t)"
    by (simp add: entryBytes_eq)
  then have "deserializePrefixLength emptyEntry (take k (entryBytes t))
      = (Ret (emptyEntry\<lparr>e_prefix_length := of_nat (length (entryRest t))\<rparr>), take (k - 4) (entryRest t))"
    by (simp add: deserializePrefixLength_def)
  then show ?thesis
    using assms wfEntry_rest [OF assms(1)]
    by (simp add: parseMany_loop.simps serializedSize_def prefixLengthSize_def unat_of_nat
        take_bit_nat_eq_self)
qed

lemma entryRest_nonempty [simp]: "entryRest e \<noteq> []"
proof -
  have "length (entryRest e) > 0"
    by (simp add: entryRest_def serializeEntry_wb_def length_writeVarUInt_pos)
  then show ?thesis by auto
qed

lemma parseMany_loop_step:
  assumes "wfEntry e" "p + length (entryBytes e) \<le> n"
  shows "parseMany_loop n 0 max_sn max_size p acc (entryBytes e @ r) =
    (let p' = p + length (entryBytes e); acc' = acc @ [storedEntry e]
     in if e_sn e < max_sn then
          if max_size \<le> p' then Ret (okR p', acc')
          else parseMany_loop n 0 max_sn max_size p' acc' r
        else Ret (okR p, acc))"
proof -
  let ?pl = "of_nat (length (entryRest e)) :: u32"
  have pl: "unat ?pl = length (entryRest e)"
    using wfEntry_rest [OF assms(1)] by (simp add: unat_of_nat)
  have rest: "deserializeRest False (emptyEntry\<lparr>e_prefix_length := ?pl\<rparr>) (entryRest e @ r)
      = (Ret (storedEntry e), r)"
    using deserializeRest_bytes [OF assms(1)] by (simp add: storedEntry_eq)
  have "0 < length (entryRest e)" by simp
  with assms(2) have "p + prefixLengthSize < n" "\<not> n < p + (unat ?pl + prefixLengthSize)"
    by (simp_all add: prefixLengthSize_def pl del: length_greater_0_conv)
  with assms(1) rest show ?thesis
    by (subst parseMany_loop.simps)
      (simp add: Let_def serializedSize_storedEntry [simplified] serializedSize_def [of "emptyEntry\<lparr>e_prefix_length := of_nat (length (entryRest e))\<rparr>"])
qed

text \<open>What may follow the whole entries: too little for a length prefix, or a torn entry.\<close>

definition tornTail :: "bytes \<Rightarrow> bool" where
  "tornTail x \<longleftrightarrow> length x \<le> 4 \<or> (\<exists>t k. wfEntry t \<and> k < length (entryBytes t) \<and> x = take k (entryBytes t))"

lemma parseMany_loop_tornTail:
  assumes "tornTail x"
  shows "parseMany_loop (p + length x) v max_sn max_size p acc x = Ret (okR p, acc)"
  using assms unfolding tornTail_def
proof (elim disjE exE conjE)
  assume "length x \<le> 4"
  then show ?thesis by (simp add: parseMany_loop.simps prefixLengthSize_def)
next
  fix t k
  assume "wfEntry t" "k < length (entryBytes t)" "x = take k (entryBytes t)"
  then show ?thesis using parseMany_torn_tail [of t k p v max_sn max_size acc] by simp
qed

lemma parseMany_loop_entries:
  assumes "\<forall>e \<in> set es. wfEntry e" "tornTail x" "n = p + length (logBytes es) + length x"
  shows "parseMany_loop n 0 max_sn max_size p acc (logBytes es @ x)
    = Ret (okR (p + length (logBytes (takeEntries max_sn max_size p es))),
           acc @ map storedEntry (takeEntries max_sn max_size p es))"
  using assms
proof (induction es arbitrary: p acc)
  case Nil
  then show ?case using parseMany_loop_tornTail by simp
next
  case (Cons e es)
  let ?p = "p + length (entryBytes e)"
  have "parseMany_loop n 0 max_sn max_size ?p acc' (logBytes es @ x)
      = Ret (okR (?p + length (logBytes (takeEntries max_sn max_size ?p es))),
             acc' @ map storedEntry (takeEntries max_sn max_size ?p es))" for acc'
    using Cons.prems by (intro Cons.IH) auto
  moreover have "wfEntry e" "?p \<le> n" using Cons.prems by simp_all
  ultimately show ?case by (simp add: parseMany_loop_step Let_def del: length_entryBytes)
qed

lemma parseMany_tornTail:
  assumes "\<forall>e \<in> set es. wfEntry e" "tornTail x"
  shows "parseMany (logBytes es @ x) 0 max_sn max_size acc =
    Ret (okR (length (logBytes (takeEntries max_sn max_size 0 es))),
         acc @ map storedEntry (takeEntries max_sn max_size 0 es))"
  using parseMany_loop_entries [OF assms refl, where p = 0] by (simp add: parseMany_def)

subsection \<open>Entries with consecutive sequences\<close>

fun contiguous :: "int \<Rightarrow> Entry list \<Rightarrow> bool" where
  "contiguous sn [] = True"
| "contiguous sn (e # es) \<longleftrightarrow> e_sn e = sn \<and> contiguous (sn + 1) es"

lemma contiguous_append [simp]:
  "contiguous sn (es @ fs) \<longleftrightarrow> contiguous sn es \<and> contiguous (sn + int (length es)) fs"
  by (induction es arbitrary: sn) (auto simp: algebra_simps)

lemma contiguous_nth: "contiguous sn es \<Longrightarrow> i < length es \<Longrightarrow> e_sn (es ! i) = sn + int i"
proof (induction es arbitrary: sn i)
  case (Cons e es)
  then show ?case by (cases i) auto
qed simp

lemma contiguous_last: "contiguous sn es \<Longrightarrow> es \<noteq> [] \<Longrightarrow> e_sn (last es) = sn + int (length es) - 1"
proof -
  assume "contiguous sn es" "es \<noteq> []"
  then show ?thesis
    using contiguous_nth [of sn es "length es - 1"] by (cases "length es") (simp_all add: last_conv_nth)
qed

lemma contiguous_take_drop:
  assumes "contiguous sn es"
  shows "contiguous sn (take n es)" "n \<le> length es \<Longrightarrow> contiguous (sn + int n) (drop n es)"
proof -
  have "contiguous sn (take n es @ drop n es)" using assms by simp
  then show "contiguous sn (take n es)" "n \<le> length es \<Longrightarrow> contiguous (sn + int n) (drop n es)"
    by (simp_all only: contiguous_append, simp)
qed

lemma takeEntries_shift: "n < m \<Longrightarrow> takeEntries ms m n es = takeEntries ms (m - n) 0 es"
proof (induction es arbitrary: n m)
  case (Cons e es)
  let ?k = "length (entryBytes e)"
  show ?case
  proof (cases "m \<le> n + ?k")
    case True
    then show ?thesis using Cons.prems by (auto simp: Let_def simp del: length_entryBytes)
  next
    case False
    then have "takeEntries ms m (n + ?k) es = takeEntries ms (m - n) (0 + ?k) es"
      using Cons.IH [of "n + ?k" m] Cons.IH [of ?k "m - n"] by (simp del: length_entryBytes)
    then show ?thesis using False by (auto simp: Let_def simp del: length_entryBytes)
  qed
qed simp

lemma takeEntries_prefix: "\<exists>k. takeEntries ms m n es = take k es"
proof (induction es arbitrary: n)
  case (Cons e es)
  obtain k where "takeEntries ms m (n + length (entryBytes e)) es = take k es" using Cons.IH by blast
  then have "takeEntries ms m n (e # es) = take (if e_sn e < ms then if m \<le> n + length (entryBytes e) then 1 else Suc k else 0) (e # es)"
    by (simp add: Let_def del: length_entryBytes)
  then show ?case by blast
qed simp

lemma takeEntries_full:
  assumes "n < m" "m \<le> n + length (logBytes (takeEntries ms m n ws))"
  shows "takeEntries ms m n (ws @ rs) = takeEntries ms m n ws"
  using assms
proof (induction ws arbitrary: n)
  case (Cons e ws)
  then show ?case using Cons.IH [of "n + length (entryBytes e)"]
    by (auto simp: Let_def add.assoc simp del: length_entryBytes split: if_splits)
qed simp

lemma takeEntries_beyond: "ms \<le> sn \<Longrightarrow> contiguous sn es \<Longrightarrow> takeEntries ms m n es = []"
  by (cases es) auto

lemma takeEntries_Cons_room:
  assumes "e_sn e < ms" "\<not> m \<le> n + length (logBytes (takeEntries ms m n (e # ws)))"
  shows "\<not> m \<le> n + length (entryBytes e)"
    and "\<not> m \<le> n + length (entryBytes e) + length (logBytes (takeEntries ms m (n + length (entryBytes e)) ws))"
    and "takeEntries ms m n (e # xs) = e # takeEntries ms m (n + length (entryBytes e)) xs"
  using assms by (auto simp: Let_def simp del: length_entryBytes split: if_splits)

lemma takeEntries_room:
  assumes "contiguous sn ws" "n < m" "sn < ms" "\<not> m \<le> n + length (logBytes (takeEntries ms m n ws))"
  shows "ms \<le> sn + int (length (takeEntries ms m n ws)) \<and> contiguous sn (ws @ rs) \<longrightarrow>
      takeEntries ms m n (ws @ rs) = takeEntries ms m n ws"
    and "\<not> ms \<le> sn + int (length (takeEntries ms m n ws)) \<longrightarrow>
      takeEntries ms m n ws = ws \<and> takeEntries ms m n (ws @ rs) = ws @ takeEntries ms m (n + length (logBytes ws)) rs"
  unfolding atomize_conj using assms
proof (induction ws arbitrary: n sn)
  case (Cons e ws)
  let ?n = "n + length (entryBytes e)"
  have "e_sn e < ms" using Cons.prems by simp
  note r = takeEntries_Cons_room [OF this Cons.prems(4)]
  show ?case
  proof (cases "sn + 1 < ms")
    case True
    then show ?thesis using Cons.IH [of "sn + 1" ?n] Cons.prems(1) r(1,2)
      by (simp add: r(3) algebra_simps del: takeEntries.simps length_entryBytes)
  next
    case False
    then show ?thesis
      using Cons.prems(1) takeEntries_beyond [of ms "sn + 1" ws m ?n]
        takeEntries_beyond [of ms "sn + 1" "ws @ rs" m ?n]
      by (simp add: r(3) algebra_simps del: takeEntries.simps length_entryBytes)
  qed
qed simp

section \<open>Reading the metadata\<close>

text \<open>
  The part of an entry in front of its payload, which \<^verbatim>\<open>metadata_only\<close> readers parse, and what
  they see of the entry.
\<close>

definition metaRest :: "Entry \<Rightarrow> bytes" where
  "metaRest e =
     writeVarUInt (ucast (e_crc e)) @ writeVarUInt (ucast (e_version e)) @ writeVarUInt (e_correlation_id e)
     @ writeVarInt (e_max_event_timestamp e) @ writeVarInt (e_append_timestamp e) @ writeVarInt (e_sn e)
     @ le_bytes 1 (e_type e)"

definition metaBytes :: "Entry \<Rightarrow> bytes" where
  "metaBytes e = le_bytes 4 (of_nat (length (entryRest e)) :: u32) @ metaRest e"

definition storedMeta :: "Entry \<Rightarrow> Entry" where
  "storedMeta e = (storedEntry e)\<lparr>e_data := []\<rparr>"

lemma entryBytes_meta:
  "entryBytes e = metaBytes e @ writeVarUInt (of_nat (length (e_data e))) @ e_data e"
  by (simp add: entryBytes_eq metaBytes_def metaRest_def) (simp add: entryRest_def serializeEntry_wb_def)

lemma length_metaBytes: "length (metaBytes e) < length (entryBytes e)"
  using length_writeVarUInt_pos by (simp add: entryBytes_meta add_pos_nonneg del: length_entryBytes)

lemma storedMeta_simps [simp]:
  "e_sn (storedMeta e) = e_sn e" "wfEntry e \<Longrightarrow> serializedSize (storedMeta e) = length (entryBytes e)"
  using serializedSize_storedEntry [of e] by (simp_all add: storedMeta_def serializedSize_def)

lemma parseEntry_meta:
  assumes "wfEntry e"
  shows "parseEntry True (metaBytes e @ r) = (Ret (storedMeta e), r)"
  using assms unfolding wfEntry_def
  by (simp add: parseEntry_def deserializeEntry_def deserializePrefixLength_def deserializeRest_def
      metaBytes_def metaRest_def storedMeta_def storedEntry_eq emptyEntry_def Let_def)

lemma parseEntry_meta_torn:
  assumes "wfEntry e"
  shows "tornRead (parseEntry True) (metaBytes e)"
proof -
  have i: "int64 (e_max_event_timestamp e)" "int64 (e_append_timestamp e)" "int64 (e_sn e)"
    using assms by (simp_all add: wfEntry_def)
  have p: "tornRead (deserializePrefixLength emptyEntry) (le_bytes 4 pl)" for pl :: u32
    unfolding deserializePrefixLength_def by (intro tornRead_last torn)
  have "tornRead (deserializeRest True x) (metaRest e)" for x
    unfolding deserializeRest_def metaRest_def
    by (intro tornRead_bind tornRead_last torn) (use i in simp_all)
  with p show ?thesis
    unfolding parseEntry_def deserializeEntry_def metaBytes_def
    by (intro tornRead_bind) (auto simp: deserializePrefixLength_def)
qed

text \<open>
  A metadata reader is given a buffer of \<^verbatim>\<open>approximateSerializedMetadataSize()\<close> bytes, the sum of
  the sizes of the fields in memory. It holds the metadata of an entry whose integers are not too
  long in base 128.
\<close>

definition metaFits :: "Entry \<Rightarrow> bool" where
  "metaFits e \<longleftrightarrow> length (metaBytes e) \<le> approximateSerializedMetadataSize"

lemma parseEntry_meta_buffer:
  assumes "wfEntry e" "length (metaBytes e) \<le> k"
  shows "fst (parseEntry True (take k (entryBytes e @ r))) = Ret (storedMeta e)"
  using parseEntry_meta [OF assms(1)] assms(2) by (simp add: entryBytes_meta)

lemma parseEntry_meta_short:
  assumes "wfEntry e" "k < length (metaBytes e)"
  obtains c where "fst (parseEntry True (take k (entryBytes e @ r))) = Throw c"
proof -
  have "take k (entryBytes e @ r) = take k (metaBytes e)" using assms(2) by (simp add: entryBytes_meta)
  then show ?thesis using tornReadD [OF parseEntry_meta_torn [OF assms(1)] assms(2)] that by auto
qed

section \<open>Properties\<close>

text \<open>
  Property C26: what \<^verbatim>\<open>Entry::serialize\<close> writes, \<^verbatim>\<open>Entry::parse\<close> reads back: the same entry with its
  length prefix filled in, consuming exactly the bytes of the entry; and the prefix makes
  \<^verbatim>\<open>serializedSize\<close> the number of those bytes.
\<close>

theorem entry_roundtrip:
  assumes "wfEntry e" "serializeEntry e = (bs, e')"
  shows "parseEntry False (bs @ r) = (Ret e', r) \<and> entryEq e e' \<and> serializedSize e' = length bs"
  using assms parseEntry_bytes [OF assms(1), of r] serializedSize_storedEntry [OF assms(1)]
  by (auto simp: entryBytes_def storedEntry_def serializeEntry_def Let_def entryEq_def)

definition demoEntry :: "int \<Rightarrow> bytes \<Rightarrow> Entry" where
  "demoEntry sn d = emptyEntry\<lparr>e_sn := sn, e_append_timestamp := 1700000000000, e_correlation_id := 300, e_data := d\<rparr>"

lemma length_serialize_le: "length (serializeEntry_wb e) \<le> 75 + length (e_data e)"
proof -
  have l: "length (writeVarUInt x) \<le> 10" for x :: "64 word"
  proof -
    have "unat x < 2 ^ 64" using unsigned_less [of x] by simp
    then show ?thesis using length_writeVarUInt_le [of x 9] by simp
  qed
  have "length (serializeEntry_wb e) \<le> 4 + (10 + (10 + (10 + (10 + (10 + (10 + (1 + (10 + length (e_data e)))))))))"
    unfolding serializeEntry_wb_def writeVarInt_def length_append length_le_bytes
    by (intro add_mono l) simp_all
  then show ?thesis by simp
qed

lemma demoEntry_wf: "0 \<le> sn \<Longrightarrow> sn < 100 \<Longrightarrow> length d < 100 \<Longrightarrow> wfEntry (demoEntry sn d)"
  using length_serialize_le [of "demoEntry sn d"] by (simp add: wfEntry_def int64_def demoEntry_def emptyEntry_def)

theorem entry_roundtrip_witness:
  "parseEntry False (fst (serializeEntry (demoEntry 7 [1, 2])) @ [9]) = (Ret (snd (serializeEntry (demoEntry 7 [1, 2]))), [9])"
  using entry_roundtrip [OF demoEntry_wf [of 7 "[1, 2]"], of "fst (serializeEntry (demoEntry 7 [1, 2]))" "snd (serializeEntry (demoEntry 7 [1, 2]))" "[9]"]
  by simp

text \<open>
  Property C27: \<^verbatim>\<open>Entry::parseMany\<close> on a run of whole entries with a torn one behind it returns
  exactly the whole entries, up to the first that reaches \<^verbatim>\<open>max_sn\<close> and to the one with which
  \<^verbatim>\<open>max_size\<close> bytes are taken, and the number of bytes they occupy; a torn tail is no error.
\<close>

theorem parseMany_entries:
  assumes "\<forall>e \<in> set es. wfEntry e" "wfEntry t" "k < length (entryBytes t)"
  shows "parseMany (concat (map entryBytes es) @ take k (entryBytes t)) 0 max_sn max_size [] =
    (let taken = takeEntries max_sn max_size 0 es
     in Ret (okR (length (concat (map entryBytes taken))), map storedEntry taken))"
proof -
  have "tornTail (take k (entryBytes t))" using assms(2,3) by (auto simp: tornTail_def)
  then show ?thesis using parseMany_tornTail [OF assms(1)] by (simp add: logBytes_def Let_def)
qed

theorem parseMany_entries_witness:
  "parseMany (concat (map entryBytes [demoEntry 1 [5], demoEntry 2 []]) @ take 6 (entryBytes (demoEntry 3 [8]))) 0 100 1000 []
    = (let taken = takeEntries 100 1000 0 [demoEntry 1 [5], demoEntry 2 []]
       in Ret (okR (length (concat (map entryBytes taken))), map storedEntry taken))"
proof -
  have "6 < length (entryBytes (demoEntry 3 [8]))"
    using length_writeVarUInt_pos by (simp add: entryRest_def serializeEntry_wb_def demoEntry_def add_pos_nonneg)
  then show ?thesis
    by (intro parseMany_entries) (auto intro!: demoEntry_wf)
qed

end
