(* ===== verification/Nlog_Metadata.thy ===== *)
theory Nlog_Metadata
  imports Nlog_Entry
begin

text \<open>
  The small structures the log passes around: \<^verbatim>\<open>Constants\<close> and \<^verbatim>\<open>FetchHint\<close> of
  \<^verbatim>\<open>src/src/Cluster/Common\<close>, \<^verbatim>\<open>LogSequenceMetadata\<close> and \<^verbatim>\<open>FetchResult\<close> of
  \<^verbatim>\<open>LocalLog/Common\<close>, and the configuration records \<^verbatim>\<open>LogConfig\<close> and \<^verbatim>\<open>FetchConfig\<close> of
  \<^verbatim>\<open>LocalLog/Log\<close> with their \<^verbatim>\<open>validate\<close>.
\<close>

section \<open>Constants\<close>

definition LogStartSN :: int where "LogStartSN = 1"

definition SegmentStartID :: nat where "SegmentStartID = 1"

definition LatestSN :: int where "LatestSN = - 1"

definition EarliestSN :: int where "EarliestSN = - 2"

text \<open>\<^verbatim>\<open>std::numeric_limits<uint64_t>::max()\<close>\<close>

definition uint64_max :: nat where
  "uint64_max = 2 ^ 64 - 1"

section \<open>FetchHint\<close>

record FetchHint =
  fh_sn :: int
  fh_segment_base_sn :: int
  fh_file_position :: nat

definition emptyFetchHint :: FetchHint where
  "emptyFetchHint = \<lparr>fh_sn = 0, fh_segment_base_sn = 0, fh_file_position = uint64_max\<rparr>"

definition FetchHint_empty :: "FetchHint \<Rightarrow> bool" where
  "FetchHint_empty h \<longleftrightarrow> fh_sn h = 0 \<and> fh_segment_base_sn h = 0 \<and> fh_file_position h = uint64_max"

definition hasFilePosition :: "FetchHint \<Rightarrow> bool" where
  "hasFilePosition h \<longleftrightarrow> fh_file_position h \<noteq> uint64_max"

definition FetchHint_serialize :: "FetchHint \<Rightarrow> bytes" where
  "FetchHint_serialize h =
     writeVarInt (fh_sn h) @ writeVarInt (fh_segment_base_sn h) @ writeVarUInt (of_nat (fh_file_position h))"

definition FetchHint_deserialize :: "FetchHint reader" where
  "FetchHint_deserialize =
     bindE readVarInt (\<lambda>sn.
     bindE readVarInt (\<lambda>base.
     bindE readVarUInt (\<lambda>pos.
     retE \<lparr>fh_sn = sn, fh_segment_base_sn = base, fh_file_position = unat pos\<rparr>)))"

section \<open>LogSequenceMetadata\<close>

record LogSequenceMetadata =
  entry_sn :: int
  segment_base_sn :: "int option"
  file_position :: "nat option"

definition emptyLogSequenceMetadata :: LogSequenceMetadata where
  "emptyLogSequenceMetadata = \<lparr>entry_sn = 0, segment_base_sn = None, file_position = None\<rparr>"

definition isValid :: "LogSequenceMetadata \<Rightarrow> bool" where
  "isValid m \<longleftrightarrow> LogStartSN \<le> entry_sn m \<or> segment_base_sn m \<noteq> None \<or> file_position m \<noteq> None"

definition LogSequenceMetadata_eq :: "LogSequenceMetadata \<Rightarrow> LogSequenceMetadata \<Rightarrow> bool" where
  "LogSequenceMetadata_eq m n \<longleftrightarrow> isValid m \<and> isValid n \<and> entry_sn m = entry_sn n
     \<and> file_position m = file_position n \<and> segment_base_sn m = segment_base_sn n"

definition toFetchHint :: "LogSequenceMetadata \<Rightarrow> FetchHint" where
  "toFetchHint m =
    (let h = emptyFetchHint\<lparr>fh_sn := entry_sn m\<rparr>;
         h = (case segment_base_sn m of None \<Rightarrow> h | Some b \<Rightarrow> h\<lparr>fh_segment_base_sn := b\<rparr>)
     in case file_position m of None \<Rightarrow> h | Some p \<Rightarrow> h\<lparr>fh_file_position := p\<rparr>)"

definition LogSequenceMetadata_serialize :: "LogSequenceMetadata \<Rightarrow> bytes" where
  "LogSequenceMetadata_serialize m =
     writeVarInt (entry_sn m)
     @ (case segment_base_sn m of Some b \<Rightarrow> 1 # writeVarInt b | None \<Rightarrow> [0])
     @ (case file_position m of Some p \<Rightarrow> 1 # writeVarUInt (of_nat p) | None \<Rightarrow> [0])"

text \<open>\<^verbatim>\<open>deserialize\<close> updates the object it is called on, and leaves a field alone that is not there.\<close>

definition LogSequenceMetadata_deserialize :: "LogSequenceMetadata \<Rightarrow> LogSequenceMetadata reader" where
  "LogSequenceMetadata_deserialize m =
     bindE readVarInt (\<lambda>sn.
     bindE readIntBinary8 (\<lambda>has_segment_base_sn.
     bindE (if has_segment_base_sn \<noteq> 0 then bindE readVarInt (\<lambda>b. retE (Some b)) else retE (segment_base_sn m)) (\<lambda>base.
     bindE readIntBinary8 (\<lambda>has_file_position.
     bindE (if has_file_position \<noteq> 0 then bindE readVarUInt (\<lambda>p. retE (Some (unat p))) else retE (file_position m)) (\<lambda>pos.
     retE \<lparr>entry_sn = sn, segment_base_sn = base, file_position = pos\<rparr>)))))"

section \<open>FetchResult\<close>

record FetchResult =
  log_start_sn :: int
  log_committed_sn :: int
  fetch_hint :: FetchHint
  fetched_log_sn_metadata :: LogSequenceMetadata
  fetch_entries :: "Entry list"

definition emptyFetchResult :: FetchResult where
  "emptyFetchResult = \<lparr>log_start_sn = 0, log_committed_sn = 0, fetch_hint = emptyFetchHint,
     fetched_log_sn_metadata = emptyLogSequenceMetadata, fetch_entries = []\<rparr>"

section \<open>Configuration\<close>

record LogConfig =
  max_entry_size :: nat
  segment_size :: nat
  segment_ms :: int
  flush_interval_entries :: nat
  flush_interval_ms :: int
  flush_bytes :: int
  retention_size :: nat
  retention_ms :: int
  file_delete_delay_ms :: nat
  index_interval_bytes :: nat
  index_interval_entries :: nat
  max_cached_entries_per_shard :: nat
  max_cached_bytes_per_shard :: nat
  min_size_to_keep :: nat
  hard_state_ckpt_log_size :: nat
  hard_state_ckpt_log_preallocate :: bool
  leader_epoch_index_log_size :: nat
  leader_epoch_index_log_preallocate :: bool
  timestamp_index_log_size :: nat
  timestamp_index_log_preallocate :: bool
  log_position_index_log_size :: nat
  log_position_index_log_preallocate :: bool
  preallocate :: bool
  inmemory :: bool
  incremental_flush :: bool

definition defaultLogConfig :: LogConfig where
  "defaultLogConfig = \<lparr>
     max_entry_size = 10 * 1024 * 1024, segment_size = 2 * 1024 * 1024 * 1024, segment_ms = 24 * 7 * 60 * 60 * 1000,
     flush_interval_entries = 1000, flush_interval_ms = 2 * 60 * 1000, flush_bytes = 8 * 1024 * 1024,
     retention_size = 1, retention_ms = 24 * 60 * 60 * 1000, file_delete_delay_ms = 300 * 1000,
     index_interval_bytes = 4096 * 1024, index_interval_entries = 1000, max_cached_entries_per_shard = 100,
     max_cached_bytes_per_shard = 4194304, min_size_to_keep = 2 * 1024 * 1024 * 1024 * 2,
     hard_state_ckpt_log_size = 1024 * 1024, hard_state_ckpt_log_preallocate = True,
     leader_epoch_index_log_size = 8 * 1024 * 1024, leader_epoch_index_log_preallocate = True,
     timestamp_index_log_size = 8 * 1024 * 1024, timestamp_index_log_preallocate = True,
     log_position_index_log_size = 8 * 1024 * 1024, log_position_index_log_preallocate = True,
     preallocate = True, inmemory = False, incremental_flush = False\<rparr>"

text \<open>
  \<^verbatim>\<open>validate\<close>. Each assignment tests and sets one field, so that those that do not read another
  field are one record update; the two cache limits and \<^verbatim>\<open>min_size_to_keep\<close> follow in the order of
  the source.
\<close>

definition or_default :: "nat \<Rightarrow> nat \<Rightarrow> nat" where
  "or_default d x = (if x = 0 then d else x)"

definition or_limit :: "nat \<Rightarrow> nat \<Rightarrow> nat" where
  "or_limit d x = (if x = 0 \<or> d < x then d else x)"

definition validate_sizes :: "LogConfig \<Rightarrow> LogConfig" where
  "validate_sizes c = c\<lparr>
     max_entry_size := or_default (max_entry_size defaultLogConfig) (max_entry_size c),
     segment_size := or_default (segment_size defaultLogConfig) (segment_size c),
     flush_interval_ms := (if flush_interval_ms c \<le> 0 then 0 else flush_interval_ms c),
     retention_ms := (if retention_ms c \<le> 0 then 0 else retention_ms c),
     segment_ms := (if segment_ms c = 0 then segment_ms defaultLogConfig else segment_ms c),
     file_delete_delay_ms := or_default (file_delete_delay_ms defaultLogConfig) (file_delete_delay_ms c),
     index_interval_bytes := or_default (index_interval_bytes defaultLogConfig) (index_interval_bytes c),
     index_interval_entries := or_default (index_interval_entries defaultLogConfig) (index_interval_entries c)\<rparr>"

definition validate_caches :: "LogConfig \<Rightarrow> LogConfig" where
  "validate_caches c =
    (let entries = (if max_cached_bytes_per_shard c \<noteq> 0 then max_cached_entries_per_shard defaultLogConfig
                    else max_cached_entries_per_shard c);
         keep = or_default (2 * segment_size c mod 2 ^ 64) (min_size_to_keep c);
         cached = (if entries \<noteq> 0 then max_cached_bytes_per_shard defaultLogConfig
                   else max_cached_bytes_per_shard c)
     in c\<lparr>max_cached_entries_per_shard := entries, min_size_to_keep := keep,
          max_cached_bytes_per_shard := cached\<rparr>)"

definition validate_index_logs :: "LogConfig \<Rightarrow> LogConfig" where
  "validate_index_logs c = c\<lparr>
     hard_state_ckpt_log_size := or_limit (1024 * 1024) (hard_state_ckpt_log_size c),
     leader_epoch_index_log_size := or_limit (8 * 1024 * 1024) (leader_epoch_index_log_size c),
     timestamp_index_log_size := or_limit (8 * 1024 * 1024) (timestamp_index_log_size c),
     log_position_index_log_size := or_limit (8 * 1024 * 1024) (log_position_index_log_size c)\<rparr>"

definition validate :: "LogConfig \<Rightarrow> LogConfig" where
  "validate c = validate_index_logs (validate_caches (validate_sizes c))"

lemmas validate_defs = validate_def validate_sizes_def validate_caches_def validate_index_logs_def Let_def

record FetchConfig =
  max_wait_ms :: int
  fc_max_bytes :: nat

definition FetchConfig_validate :: "FetchConfig \<Rightarrow> FetchConfig" where
  "FetchConfig_validate c =
    (let c = (if max_wait_ms c \<le> 0 then c\<lparr>max_wait_ms := 500\<rparr> else c)
     in if fc_max_bytes c = 0 then c\<lparr>fc_max_bytes := 8 * 1024 * 1024\<rparr> else c)"

section \<open>Properties\<close>

lemma unat_of_nat64: "p < 2 ^ 64 \<Longrightarrow> unat (of_nat p :: u64) = p"
  by (simp add: unat_of_nat take_bit_nat_eq_self)

text \<open>
  A fetch hint and a log sequence position survive their encoding, whichever of the
  optional fields they carry.
\<close>

lemma metadata_roundtrip:
  assumes "int64 (fh_sn h)" "int64 (fh_segment_base_sn h)" "fh_file_position h < 2 ^ 64"
    and "int64 (entry_sn m)" "\<forall>b. segment_base_sn m = Some b \<longrightarrow> int64 b" "\<forall>p. file_position m = Some p \<longrightarrow> p < 2 ^ 64"
  shows "FetchHint_deserialize (FetchHint_serialize h @ r) = (Ret h, r)
    \<and> LogSequenceMetadata_deserialize emptyLogSequenceMetadata (LogSequenceMetadata_serialize m @ r) = (Ret m, r)"
proof
  show "FetchHint_deserialize (FetchHint_serialize h @ r) = (Ret h, r)"
    using assms(1-3) by (simp add: FetchHint_deserialize_def FetchHint_serialize_def unat_of_nat64)
  show "LogSequenceMetadata_deserialize emptyLogSequenceMetadata (LogSequenceMetadata_serialize m @ r) = (Ret m, r)"
    using assms(4-6)
    by (cases m; cases "segment_base_sn m"; cases "file_position m")
      (simp_all add: LogSequenceMetadata_deserialize_def LogSequenceMetadata_serialize_def emptyLogSequenceMetadata_def unat_of_nat64)
qed

lemma metadata_roundtrip_witness:
  "FetchHint_deserialize (FetchHint_serialize emptyFetchHint @ [1]) = (Ret emptyFetchHint, [1])"
  using metadata_roundtrip [of emptyFetchHint "\<lparr>entry_sn = 5, segment_base_sn = Some 3, file_position = None\<rparr>" "[1]"]
  by (simp add: emptyFetchHint_def int64_def uint64_max_def)

text \<open>
  \<^verbatim>\<open>validate\<close> leaves usable sizes and intervals, whatever the configuration says.
\<close>

lemma validate_usable:
  "0 < max_entry_size (validate c) \<and> 0 < segment_size (validate c) \<and> 0 \<le> flush_interval_ms (validate c)
    \<and> 0 \<le> retention_ms (validate c) \<and> 0 < index_interval_bytes (validate c) \<and> 0 < index_interval_entries (validate c)
    \<and> 0 < log_position_index_log_size (validate c) \<and> log_position_index_log_size (validate c) \<le> 8 * 1024 * 1024
    \<and> 0 < timestamp_index_log_size (validate c) \<and> timestamp_index_log_size (validate c) \<le> 8 * 1024 * 1024"
  by (simp add: validate_defs or_default_def or_limit_def defaultLogConfig_def)

text \<open>
  \<^verbatim>\<open>validate\<close> cannot keep a cache limit: the tests of the two limits lack the \<^verbatim>\<open>== 0\<close> of the
  others, so a configured number of cached entries is replaced by the default as soon as a byte
  limit is set, as it is by default, and the other way round. Validating twice loses it always, so
  that \<^verbatim>\<open>validate\<close> is not idempotent.
\<close>

lemma validate_discards_cache_limits:
  "(max_cached_bytes_per_shard c \<noteq> 0 \<longrightarrow>
      max_cached_entries_per_shard (validate c) = 100 \<and> max_cached_bytes_per_shard (validate c) = 4194304)
    \<and> max_cached_entries_per_shard (validate (validate c)) \<in> {0, 100}"
  by (simp add: validate_defs defaultLogConfig_def)

lemma validate_discards_cache_limits_witness:
  "max_cached_entries_per_shard (validate (defaultLogConfig\<lparr>max_cached_entries_per_shard := 7\<rparr>)) = 100
    \<and> max_cached_entries_per_shard (validate (defaultLogConfig\<lparr>max_cached_entries_per_shard := 7, max_cached_bytes_per_shard := 0\<rparr>)) = 7"
  using validate_discards_cache_limits [of "defaultLogConfig\<lparr>max_cached_entries_per_shard := 7\<rparr>"]
  by (simp add: defaultLogConfig_def validate_defs)

end
