(* ===== verification/Nlog_File.thy ===== *)
theory Nlog_File
  imports Nlog_Prelude "HOL-Library.AList"
begin

text \<open>
  The file layer of the native log: \<^verbatim>\<open>AppendOnlyFile\<close> of
  \<^verbatim>\<open>src/src/Cluster/LocalLog/Base/AppendOnlyFile.cpp\<close> and the flush helpers of \<^verbatim>\<open>Utils.cpp\<close>,
  over a model of the POSIX calls they make.

  A file system is an association list from paths to contents (its order is the order in which a
  directory iterator meets the files), the directories, the modification times, the clock, and the script of the
  outcomes of the coming system calls. Each call takes the next outcome: \<open>Done n\<close> lets at most
  \<open>n\<close> bytes through (a short read or write), \<open>Fail e\<close> makes the call fail with errno \<open>e\<close>, and
  once the script is used up every call succeeds in full. Every statement is thus about all finite
  sequences of faults. An open descriptor is identified with the path of its file, which
  \<^verbatim>\<open>renameTo\<close> keeps in step.
\<close>

section \<open>System calls\<close>

datatype outcome = Done nat | Fail int

record filesys =
  files :: "(string \<times> bytes) list"
  dirs :: "string list"
  mtimes :: "string \<Rightarrow> int"
  clock :: int
  outcomes :: "outcome list"

definition EINTR :: int where "EINTR = 4"

definition EBADF :: int where "EBADF = 9"

definition ENOENT :: int where "ENOENT = 2"

definition EINVAL :: int where "EINVAL = 22"

definition content :: "filesys \<Rightarrow> string \<Rightarrow> bytes option" where
  "content s f = map_of (files s) f"

definition exists_file :: "filesys \<Rightarrow> string \<Rightarrow> bool" where
  "exists_file s f \<longleftrightarrow> content s f \<noteq> None"

definition exists_path :: "filesys \<Rightarrow> string \<Rightarrow> bool" where
  "exists_path s p \<longleftrightarrow> exists_file s p \<or> p \<in> set (dirs s)"

text \<open>\<^verbatim>\<open>fs::path::parent_path\<close> of a path with a directory part.\<close>

definition parent_path :: "string \<Rightarrow> string" where
  "parent_path p = rev (tl (dropWhile (\<lambda>c. c \<noteq> CHR ''/'') (rev p)))"

text \<open>The regular files a \<^verbatim>\<open>directory_iterator\<close> yields.\<close>

definition directory_files :: "filesys \<Rightarrow> string \<Rightarrow> string list" where
  "directory_files s d = filter (\<lambda>p. parent_path p = d \<and> CHR ''/'' \<in> set p) (map fst (files s))"

definition setContent :: "string \<Rightarrow> bytes \<Rightarrow> filesys \<Rightarrow> filesys" where
  "setContent f bs s = s\<lparr>files := AList.update f bs (files s), mtimes := (mtimes s)(f := clock s)\<rparr>"

definition nextOutcome :: "filesys \<Rightarrow> outcome option \<times> filesys" where
  "nextOutcome s = (case outcomes s of
      [] \<Rightarrow> (None, s)
    | c # cs \<Rightarrow> (Some c, s\<lparr>outcomes := cs\<rparr>))"

text \<open>How many of \<open>n\<close> bytes an outcome lets through; \<open>Inl e\<close> is a failure with errno \<open>e\<close>.\<close>

definition granted :: "nat \<Rightarrow> outcome option \<Rightarrow> int + nat" where
  "granted n c = (case c of None \<Rightarrow> Inr n | Some (Done m) \<Rightarrow> Inr (min m n) | Some (Fail e) \<Rightarrow> Inl e)"

text \<open>\<^verbatim>\<open>write\<close> to a descriptor opened with \<^verbatim>\<open>O_APPEND\<close>.\<close>

definition sys_write :: "string \<Rightarrow> bytes \<Rightarrow> filesys \<Rightarrow> (int + nat) \<times> filesys" where
  "sys_write f d s = (case nextOutcome s of (c, s') \<Rightarrow>
     case content s' f of
       None \<Rightarrow> (Inl EBADF, s')
     | Some bs \<Rightarrow> (case granted (length d) c of
           Inl e \<Rightarrow> (Inl e, s')
         | Inr n \<Rightarrow> (Inr n, setContent f (bs @ take n d) s')))"

text \<open>\<^verbatim>\<open>pread\<close> may return fewer bytes than asked for, but none only at the end of the file.\<close>

definition sys_pread :: "string \<Rightarrow> nat \<Rightarrow> nat \<Rightarrow> filesys \<Rightarrow> (int + bytes) \<times> filesys" where
  "sys_pread f n off s = (case nextOutcome s of (c, s') \<Rightarrow>
     case content s' f of
       None \<Rightarrow> (Inl EBADF, s')
     | Some bs \<Rightarrow> (case granted (min n (length bs - off)) c of
           Inl e \<Rightarrow> (Inl e, s')
         | Inr m \<Rightarrow> (Inr (take (min n (max 1 m)) (drop off bs)), s')))"

text \<open>The calls that transfer no data succeed or fail; the errno of success is 0.\<close>

definition sys_call :: "string \<Rightarrow> filesys \<Rightarrow> int \<times> filesys" where
  "sys_call f s = (case nextOutcome s of (c, s') \<Rightarrow>
     if \<not> exists_file s' f then (EBADF, s')
     else (case c of Some (Fail e) \<Rightarrow> (e, s') | _ \<Rightarrow> (0, s')))"

definition sys_fstat :: "string \<Rightarrow> filesys \<Rightarrow> (int + nat) \<times> filesys" where
  "sys_fstat f s = (case sys_call f s of (e, s') \<Rightarrow>
     if e = 0 then (Inr (length (the (content s' f))), s') else (Inl e, s'))"

definition zeros :: "nat \<Rightarrow> bytes" where
  "zeros n = replicate n 0"

definition sys_ftruncate :: "string \<Rightarrow> nat \<Rightarrow> filesys \<Rightarrow> int \<times> filesys" where
  "sys_ftruncate f n s = (case sys_call f s of (e, s') \<Rightarrow>
     if e = 0 then
       let bs = the (content s' f)
       in (0, setContent f (take n bs @ zeros (n - length bs)) s')
     else (e, s'))"

definition sys_rename :: "string \<Rightarrow> string \<Rightarrow> filesys \<Rightarrow> int \<times> filesys" where
  "sys_rename f g s = (case sys_call f s of (e, s') \<Rightarrow>
     if e = 0 then
       (0, s'\<lparr>files := AList.update g (the (content s' f)) (AList.delete f (files s')),
              mtimes := (mtimes s')(g := mtimes s' f)\<rparr>)
     else (if e = EBADF then ENOENT else e, s'))"

text \<open>\<^verbatim>\<open>fs::remove\<close>: removing a file that is not there is no error.\<close>

definition sys_remove :: "string \<Rightarrow> filesys \<Rightarrow> int \<times> filesys" where
  "sys_remove f s =
    (if exists_file s f then
       case sys_call f s of (e, s') \<Rightarrow>
         if e = 0 then (0, s'\<lparr>files := AList.delete f (files s')\<rparr>) else (e, s')
     else (0, s))"

text \<open>\<^verbatim>\<open>open\<close> with or without \<^verbatim>\<open>O_CREAT\<close>.\<close>

definition sys_open :: "string \<Rightarrow> bool \<Rightarrow> filesys \<Rightarrow> int \<times> filesys" where
  "sys_open f create s = (case nextOutcome s of (c, s') \<Rightarrow>
     case c of
       Some (Fail e) \<Rightarrow> (e, s')
     | _ \<Rightarrow> if exists_file s' f then (0, s')
            else if create then (0, setContent f [] s') else (ENOENT, s'))"

section \<open>AppendOnlyFile\<close>

text \<open>
  \<open>fd\<close> is the path of the file the descriptor refers to and the empty path, which no file has,
  for a descriptor that is closed.
\<close>

record AppendOnlyFile =
  filename :: string
  read_only :: bool
  fd :: string

definition errnoCode :: "int \<Rightarrow> ErrorCode" where
  "errnoCode e = (if e = 0 then OK else Errno e)"

definition O_CREAT_of_fileOpenFlags :: "bool \<Rightarrow> bool \<Rightarrow> bool" where
  "O_CREAT_of_fileOpenFlags file_already_exists ro \<longleftrightarrow> \<not> ro \<and> \<not> file_already_exists"

text \<open>
  The constructor. \<^verbatim>\<open>fallocate\<close> with \<^verbatim>\<open>FALLOC_FL_KEEP_SIZE\<close> changes neither contents nor size.
\<close>

definition openFile :: "string \<Rightarrow> bool \<Rightarrow> bool \<Rightarrow> (filesys, AppendOnlyFile) prog" where
  "openFile f file_already_exists ro s =
    (case sys_open f (O_CREAT_of_fileOpenFlags file_already_exists ro) s of (e, s') \<Rightarrow>
       if e = 0 then (Ret \<lparr>filename = f, read_only = ro, fd = f\<rparr>, s')
       else (Throw (if e = ENOENT then FILE_DOESNT_EXIST else CANNOT_OPEN_FILE), s'))"

definition AppendOnlyFile_open :: "string \<Rightarrow> (filesys, AppendOnlyFile) prog" where
  "AppendOnlyFile_open f s = openFile f (exists_file s f) False s"

definition size_file :: "AppendOnlyFile \<Rightarrow> filesys \<Rightarrow> nat CallResult \<times> filesys" where
  "size_file a s = (case sys_fstat (fd a) s of
      (Inl e, s') \<Rightarrow> (errR 0 (Errno e), s')
    | (Inr n, s') \<Rightarrow> (okR n, s'))"

definition lastModified_file :: "AppendOnlyFile \<Rightarrow> filesys \<Rightarrow> int CallResult \<times> filesys" where
  "lastModified_file a s = (case sys_fstat (fd a) s of
      (Inl e, s') \<Rightarrow> (errR 0 (Errno e), s')
    | (Inr n, s') \<Rightarrow> (okR (mtimes s' (fd a)), s'))"

text \<open>\<^verbatim>\<open>ftruncate\<close> on a descriptor that is not open for writing fails with \<^verbatim>\<open>EINVAL\<close>.\<close>

definition truncate_file :: "AppendOnlyFile \<Rightarrow> nat \<Rightarrow> filesys \<Rightarrow> int \<times> filesys" where
  "truncate_file a n s = (if read_only a then (EINVAL, s) else sys_ftruncate (fd a) n s)"

definition rollbackTornTail ::
  "AppendOnlyFile \<Rightarrow> nat \<Rightarrow> int \<Rightarrow> filesys \<Rightarrow> nat CallResult \<times> filesys" where
  "rollbackTornTail a partial_bytes e s =
    (if partial_bytes \<noteq> 0 then
       case size_file a s of (cur, s1) \<Rightarrow>
         if hasError cur then (errR partial_bytes (Errno e), s1)
         else (case truncate_file a (result cur - partial_bytes) s1 of (t, s2) \<Rightarrow>
                 if t \<noteq> 0 then (errR partial_bytes (Errno e), s2) else (errR 0 (Errno e), s2))
     else (errR 0 (Errno e), s))"

definition IOV_MAX :: nat where "IOV_MAX = 1024"

text \<open>\<^verbatim>\<open>writev\<close> refuses a vector of more than \<^verbatim>\<open>IOV_MAX\<close> buffers with \<^verbatim>\<open>EINVAL\<close>.\<close>

definition sys_writev :: "string \<Rightarrow> bytes list \<Rightarrow> filesys \<Rightarrow> (int + nat) \<times> filesys" where
  "sys_writev f iov s =
    (if IOV_MAX < length iov then (Inl EINVAL, s) else sys_write f (concat iov) s)"

text \<open>Each transfer uses up an outcome or, when none is left, does all of its work.\<close>

lemma nextOutcome_progress:
  assumes "nextOutcome s = (c, s')"
  shows "length (outcomes s') \<le> length (outcomes s)"
    and "c = Some x \<Longrightarrow> length (outcomes s') < length (outcomes s)"
  using assms by (auto simp: nextOutcome_def split: list.splits)

lemma granted_cases:
  assumes "granted n c = r"
  shows "r = Inl e \<Longrightarrow> c = Some (Fail e)"
    and "r = Inr m \<Longrightarrow> m \<le> n \<and> (m = n \<or> c \<noteq> None)"
  using assms by (auto simp: granted_def split: option.splits outcome.splits)

lemma sys_write_progress:
  assumes "sys_write f d s = (r, s')"
  shows "length (outcomes s') \<le> length (outcomes s)"
    and "r = Inl e \<Longrightarrow> e \<noteq> EBADF \<Longrightarrow> length (outcomes s') < length (outcomes s)"
    and "r = Inr n \<Longrightarrow> n \<le> length d \<and> (length (outcomes s') < length (outcomes s) \<or> n = length d)"
proof -
  obtain c t where n: "nextOutcome s = (c, t)" by fastforce
  note p = nextOutcome_progress [OF n] and g = granted_cases [OF refl, of "length d" c]
  show "length (outcomes s') \<le> length (outcomes s)"
    using assms n p(1) by (auto simp: sys_write_def setContent_def split: option.splits sum.splits)
  show "r = Inl e \<Longrightarrow> e \<noteq> EBADF \<Longrightarrow> length (outcomes s') < length (outcomes s)"
    using assms n p(2) g(1) by (auto simp: sys_write_def split: option.splits sum.splits)
  show "r = Inr n \<Longrightarrow> n \<le> length d \<and> (length (outcomes s') < length (outcomes s) \<or> n = length d)" for n
    using assms n p(2) g(2) [of n]
    by (auto simp: sys_write_def setContent_def split: option.splits sum.splits)
qed

text \<open>The single-buffer \<^verbatim>\<open>append\<close>: \<open>rest\<close> is what \<^verbatim>\<open>data + written_bytes\<close> points to.\<close>

function append_loop :: "AppendOnlyFile \<Rightarrow> bytes \<Rightarrow> nat \<Rightarrow> filesys \<Rightarrow> nat CallResult \<times> filesys" where
  "append_loop a rest written s =
    (if rest = [] then (okR written, s)
     else case sys_write (fd a) rest s of
         (Inr n, s') \<Rightarrow> append_loop a (drop n rest) (written + n) s'
       | (Inl e, s') \<Rightarrow>
           if e \<noteq> EINTR then rollbackTornTail a written e s' else append_loop a rest written s')"
  by pat_completeness auto

termination append_loop
proof (relation "measure (\<lambda>(_, rest, _, s). length (outcomes s) + length rest)", goal_cases)
  case (2 a rest w s r s' e)
  then show ?case
    using sys_write_progress [of "fd a" rest s r s'] by (force simp: EINTR_def EBADF_def)
next
  case (3 a rest w s r s' n)
  then show ?case
    using sys_write_progress(1,3) [of "fd a" rest s r s'] by (cases rest) fastforce+
qed simp

declare append_loop.simps [simp del]

definition append_file :: "AppendOnlyFile \<Rightarrow> bytes \<Rightarrow> filesys \<Rightarrow> nat CallResult \<times> filesys" where
  "append_file a data = append_loop a data 0"

text \<open>
  The vectored \<^verbatim>\<open>append\<close>. \<open>iov\<close> is the array of buffers the \<^verbatim>\<open>iovec\<close>s point to, of which
  \<^verbatim>\<open>handle_partial_write\<close> trims one; it gives the array and the index to go on from, and \<open>None\<close>
  where the source has \<^verbatim>\<open>UNREACHABLE()\<close>.
\<close>

fun handle_partial_write ::
  "bytes list \<Rightarrow> nat \<Rightarrow> nat \<Rightarrow> nat \<Rightarrow> bytes list \<Rightarrow> (bytes list \<times> nat) option" where
  "handle_partial_write [] index accumulated written iov = None"
| "handle_partial_write (d # ds) index accumulated written iov =
    (let accumulated' = accumulated + length d in
     if accumulated' = written then Some (iov, index + 1)
     else if written < accumulated' then
       let remaining = accumulated' - written
       in Some (iov[index := drop (length d - remaining) d], index)
     else handle_partial_write ds (index + 1) accumulated' written iov)"

partial_function (option) append_batch_loop ::
  "AppendOnlyFile \<Rightarrow> bytes list \<Rightarrow> nat \<Rightarrow> bytes list \<Rightarrow> nat \<Rightarrow> nat \<Rightarrow> filesys
    \<Rightarrow> (nat CallResult exec \<times> filesys) option" where
  "append_batch_loop a batch total_bytes iov start written s =
    (case sys_writev (fd a) (drop start iov) s of
       (Inr n, s') \<Rightarrow>
         if written + n = total_bytes then Some (Ret (okR (written + n)), s')
         else (case handle_partial_write batch 0 0 (written + n) iov of
                 None \<Rightarrow> Some (Undef, s')
               | Some (iov', start') \<Rightarrow> append_batch_loop a batch total_bytes iov' start' (written + n) s')
     | (Inl e, s') \<Rightarrow>
         if e \<noteq> EINTR then (case rollbackTornTail a written e s' of (r, s'') \<Rightarrow> Some (Ret r, s''))
         else (case handle_partial_write batch 0 0 written iov of
                 None \<Rightarrow> Some (Undef, s')
               | Some (iov', start') \<Rightarrow> append_batch_loop a batch total_bytes iov' start' written s'))"

definition append_batch :: "AppendOnlyFile \<Rightarrow> bytes list \<Rightarrow> nat \<Rightarrow> (filesys, nat CallResult) prog" where
  "append_batch a batch total_bytes s = (case append_batch_loop a batch total_bytes batch 0 0 s of
      None \<Rightarrow> (Diverge, s) | Some r \<Rightarrow> r)"

text \<open>Reading: \<open>got\<close> is what is in the destination so far.\<close>

lemma sys_pread_progress:
  assumes "sys_pread f n off s = (r, s')"
  shows "length (outcomes s') \<le> length (outcomes s)"
    and "r = Inl e \<Longrightarrow> e \<noteq> EBADF \<Longrightarrow> length (outcomes s') < length (outcomes s)"
    and "r = Inr bs \<Longrightarrow> length bs \<le> n"
proof -
  obtain c t where n: "nextOutcome s = (c, t)" by fastforce
  note p = nextOutcome_progress [OF n]
  show "length (outcomes s') \<le> length (outcomes s)"
    using assms n p(1) by (auto simp: sys_pread_def split: option.splits sum.splits)
  show "r = Inl e \<Longrightarrow> e \<noteq> EBADF \<Longrightarrow> length (outcomes s') < length (outcomes s)"
    using assms n p(2) granted_cases(1) [OF refl]
    by (fastforce simp: sys_pread_def split: option.splits sum.splits)
  show "r = Inr bs \<Longrightarrow> length bs \<le> n"
    using assms n by (auto simp: sys_pread_def split: option.splits sum.splits)
qed

function read_loop :: "AppendOnlyFile \<Rightarrow> nat \<Rightarrow> nat \<Rightarrow> bytes \<Rightarrow> filesys \<Rightarrow> bytes CallResult \<times> filesys" where
  "read_loop a bytes_to_read offset got s =
    (if bytes_to_read = 0 then (okR got, s)
     else case sys_pread (fd a) bytes_to_read (offset + length got) s of
         (Inr bs, s') \<Rightarrow>
           if bs \<noteq> [] then read_loop a (bytes_to_read - length bs) offset (got @ bs) s'
           else (okR got, s')
       | (Inl e, s') \<Rightarrow>
           if e \<noteq> EINTR then (errR [] (Errno e), s') else read_loop a bytes_to_read offset got s')"
  by pat_completeness auto

termination read_loop
proof (relation "measure (\<lambda>(_, n, _, _, s). length (outcomes s) + n)", goal_cases)
  case (2 a n off got s r s' e)
  then show ?case
    using sys_pread_progress [of "fd a" n "off + length got" s r s']
    by (force simp: EINTR_def EBADF_def)
next
  case (3 a n off got s r s' bs)
  then show ?case
    using sys_pread_progress [of "fd a" n "off + length got" s r s'] by (cases bs) force+
qed simp

declare read_loop.simps [simp del]

text \<open>The result carries the bytes read; the source's \<^verbatim>\<open>result\<close> is their number.\<close>

definition read_file :: "AppendOnlyFile \<Rightarrow> nat \<Rightarrow> nat \<Rightarrow> filesys \<Rightarrow> bytes CallResult \<times> filesys" where
  "read_file a bytes_to_read offset = read_loop a bytes_to_read offset []"

fun sendTo_loop ::
  "AppendOnlyFile \<Rightarrow> nat \<Rightarrow> nat \<Rightarrow> bytes \<Rightarrow> nat \<Rightarrow> bytes \<Rightarrow> filesys \<Rightarrow> nat CallResult \<times> bytes \<times> filesys" where
  "sendTo_loop a start_offset count buf remaining wb s =
    (if remaining \<noteq> 0 \<and> buf \<noteq> [] then
       let to_read = (if length buf < remaining then length buf else remaining) in
       case read_file a to_read (start_offset + count - remaining) s of (r, s') \<Rightarrow>
         if hasError r then (errR (count - remaining) (error_code r), wb, s')
         else let buf' = result r @ drop (length (result r)) buf
              in sendTo_loop a start_offset count (take (length buf) buf') (remaining - to_read)
                   (wb @ take to_read buf') s'
     else (okR count, wb, s))"

declare sendTo_loop.simps [simp del]

text \<open>\<^verbatim>\<open>sendTo\<close> copies through a buffer of 4096 bytes that starts as the character 0.\<close>

definition sendTo :: "AppendOnlyFile \<Rightarrow> nat \<Rightarrow> nat \<Rightarrow> filesys \<Rightarrow> nat CallResult \<times> bytes \<times> filesys" where
  "sendTo a start_offset count s =
     sendTo_loop a start_offset count (replicate 4096 0x30) count [] s"

definition sync_file :: "AppendOnlyFile \<Rightarrow> bool \<Rightarrow> filesys \<Rightarrow> int \<times> filesys" where
  "sync_file a include_metadata s = sys_call (fd a) s"

definition syncTail_file :: "AppendOnlyFile \<Rightarrow> nat \<Rightarrow> filesys \<Rightarrow> int \<times> filesys" where
  "syncTail_file a offset s = sys_call (fd a) s"

definition renameTo :: "AppendOnlyFile \<Rightarrow> string \<Rightarrow> filesys \<Rightarrow> int \<times> AppendOnlyFile \<times> filesys" where
  "renameTo a new_file s = (case sys_rename (filename a) new_file s of (e, s') \<Rightarrow>
     if e = 0 then
       (e, a\<lparr>filename := new_file, fd := (if fd a = filename a then new_file else fd a)\<rparr>, s')
     else (e, a, s'))"

definition remove_file :: "AppendOnlyFile \<Rightarrow> filesys \<Rightarrow> int \<times> filesys" where
  "remove_file a s = sys_remove (filename a) s"

definition close_file :: "AppendOnlyFile \<Rightarrow> filesys \<Rightarrow> int \<times> AppendOnlyFile \<times> filesys" where
  "close_file a s =
    (if fd a \<noteq> [] then
       case sys_call (fd a) s of (e, s') \<Rightarrow> (if e = 0 then 0 else - 1, a\<lparr>fd := []\<rparr>, s')
     else (0, a, s))"

definition updateParentDir_file :: "string \<Rightarrow> AppendOnlyFile \<Rightarrow> AppendOnlyFile" where
  "updateParentDir_file parent_dir a =
     a\<lparr>filename := parent_dir @ ''/'' @ rev (takeWhile (\<lambda>c. c \<noteq> CHR ''/'') (rev (filename a)))\<rparr>"

section \<open>Contents after each call\<close>

lemma content_setContent [simp]:
  "content (setContent f bs s) = (content s)(f \<mapsto> bs)"
  by (auto simp: content_def setContent_def update_conv)

lemma setContent_simps [simp]: "outcomes (setContent f bs s) = outcomes s"
  by (simp add: setContent_def)

lemma nextOutcome_content: "nextOutcome s = (c, s') \<Longrightarrow> content s' = content s"
  by (auto simp: nextOutcome_def content_def split: list.splits)

lemma nextOutcome_quiet [simp]: "outcomes s = [] \<Longrightarrow> nextOutcome s = (None, s)"
  by (simp add: nextOutcome_def)

lemma sys_call_content: "sys_call f s = (e, s') \<Longrightarrow> content s' = content s"
  using nextOutcome_content [of s]
  by (auto simp: sys_call_def split: prod.splits option.splits outcome.splits if_splits)

lemma sys_write_content:
  assumes "sys_write f d s = (r, s')" "content s f = Some bs"
  shows "content s' = (case r of Inl e \<Rightarrow> content s | Inr n \<Rightarrow> (content s)(f \<mapsto> bs @ take n d))"
    and "r = Inr n \<Longrightarrow> n \<le> length d"
proof -
  obtain c t where n: "nextOutcome s = (c, t)" by fastforce
  with assms nextOutcome_content [OF n]
  show "content s' = (case r of Inl e \<Rightarrow> content s | Inr n \<Rightarrow> (content s)(f \<mapsto> bs @ take n d))"
    by (auto simp: sys_write_def split: sum.splits)
  show "r = Inr n \<Longrightarrow> n \<le> length d"
    using assms n nextOutcome_content [OF n]
    by (auto simp: sys_write_def granted_def split: option.splits outcome.splits)
qed

lemma sys_fstat_content:
  assumes "sys_fstat f s = (r, s')"
  shows "content s' = content s" and "r = Inr n \<Longrightarrow> n = length (the (content s f))"
  using assms sys_call_content [of f s]
  by (auto simp: sys_fstat_def split: prod.splits if_splits)

lemma sys_ftruncate_content:
  assumes "sys_ftruncate f n s = (e, s')" "content s f = Some bs"
  shows "content s' =
    (if e = 0 then (content s)(f \<mapsto> take n bs @ zeros (n - length bs)) else content s)"
  using assms sys_call_content [of f s]
  by (auto simp: sys_ftruncate_def Let_def split: prod.splits if_splits)

text \<open>
  What an append that stops after an error leaves behind: the bytes it reports, no more, no less.
\<close>

lemma rollbackTornTail_content:
  assumes "rollbackTornTail a (length w) e s = (r, s')" "content s (fd a) = Some (bs @ w)"
  shows "hasError r" and "result r \<le> length w"
    and "content s' = (content s)(fd a \<mapsto> bs @ take (result r) w)"
proof -
  have "hasError r \<and> result r \<le> length w
      \<and> content s' = (content s)(fd a \<mapsto> bs @ take (result r) w)"
  proof (cases "w = []")
    case True
    then show ?thesis using assms by (auto simp: rollbackTornTail_def)
  next
    case False
    obtain q s1 where st: "sys_fstat (fd a) s = (q, s1)" by fastforce
    show ?thesis
    proof (cases q)
      case (Inl err)
      then show ?thesis
        using assms False st sys_fstat_content [OF st] by (auto simp: rollbackTornTail_def size_file_def)
    next
      case (Inr n)
      with sys_fstat_content [OF st] assms(2) have c1: "content s1 (fd a) = Some (bs @ w)"
        and n: "n = length bs + length w" by auto
      obtain t s2 where tr: "sys_ftruncate (fd a) (length bs) s1 = (t, s2)" by fastforce
      show ?thesis
        using assms False st Inr n tr sys_ftruncate_content [OF tr c1] sys_fstat_content [OF st]
        by (auto simp: rollbackTornTail_def size_file_def truncate_file_def zeros_def EINVAL_def
            split: if_splits)
    qed
  qed
  then show "hasError r" "result r \<le> length w"
    "content s' = (content s)(fd a \<mapsto> bs @ take (result r) w)" by blast+
qed

lemma append_loop_content:
  assumes "append_loop a rest (length w) s = (r, s')" "content s (fd a) = Some (bs @ w)"
  shows "content s' = (content s)(fd a \<mapsto> bs @ take (result r) (w @ rest))
    \<and> result r \<le> length (w @ rest) \<and> (\<not> hasError r \<longrightarrow> result r = length (w @ rest))"
  using assms
proof (induction a rest "length w" s arbitrary: w rule: append_loop.induct)
  case (1 a rest s)
  show ?case
  proof (cases "rest = []")
    case True
    then show ?thesis using 1(3,4) by (auto simp: append_loop.simps)
  next
    case False
    obtain q t where wr: "sys_write (fd a) rest s = (q, t)" by fastforce
    note wc = sys_write_content [OF wr 1(4)]
    show ?thesis
    proof (cases q)
      case (Inr n)
      from wc(2) [OF Inr] have nl: "length (w @ take n rest) = length w + n" by simp
      have c: "content t (fd a) = Some (bs @ (w @ take n rest))" using wc Inr by simp
      have st: "append_loop a (drop n rest) (length w + n) t = (r, s')"
        using 1(3) False wr Inr by (simp add: append_loop.simps [of a rest])
      have e: "(w @ take n rest) @ drop n rest = w @ rest" by simp
      show ?thesis
        using 1(2) [OF False wr [symmetric] Inr nl [symmetric] st [folded nl] c] wc(1) Inr
        unfolding e by simp
    next
      case (Inl e)
      then have c: "content t (fd a) = Some (bs @ w)" using wc 1(4) by simp
      show ?thesis
      proof (cases "e = EINTR")
        case True
        then have "append_loop a rest (length w) t = (r, s')"
          using 1(3) False wr Inl by (simp add: append_loop.simps [of a rest "length w" s])
        with 1(1) [OF False wr [symmetric] Inl _ refl] c True show ?thesis using wc Inl by simp
      next
        case nintr: False
        then have "rollbackTornTail a (length w) e t = (r, s')"
          using 1(3) False wr Inl by (simp add: append_loop.simps [of a rest "length w" s])
        from rollbackTornTail_content [OF this c] show ?thesis using wc Inl by auto
      qed
    qed
  qed
qed

lemma append_file_content:
  assumes "append_file a data s = (r, s')" "content s (fd a) = Some bs"
  shows "content s' = (content s)(fd a \<mapsto> bs @ take (result r) data)"
    and "result r \<le> length data" and "\<not> hasError r \<Longrightarrow> result r = length data"
  using append_loop_content [of a data "[]" s r s' bs] assms by (auto simp: append_file_def)

text \<open>
  The buffers of the vectored append: those that lie behind the bytes written are untouched, and
  \<^verbatim>\<open>handle_partial_write\<close> finds the rest of the batch.
\<close>

definition iovIntact :: "bytes list \<Rightarrow> nat \<Rightarrow> bytes list \<Rightarrow> bool" where
  "iovIntact batch w iov \<longleftrightarrow> length iov = length batch
     \<and> (\<forall>j < length batch. w \<le> length (concat (take j batch)) \<longrightarrow> iov ! j = batch ! j)"

lemma iovIntact_refl: "iovIntact batch w batch"
  by (simp add: iovIntact_def)

lemma iovIntact_mono: "iovIntact batch w iov \<Longrightarrow> w \<le> w' \<Longrightarrow> iovIntact batch w' iov"
  by (auto simp: iovIntact_def)

lemma length_concat_take_mono:
  "i \<le> j \<Longrightarrow> length (concat (take i xs)) \<le> length (concat (take j xs))"
proof (induction xs arbitrary: i j)
  case (Cons x xs)
  then show ?case by (cases i; cases j) auto
qed simp

lemma iovIntact_drop:
  assumes "iovIntact batch w iov" "w \<le> length (concat (take k batch))"
  shows "drop k iov = drop k batch"
proof (rule nth_equalityI)
  show "length (drop k iov) = length (drop k batch)" using assms by (simp add: iovIntact_def)
  fix i
  assume "i < length (drop k iov)"
  then show "drop k iov ! i = drop k batch ! i"
    using assms length_concat_take_mono [of k "k + i" batch] by (simp add: iovIntact_def)
qed

lemma handle_partial_write_rest:
  assumes "iovIntact (pre @ rest) w iov" "length (concat pre) \<le> w"
    and "w \<le> length (concat (pre @ rest))" and "rest \<noteq> []"
    and "pre = [] \<or> length (concat pre) < w"
  shows "\<exists>iov' start. handle_partial_write rest (length pre) (length (concat pre)) w iov = Some (iov', start)
     \<and> iovIntact (pre @ rest) w iov' \<and> concat (drop start iov') = drop w (concat (pre @ rest))"
  using assms
proof (induction rest arbitrary: pre)
  case (Cons d ds)
  let ?a = "length (concat pre) + length d"
  have split: "pre @ d # ds = (pre @ [d]) @ ds" by simp
  consider (eq) "?a = w" | (gt) "w < ?a" | (lt) "?a < w" by linarith
  then show ?case
  proof cases
    case eq
    have "drop (Suc (length pre)) iov = ds"
      using iovIntact_drop [OF Cons.prems(1), of "Suc (length pre)"] eq by simp
    then show ?thesis using eq Cons.prems(1) by (auto simp: Let_def)
  next
    case gt
    let ?d = "drop (w - length (concat pre)) d"
    have same: "drop (Suc (length pre)) iov = ds"
      using iovIntact_drop [OF Cons.prems(1), of "Suc (length pre)"] gt by simp
    have len: "length pre < length iov" using Cons.prems(1) by (simp add: iovIntact_def)
    have "drop (length pre) (iov[length pre := ?d]) = ?d # ds"
      using len same by (simp add: drop_update_swap Cons_nth_drop_Suc [symmetric])
    moreover have "iovIntact (pre @ d # ds) w (iov[length pre := ?d])"
      using Cons.prems(1,2,5) by (auto simp: iovIntact_def nth_list_update)
    moreover have "length d - (?a - w) = w - length (concat pre)" using gt Cons.prems(2) by linarith
    ultimately show ?thesis using gt Cons.prems(2) by (auto simp: Let_def)
  next
    case lt
    then have "ds \<noteq> []" using Cons.prems(3) by auto
    with Cons.IH [of "pre @ [d]"] Cons.prems lt show ?thesis by (auto simp: Let_def)
  qed
qed simp

lemma handle_partial_write_spec:
  assumes "iovIntact batch w iov" "w \<le> length (concat batch)" "batch \<noteq> []"
  obtains iov' start where "handle_partial_write batch 0 0 w iov = Some (iov', start)"
    and "iovIntact batch w iov'" and "concat (drop start iov') = drop w (concat batch)"
  using handle_partial_write_rest [of "[]" batch w iov] assms by auto

lemma sys_writev_progress:
  assumes "sys_writev f iov s = (r, s')"
  shows "r = Inl EINTR \<Longrightarrow> length (outcomes s') < length (outcomes s)"
    and "r = Inr n \<Longrightarrow> n \<le> length (concat iov)
           \<and> (length (outcomes s') < length (outcomes s) \<or> n = length (concat iov))"
    and "length (outcomes s') \<le> length (outcomes s)"
  using assms sys_write_progress [of f "concat iov" s r s']
  by (auto simp: sys_writev_def EINTR_def EINVAL_def EBADF_def split: if_splits)

lemma sys_writev_content:
  assumes "sys_writev f iov s = (r, s')" "content s f = Some bs"
  shows "content s' = (case r of Inl e \<Rightarrow> content s | Inr n \<Rightarrow> (content s)(f \<mapsto> bs @ take n (concat iov)))"
    and "r = Inr n \<Longrightarrow> n \<le> length (concat iov)"
  using assms sys_write_content [of f "concat iov" s r s' bs]
  by (auto simp: sys_writev_def split: if_splits)

lemma append_batch_loop_content:
  assumes "content s (fd a) = Some (bs @ take w (concat batch))"
    and "w \<le> length (concat batch)" "batch \<noteq> []" "iovIntact batch w iov"
    and "concat (drop start iov) = drop w (concat batch)" "total_bytes = length (concat batch)"
  shows "\<exists>r s'. append_batch_loop a batch total_bytes iov start w s = Some (Ret r, s')
    \<and> content s' = (content s)(fd a \<mapsto> bs @ take (result r) (concat batch))
    \<and> result r \<le> total_bytes \<and> (\<not> hasError r \<longrightarrow> result r = total_bytes)"
  using assms
proof (induction "length (outcomes s) + (total_bytes - w)" arbitrary: s w iov start rule: less_induct)
  case less
  let ?goal = "\<lambda>o1. \<exists>r s'. o1 = Some (Ret r, s')
    \<and> content s' = (content s)(fd a \<mapsto> bs @ take (result r) (concat batch))
    \<and> result r \<le> total_bytes \<and> (\<not> hasError r \<longrightarrow> result r = total_bytes)"
  obtain q t where wr: "sys_writev (fd a) (drop start iov) s = (q, t)" by fastforce
  note wc = sys_writev_content [OF wr less.prems(1), unfolded less.prems(5)]
  note wp = sys_writev_progress [OF wr, unfolded less.prems(5)]
  have again: "?goal (case handle_partial_write batch 0 0 w' iov of None \<Rightarrow> Some (Undef, t)
      | Some (iov', start') \<Rightarrow> append_batch_loop a batch total_bytes iov' start' w' t)"
    if w': "w \<le> w'" "w' \<le> total_bytes"
      and c: "content t = (content s)(fd a \<mapsto> bs @ take w' (concat batch))"
      and d: "length (outcomes t) + (total_bytes - w') < length (outcomes s) + (total_bytes - w)"
    for w'
  proof -
    obtain iov' start' where h: "handle_partial_write batch 0 0 w' iov = Some (iov', start')"
      "iovIntact batch w' iov'" "concat (drop start' iov') = drop w' (concat batch)"
      using handle_partial_write_spec [OF iovIntact_mono [OF less.prems(4) w'(1)]] w'(2) less.prems
      by metis
    from less.hyps [OF d _ _ less.prems(3) h(2,3) less.prems(6)] c w'(2) less.prems(6) h(1)
    show ?thesis by simp
  qed
  show ?case
  proof (cases q)
    case (Inr n)
    with wc(2) less.prems have le: "w + n \<le> total_bytes" by simp
    have c: "content t = (content s)(fd a \<mapsto> bs @ take (w + n) (concat batch))"
      using wc(1) Inr by (simp add: take_add)
    show ?thesis
    proof (cases "w + n = total_bytes")
      case True
      then show ?thesis using wr Inr c by (subst append_batch_loop.simps) simp
    next
      case False
      then have "drop w (concat batch) \<noteq> []" using le less.prems(6) by simp
      with wp(2) [OF Inr] False le less.prems
      have "length (outcomes t) + (total_bytes - (w + n)) < length (outcomes s) + (total_bytes - w)"
        using wp(3) by auto
      from again [OF _ le c this] show ?thesis
        using wr Inr False by (subst append_batch_loop.simps) simp
    qed
  next
    case (Inl e)
    then have c: "content t = content s" using wc(1) by simp
    have same: "(content s)(fd a \<mapsto> bs @ take w (concat batch)) = content s"
      using less.prems(1) by auto
    show ?thesis
    proof (cases "e = EINTR")
      case True
      with wp(1) Inl have "length (outcomes t) < length (outcomes s)" by simp
      with again [of w] c same less.prems show ?thesis
        using wr Inl True by (subst append_batch_loop.simps) simp
    next
      case False
      obtain r u where rb: "rollbackTornTail a w e t = (r, u)" by fastforce
      have lw: "length (take w (concat batch)) = w" using less.prems(2) by simp
      from rollbackTornTail_content [of a "take w (concat batch)" e t r u bs] rb lw c less.prems(1,2,6)
      have "hasError r" "result r \<le> w"
        "content u = (content s)(fd a \<mapsto> bs @ take (result r) (concat batch))"
        by (auto simp: min_absorb1)
      then show ?thesis
        using wr Inl False rb less.prems(2,6) by (subst append_batch_loop.simps) simp
    qed
  qed
qed

lemma append_batch_content:
  assumes "content s (fd a) = Some bs" "batch \<noteq> []"
  obtains r s' where "append_batch a batch (length (concat batch)) s = (Ret r, s')"
    and "content s' = (content s)(fd a \<mapsto> bs @ take (result r) (concat batch))"
    and "result r \<le> length (concat batch)"
    and "\<not> hasError r \<longrightarrow> result r = length (concat batch)"
  using append_batch_loop_content [of s a bs 0 batch batch 0] assms
  by (auto simp: append_batch_def iovIntact_refl)

text \<open>Without faults an append writes all of its data.\<close>

lemma append_file_quiet:
  assumes "outcomes s = []" "content s (fd a) = Some bs"
  shows "append_file a data s = (okR (length data), if data = [] then s else setContent (fd a) (bs @ data) s)"
proof (cases "data = []")
  case True
  then show ?thesis by (simp add: append_file_def append_loop.simps)
next
  case False
  then have "sys_write (fd a) data s = (Inr (length data), setContent (fd a) (bs @ data) s)"
    using assms by (simp add: sys_write_def granted_def)
  then show ?thesis using False by (simp add: append_file_def append_loop.simps)
qed

text \<open>
  A read that reports no error has all the bytes asked for that the file holds, however the
  system calls split it up.
\<close>

lemma sys_pread_content:
  assumes "sys_pread f n off s = (r, s')" "content s f = Some bs"
  shows "content s' = content s"
    and "r = Inr got \<Longrightarrow> got = take (length got) (drop off bs) \<and> length got \<le> n"
    and "r = Inr [] \<Longrightarrow> n = 0 \<or> length bs \<le> off"
proof -
  obtain c t where n: "nextOutcome s = (c, t)" by fastforce
  show "content s' = content s"
    using assms n nextOutcome_content [OF n] by (auto simp: sys_pread_def split: sum.splits)
  note [simp] = nextOutcome_content [OF n]
  have [simp]: "take (min (length bs - off) k) (drop off bs) = take k (drop off bs)" for k
    by (simp add: min_def)
  let ?g = "granted (min n (length bs - off)) c"
  show "r = Inr got \<Longrightarrow> got = take (length got) (drop off bs) \<and> length got \<le> n"
    using assms n by (cases ?g) (auto simp: sys_pread_def)
  show "r = Inr [] \<Longrightarrow> n = 0 \<or> length bs \<le> off"
    using assms n by (cases ?g) (auto simp: sys_pread_def)
qed

lemma read_loop_content:
  assumes "read_loop a n off got s = (r, s')" "content s (fd a) = Some bs"
  shows "content s' = content s \<and>
    result r = (if hasError r then [] else got @ take n (drop (off + length got) bs))"
  using assms
proof (induction a n off got s rule: read_loop.induct)
  case (1 a n off got s)
  show ?case
  proof (cases "n = 0")
    case True
    then show ?thesis using 1(3) by (auto simp: read_loop.simps)
  next
    case False
    obtain q t where rd: "sys_pread (fd a) n (off + length got) s = (q, t)" by fastforce
    note c = sys_pread_content [OF rd 1(4)]
    show ?thesis
    proof (cases q)
      case (Inl e)
      then show ?thesis
        using 1(1) [OF False rd [symmetric] Inl] 1(3,4) False rd c
        by (auto simp: read_loop.simps [of a n off got s] split: if_splits)
    next
      case (Inr b)
      show ?thesis
      proof (cases "b = []")
        case True
        then show ?thesis using 1(3) False rd Inr c by (auto simp: read_loop.simps [of a n off got s])
      next
        case ne: False
        have "read_loop a (n - length b) off (got @ b) t = (r, s')"
          using 1(3) False rd Inr ne by (simp add: read_loop.simps [of a n off got s])
        from 1(2) [OF False rd [symmetric] Inr ne this] c(1) 1(4)
        have "content s' = content s \<and> result r = (if hasError r then []
            else (got @ b) @ take (n - length b) (drop (length b) (drop (off + length got) bs)))"
          by (simp add: add.commute add.left_commute)
        moreover have "take n (drop (off + length got) bs)
            = b @ take (n - length b) (drop (length b) (drop (off + length got) bs))"
          using c(2) [OF Inr] take_add [of "length b" "n - length b" "drop (off + length got) bs"] by simp
        ultimately show ?thesis by simp
      qed
    qed
  qed
qed

lemma read_file_content:
  assumes "read_file a n off s = (r, s')" "content s (fd a) = Some bs"
  shows "content s' = content s" and "\<not> hasError r \<Longrightarrow> result r = take n (drop off bs)"
  using read_loop_content [of a n off "[]" s r s' bs] assms by (auto simp: read_file_def)

lemma read_file_quiet:
  assumes "outcomes s = []" "content s (fd a) = Some bs"
  shows "read_file a n off s = (okR (take n (drop off bs)), s)"
proof -
  have [simp]: "sys_pread (fd a) m o' s = (Inr (take m (drop o' bs)), s)" for m o'
    using assms by (cases "m \<le> length bs - o'") (auto simp: sys_pread_def granted_def min_def max_def)
  have m: "min n (length bs - off) = length (take n (drop off bs))" by simp
  show ?thesis
    by (cases "n \<le> length bs - off")
      (auto simp: read_file_def read_loop.simps [of a _ off] min_def)
qed

section \<open>Calls without faults\<close>

lemma sys_call_quiet [simp]: "outcomes s = [] \<Longrightarrow> content s f \<noteq> None \<Longrightarrow> sys_call f s = (0, s)"
  by (auto simp: sys_call_def exists_file_def)

lemma size_file_quiet: "outcomes s = [] \<Longrightarrow> content s (fd f) = Some bs \<Longrightarrow> size_file f s = (okR (length bs), s)"
  by (simp add: size_file_def sys_fstat_def sys_call_def exists_file_def)

lemma truncate_file_quiet:
  "outcomes s = [] \<Longrightarrow> content s (fd f) = Some bs \<Longrightarrow> \<not> read_only f \<Longrightarrow> n \<le> length bs \<Longrightarrow>
    truncate_file f n s = (0, setContent (fd f) (take n bs) s)"
  by (simp add: truncate_file_def sys_ftruncate_def sys_call_def exists_file_def zeros_def Let_def)

text \<open>Changing the contents of files leaves the directories and their listings as they are.\<close>

definition sameNames :: "filesys \<Rightarrow> filesys \<Rightarrow> bool" where
  "sameNames s s' \<longleftrightarrow> dirs s' = dirs s \<and> map fst (files s') = map fst (files s)"

lemma sameNames_refl [simp]: "sameNames s s"
  by (simp add: sameNames_def)

lemma sameNames_trans: "sameNames s s1 \<Longrightarrow> sameNames s1 s2 \<Longrightarrow> sameNames s s2"
  by (simp add: sameNames_def)

lemma sameNames_setContent: "content s f \<noteq> None \<Longrightarrow> sameNames s (setContent f bs s)"
  by (simp add: sameNames_def setContent_def content_def update_keys map_of_eq_None_iff)

lemma openFile_quiet:
  "outcomes s = [] \<Longrightarrow> content s p \<noteq> None \<Longrightarrow>
    openFile p True ro s = (Ret \<lparr>filename = p, read_only = ro, fd = p\<rparr>, s)"
  by (simp add: openFile_def sys_open_def exists_file_def)

lemma sys_rename_quiet:
  assumes "outcomes s = []" "content s f = Some bs" "f \<noteq> g"
  obtains s' where "sys_rename f g s = (0, s')" "outcomes s' = []"
    "content s' = (content s)(f := None, g \<mapsto> bs)" "dirs s' = dirs s"
proof -
  let ?s = "s\<lparr>files := AList.update g bs (AList.delete f (files s)), mtimes := (mtimes s)(g := mtimes s f)\<rparr>"
  have "content ?s = (content s)(f := None, g \<mapsto> bs)"
    by (simp add: content_def update_conv delete_conv' fun_eq_iff)
  moreover have "sys_rename f g s = (0, ?s)" using assms by (simp add: sys_rename_def)
  ultimately show thesis using assms(1) by (intro that [of ?s]) auto
qed

lemma sys_remove_quiet:
  assumes "outcomes s = []"
  obtains s' where "sys_remove f s = (0, s')" "outcomes s' = []" "content s' = (content s)(f := None)"
    "dirs s' = dirs s"
proof (cases "exists_file s f")
  case True
  let ?s = "s\<lparr>files := AList.delete f (files s)\<rparr>"
  have "content ?s = (content s)(f := None)" by (simp add: content_def delete_conv' fun_eq_iff)
  moreover have "sys_remove f s = (0, ?s)" using assms True by (simp add: sys_remove_def exists_file_def)
  ultimately show thesis using assms by (intro that [of ?s]) auto
next
  case False
  then show thesis using assms by (intro that [of s]) (auto simp: sys_remove_def exists_file_def fun_eq_iff)
qed

section \<open>Properties\<close>

text \<open>
  Property C23: whatever system calls fail, are interrupted or transfer only part of the data, the
  vectored \<^verbatim>\<open>AppendOnlyFile::append\<close> comes back with the file holding its old contents followed by
  exactly as many bytes of the batch as it reports, and by the whole batch when it reports no error.
  No other file changes.
\<close>

theorem append_batch_all_or_reported:
  assumes "content s (fd a) = Some bs" "batch \<noteq> []"
  shows "\<exists>r s'. append_batch a batch (length (concat batch)) s = (Ret r, s')
    \<and> content s' = (content s)(fd a \<mapsto> bs @ take (result r) (concat batch))
    \<and> result r \<le> length (concat batch)
    \<and> (\<not> hasError r \<longrightarrow> result r = length (concat batch))"
  using append_batch_content [OF assms] by metis

definition demoFile :: AppendOnlyFile where
  "demoFile = \<lparr>filename = ''a'', read_only = False, fd = ''a''\<rparr>"

definition demoDisk :: "bytes \<Rightarrow> outcome list \<Rightarrow> filesys" where
  "demoDisk bs cs = \<lparr>files = [(''a'', bs)], dirs = [], mtimes = (\<lambda>_. 0), clock = 0, outcomes = cs\<rparr>"

theorem append_batch_all_or_reported_witness:
  "\<exists>r s'. append_batch demoFile [[1, 2], [3, 4]] 4 (demoDisk [9] [Done 3, Fail 4, Fail 28]) = (Ret r, s')
    \<and> content s' ''a'' = Some ([9] @ take (result r) [1, 2, 3, 4])"
proof -
  have "content (demoDisk [9] [Done 3, Fail 4, Fail 28]) (fd demoFile) = Some [9]"
    by (simp add: content_def demoDisk_def demoFile_def)
  from append_batch_all_or_reported [OF this, of "[[1, 2], [3, 4]]"]
  obtain r s' where "append_batch demoFile [[1, 2], [3, 4]] 4 (demoDisk [9] [Done 3, Fail 4, Fail 28]) = (Ret r, s')"
    "content s' (fd demoFile) = Some ([9] @ take (result r) [1, 2, 3, 4])"
    by (auto simp: eval_nat_numeral)
  then show ?thesis by (auto simp: demoFile_def)
qed

text \<open>
  Property C24: the same holds of the single-buffer \<^verbatim>\<open>append\<close>.
\<close>

theorem append_all_or_reported:
  assumes "content s (fd a) = Some bs"
  shows "\<exists>r s'. append_file a data s = (r, s')
    \<and> content s' = (content s)(fd a \<mapsto> bs @ take (result r) data)
    \<and> result r \<le> length data \<and> (\<not> hasError r \<longrightarrow> result r = length data)"
proof -
  obtain r s' where r: "append_file a data s = (r, s')" by fastforce
  from append_file_content [OF r assms] show ?thesis using r by blast
qed

theorem append_all_or_reported_witness:
  "\<exists>r s'. append_file demoFile [1, 2, 3] (demoDisk [9] [Done 2, Fail 28, Fail 5]) = (r, s')
    \<and> content s' ''a'' = Some ([9] @ take (result r) [1, 2, 3])"
proof -
  have "content (demoDisk [9] [Done 2, Fail 28, Fail 5]) (fd demoFile) = Some [9]"
    by (simp add: content_def demoDisk_def demoFile_def)
  from append_all_or_reported [OF this, of "[1, 2, 3]"] show ?thesis by (auto simp: demoFile_def)
qed

text \<open>
  A batch of more than \<^verbatim>\<open>IOV_MAX\<close> buffers is refused as a whole, since all of them go to one
  \<^verbatim>\<open>writev\<close>; \<^verbatim>\<open>Log::append\<close> splits its batches for this reason.
\<close>

lemma append_batch_beyond_IOV_MAX:
  assumes "IOV_MAX < length batch"
  shows "append_batch a batch total_bytes s = (Ret (errR 0 (Errno EINVAL)), s)"
  using assms
  by (simp add: append_batch_def append_batch_loop.simps sys_writev_def rollbackTornTail_def EINVAL_def EINTR_def)

text \<open>
  Property C25: a \<^verbatim>\<open>read\<close> that reports no error returns all the bytes of the requested range that the
  file holds, however short the single reads were and however often they were interrupted, and
  changes nothing.
\<close>

theorem read_complete:
  assumes "content s (fd a) = Some bs" "read_file a n off s = (r, s')" "\<not> hasError r"
  shows "result r = take n (drop off bs) \<and> content s' = content s"
  using read_file_content [OF assms(2,1)] assms(3) by blast

theorem read_complete_witness:
  "result (fst (read_file demoFile 3 1 (demoDisk [5, 6, 7, 8] [Done 1, Fail 4]))) = [6, 7, 8]"
proof -
  let ?s = "demoDisk [5, 6, 7, 8] [Done 1, Fail 4]"
  obtain r s' where r: "read_file demoFile 3 1 ?s = (r, s')" by fastforce
  have c: "content ?s (fd demoFile) = Some [5, 6, 7, 8]" by (simp add: content_def demoDisk_def demoFile_def)
  have "\<not> hasError (fst (read_file demoFile 3 1 ?s))"
    by (simp add: read_file_def read_loop.simps sys_pread_def nextOutcome_def granted_def content_def
        demoDisk_def demoFile_def EINTR_def)
  then show ?thesis using read_complete [OF c r] r by simp
qed

end
