(* ===== verification/Nlog_FileLogEntries.thy ===== *)
theory Nlog_FileLogEntries
  imports Nlog_Metadata Nlog_File
begin

text \<open>
  \<^verbatim>\<open>FileLogEntries\<close> of \<^verbatim>\<open>src/src/Cluster/LocalLog/Common/FileLogEntries.{h,cpp}\<close>: the view of a
  segment file, whole or sliced, as a run of log entries. It holds the operations that append to
  and truncate the file, the walk over the metadata of the entries, the search for a sequence and
  the chunked reader \<^verbatim>\<open>deserialize\<close>, and proves that on a file of whole entries the walk meets each
  entry once and in order and the chunked reader gives what one parse of the whole range would.
\<close>

section \<open>Model\<close>

record FileLogEntries =
  fle_file :: AppendOnlyFile
  start_pos :: nat
  end_pos :: nat
  is_slice :: bool
  fle_eof :: bool
  fle_bytes :: nat

text \<open>Addition and subtraction of \<^verbatim>\<open>uint64_t\<close>, which wrap around.\<close>

definition add64 :: "nat \<Rightarrow> nat \<Rightarrow> nat" where
  "add64 a b = (a + b) mod 2 ^ 64"

lemma add64_less [simp]: "a + b < 2 ^ 64 \<Longrightarrow> add64 a b = a + b"
  by (simp add: add64_def)

definition sub64 :: "nat \<Rightarrow> nat \<Rightarrow> nat" where
  "sub64 a b = (if b \<le> a then a - b else (a + 2 ^ 64 - b) mod 2 ^ 64)"

lemma sub64_le [simp]: "b \<le> a \<Longrightarrow> sub64 a b = a - b"
  by (simp add: sub64_def)

definition newFileLogEntries :: "AppendOnlyFile \<Rightarrow> nat \<Rightarrow> nat \<Rightarrow> bool \<Rightarrow> (filesys, FileLogEntries) prog" where
  "newFileLogEntries a start_pos' end_pos' slice' s = (case size_file a s of (r, s') \<Rightarrow>
     if hasError r then (Throw CANNOT_FSTAT, s')
     else (Ret \<lparr>fle_file = a, start_pos = start_pos', end_pos = end_pos', is_slice = slice',
                fle_eof = False, fle_bytes = result r\<rparr>, s'))"

definition open_entries :: "string \<Rightarrow> bool \<Rightarrow> bool \<Rightarrow> (filesys, FileLogEntries) prog" where
  "open_entries f file_already_exists ro =
     bindE (openFile f file_already_exists ro) (\<lambda>a. newFileLogEntries a 0 uint64_max False)"

text \<open>
  \<^verbatim>\<open>append\<close> of a batch and of one entry. What the file reports as written is added to \<^verbatim>\<open>bytes\<close>, on
  errors too.
\<close>

definition append_entries ::
  "FileLogEntries \<Rightarrow> bytes list \<Rightarrow> nat \<Rightarrow> (filesys, nat CallResult \<times> FileLogEntries) prog" where
  "append_entries l batch_data total_bytes =
     bindE (append_batch (fle_file l) batch_data total_bytes) (\<lambda>written.
     retE (written, l\<lparr>fle_bytes := fle_bytes l + result written\<rparr>))"

definition append_entry ::
  "FileLogEntries \<Rightarrow> bytes \<Rightarrow> filesys \<Rightarrow> (nat CallResult \<times> FileLogEntries) \<times> filesys" where
  "append_entry l entry_data s = (case append_file (fle_file l) entry_data s of (written, s') \<Rightarrow>
     ((written, l\<lparr>fle_bytes := fle_bytes l + result written\<rparr>), s'))"

definition read_entries :: "FileLogEntries \<Rightarrow> nat \<Rightarrow> nat \<Rightarrow> filesys \<Rightarrow> bytes CallResult \<times> filesys" where
  "read_entries l bytes_to_read position = read_file (fle_file l) bytes_to_read (start_pos l + position)"

definition availableBytes :: "FileLogEntries \<Rightarrow> nat \<Rightarrow> nat \<Rightarrow> nat" where
  "availableBytes l position sz =
    (let current_size = fle_bytes l;
         e = add64 (start_pos l + position) sz;
         e' = (if start_pos l + current_size < e \<or> sz = 0 then start_pos l + current_size else e)
     in sub64 (sub64 e' (start_pos l)) position)"

definition slice :: "FileLogEntries \<Rightarrow> nat \<Rightarrow> nat \<Rightarrow> (filesys, FileLogEntries) prog" where
  "slice l position sz =
     newFileLogEntries (fle_file l) (start_pos l + position)
       (add64 (start_pos l + position) (availableBytes l position sz)) True"

definition trim_entries ::
  "FileLogEntries \<Rightarrow> nat \<Rightarrow> filesys \<Rightarrow> (nat CallResult \<times> FileLogEntries) \<times> filesys" where
  "trim_entries l len s = (case truncate_file (fle_file l) len s of (err, s') \<Rightarrow>
     if err \<noteq> 0 then ((errR 0 (Errno err), l), s')
     else ((okR (sub64 (fle_bytes l) len), l\<lparr>fle_bytes := len\<rparr>), s'))"

definition close_entries :: "FileLogEntries \<Rightarrow> filesys \<Rightarrow> (int \<times> FileLogEntries) \<times> filesys" where
  "close_entries l s =
    (if is_slice l then ((0, l), s)
     else case close_file (fle_file l) s of (e, a, s') \<Rightarrow> ((e, l\<lparr>fle_file := a\<rparr>), s'))"

definition setEndOfFile :: "FileLogEntries \<Rightarrow> FileLogEntries" where
  "setEndOfFile l = l\<lparr>fle_eof := True\<rparr>"

definition empty_entries :: "FileLogEntries \<Rightarrow> bool" where
  "empty_entries l \<longleftrightarrow> start_pos l = end_pos l"

text \<open>
  The walk of \<^verbatim>\<open>applyLogEntryMetadata\<close>. The callback updates the variables it captures, here a state
  \<open>c\<close> passed along, and says whether to stop; what it did stays when a later entry does not parse
  and the exception leaves the loop.
\<close>

function apply_loop ::
  "AppendOnlyFile \<Rightarrow> nat \<Rightarrow> ('c \<Rightarrow> Entry \<Rightarrow> nat \<Rightarrow> bool \<times> 'c) \<Rightarrow> nat \<Rightarrow> 'c \<Rightarrow> filesys
    \<Rightarrow> unit exec \<times> 'c \<times> filesys" where
  "apply_loop a e callback start_offset c s =
    (if start_offset < e then
       case read_file a approximateSerializedMetadataSize start_offset s of (n, s') \<Rightarrow>
         if \<not> hasError n \<and> result n \<noteq> [] then
           case fst (parseEntry True (result n)) of
             Ret entry_meta \<Rightarrow>
               (case callback c entry_meta start_offset of (stop, c') \<Rightarrow>
                  if stop then (Ret (), c', s')
                  else apply_loop a e callback (start_offset + serializedSize entry_meta) c' s')
           | Throw x \<Rightarrow> (Throw x, c, s')
           | Undef \<Rightarrow> (Undef, c, s')
           | Diverge \<Rightarrow> (Diverge, c, s')
         else (Ret (), c, s')
     else (Ret (), c, s))"
  by pat_completeness auto

termination apply_loop
  by (relation "measure (\<lambda>(_, e, _, off, _, _). e - off)")
    (auto simp: serializedSize_def prefixLengthSize_def)

declare apply_loop.simps [simp del]

definition applyLogEntryMetadata ::
  "FileLogEntries \<Rightarrow> ('c \<Rightarrow> Entry \<Rightarrow> nat \<Rightarrow> bool \<times> 'c) \<Rightarrow> nat option \<Rightarrow> 'c \<Rightarrow> filesys
    \<Rightarrow> unit exec \<times> 'c \<times> filesys" where
  "applyLogEntryMetadata l callback starting_position =
     apply_loop (fle_file l) (end_pos l) callback
       (case starting_position of None \<Rightarrow> start_pos l | Some p \<Rightarrow> p)"

record LogSequencePosition =
  lsp_sn :: int
  lsp_file_position :: nat
  lsp_entry_size :: nat

text \<open>The callback of the search keeps \<^verbatim>\<open>(target_size, target_position)\<close>.\<close>

definition search_callback :: "int \<Rightarrow> nat \<times> nat \<Rightarrow> Entry \<Rightarrow> nat \<Rightarrow> bool \<times> (nat \<times> nat)" where
  "search_callback target_sn c entry position =
    (if e_sn entry = target_sn then (True, (serializedSize entry, position)) else (False, c))"

definition searchForSequenceWithSize ::
  "FileLogEntries \<Rightarrow> int \<Rightarrow> nat \<Rightarrow> (filesys, LogSequencePosition option) prog" where
  "searchForSequenceWithSize l target_sn starting_position s =
    (case applyLogEntryMetadata l (search_callback target_sn) (Some starting_position) (0, 0) s of
       (Ret _, (target_sz, target_position), s') \<Rightarrow>
         (Ret (if 0 < target_sz then
                 Some \<lparr>lsp_sn = target_sn, lsp_file_position = target_position,
                       lsp_entry_size = target_sz\<rparr>
               else None), s')
     | (Throw x, _, s') \<Rightarrow> (Throw x, s')
     | (Undef, _, s') \<Rightarrow> (Undef, s')
     | (Diverge, _, s') \<Rightarrow> (Diverge, s'))"

text \<open>
  \<^verbatim>\<open>deserialize\<close>. The buffer is a list of bytes of fixed length that reads overwrite in part;
  \<open>read_more_data\<close> is the lambda of that name, and gives the buffer, \<^verbatim>\<open>next_consuming_pos\<close>,
  \<^verbatim>\<open>unconsumed\<close> and \<^verbatim>\<open>current_file_offset\<close> it leaves.
\<close>

record readState =
  read_buf :: bytes
  next_consuming_pos :: nat
  unconsumed :: nat
  current_file_offset :: nat

definition overwrite :: "bytes \<Rightarrow> nat \<Rightarrow> bytes \<Rightarrow> bytes" where
  "overwrite buf pos bs = take pos buf @ bs @ drop (pos + length bs) buf"

definition make_room :: "bool \<Rightarrow> readState \<Rightarrow> readState" where
  "make_room resize st =
    (if \<not> resize then
       if length (read_buf st) = next_consuming_pos st + unconsumed st then
         st\<lparr>read_buf := overwrite (read_buf st) 0 (drop (next_consuming_pos st) (read_buf st)),
            next_consuming_pos := 0\<rparr>
       else st
     else st\<lparr>read_buf := read_buf st @ replicate (length (read_buf st)) 0\<rparr>)"

definition read_more_data ::
  "AppendOnlyFile \<Rightarrow> nat \<Rightarrow> bool \<Rightarrow> readState \<Rightarrow> filesys \<Rightarrow> bool CallResult \<times> readState \<times> filesys" where
  "read_more_data a end_offset resize st s =
    (let st1 = make_room resize st;
       max_to_read = min ((sub64 end_offset (current_file_offset st1) + 1) mod 2 ^ 64)
         (sub64 (sub64 (length (read_buf st1)) (next_consuming_pos st1)) (unconsumed st1))
     in case read_file a max_to_read (current_file_offset st1) s of (r, s') \<Rightarrow>
       if hasError r \<or> result r = [] then (errR False (error_code r), st1, s')
       else (okR True,
             st1\<lparr>read_buf := overwrite (read_buf st1) (next_consuming_pos st1 + unconsumed st1) (result r),
                 unconsumed := unconsumed st1 + length (result r),
                 current_file_offset := current_file_offset st1 + length (result r)\<rparr>, s'))"

type_synonym parsedEntries = "(nat \<times> Entry list) CallResult"

partial_function (option) deserialize_loop ::
  "AppendOnlyFile \<Rightarrow> nat \<Rightarrow> int \<Rightarrow> nat \<Rightarrow> nat \<Rightarrow> Entry list \<Rightarrow> readState \<Rightarrow> filesys
    \<Rightarrow> (parsedEntries exec \<times> filesys) option" where
  "deserialize_loop a end_offset max_sn max_bytes_to_parse total_parsed entries st s =
    (if unconsumed st < next_consuming_pos st then Some (Undef, s)
     else case parseMany (take (unconsumed st - next_consuming_pos st) (drop (next_consuming_pos st) (read_buf st)))
            0 max_sn max_bytes_to_parse entries of
       Ret (parsed_bytes, entries') \<Rightarrow>
         if hasError parsed_bytes then Some (Ret (errR (total_parsed, []) (error_code parsed_bytes)), s)
         else
           let total' = total_parsed + result parsed_bytes in
           if max_bytes_to_parse \<le> result parsed_bytes then Some (Ret (okR (total', entries')), s)
           else if entries' \<noteq> [] \<and> max_sn \<le> e_sn (last entries') + 1 then
             Some (Ret (okR (total', entries')), s)
           else if end_offset \<le> current_file_offset st then Some (Ret (okR (total', entries')), s)
           else
             let ncp = next_consuming_pos st + result parsed_bytes;
                 st1 = st\<lparr>next_consuming_pos := ncp, unconsumed := sub64 (unconsumed st) ncp\<rparr> in
             case read_more_data a end_offset (length (read_buf st1) \<le> unconsumed st1) st1 s of
               (need, st2, s') \<Rightarrow>
                 if hasError need \<or> \<not> result need then
                   Some (Ret (errR (total', entries') (error_code need)), s')
                 else deserialize_loop a end_offset max_sn (max_bytes_to_parse - result parsed_bytes)
                        total' entries' st2 s'
     | Throw x \<Rightarrow> Some (Throw x, s)
     | Undef \<Rightarrow> Some (Undef, s)
     | Diverge \<Rightarrow> Some (Diverge, s))"

definition deserialize_entries ::
  "FileLogEntries \<Rightarrow> int \<Rightarrow> nat \<Rightarrow> nat \<Rightarrow> (filesys, parsedEntries) prog" where
  "deserialize_entries l max_sn max_size max_buffer_size s =
    (let to_read = sub64 (end_pos l) (start_pos l);
         max_to_read = min to_read max_buffer_size
     in case read_file (fle_file l) max_to_read (start_pos l) s of (bytes_read, s') \<Rightarrow>
       if hasError bytes_read \<or> result bytes_read = [] then
         (Ret (errR (0, []) (error_code bytes_read)), s')
       else
         let st = \<lparr>read_buf = overwrite (replicate max_to_read 0) 0 (result bytes_read),
                   next_consuming_pos = 0, unconsumed = length (result bytes_read),
                   current_file_offset = start_pos l + length (result bytes_read)\<rparr>
         in case deserialize_loop (fle_file l) (end_pos l) max_sn max_size 0 [] st s' of
              None \<Rightarrow> (Diverge, s') | Some r \<Rightarrow> r)"

definition defaultMaxBufferSize :: nat where
  "defaultMaxBufferSize = 16 * 1024 * 1024"

section \<open>Files without faults\<close>

text \<open>A whole-file view whose byte count is the size of the file.\<close>

definition entriesOf :: "FileLogEntries \<Rightarrow> bytes \<Rightarrow> filesys \<Rightarrow> bool" where
  "entriesOf l bs s \<longleftrightarrow> content s (fd (fle_file l)) = Some bs \<and> fle_bytes l = length bs \<and> start_pos l = 0
     \<and> length bs < 2 ^ 64 \<and> \<not> read_only (fle_file l) \<and> \<not> is_slice l"

lemma slice_quiet:
  assumes "outcomes s = []" "entriesOf l bs s" "p \<le> length bs" "p + n < 2 ^ 64"
  shows "slice l p n s = (Ret \<lparr>fle_file = fle_file l, start_pos = p,
     end_pos = (if length bs < p + n \<or> n = 0 then length bs else p + n), is_slice = True, fle_eof = False,
     fle_bytes = length bs\<rparr>, s)"
proof -
  have c: "content s (fd (fle_file l)) = Some bs" "fle_bytes l = length bs" "start_pos l = 0" "length bs < 2 ^ 64"
    using assms(2) by (simp_all add: entriesOf_def)
  have "availableBytes l p n = (if length bs < p + n \<or> n = 0 then length bs else p + n) - p"
    using assms(3,4) c by (simp add: availableBytes_def Let_def)
  then show ?thesis
    using assms(3,4) c size_file_quiet [OF assms(1) c(1)] by (simp add: slice_def newFileLogEntries_def)
qed

section \<open>The walk over the metadata\<close>

text \<open>
  What the walk comes to on whole entries: the callback on each of them in turn with the position
  it starts at. The result says whether it stopped, the callback's state and the position reached.
\<close>

fun walk :: "('c \<Rightarrow> Entry \<Rightarrow> nat \<Rightarrow> bool \<times> 'c) \<Rightarrow> 'c \<Rightarrow> nat \<Rightarrow> Entry list \<Rightarrow> bool \<times> 'c \<times> nat" where
  "walk callback c off [] = (False, c, off)"
| "walk callback c off (e # es) =
    (case callback c (storedMeta e) off of (stop, c') \<Rightarrow>
       if stop then (True, c', off) else walk callback c' (off + length (entryBytes e)) es)"

lemma drop_entries: "off = length pre \<Longrightarrow> take n (drop off (pre @ xs)) = take n xs"
  by simp

lemma apply_loop_step:
  assumes "outcomes s = []" "content s (fd a) = Some (pre @ entryBytes e @ tail)"
    and "wfEntry e" "metaFits e" "off = length pre" "off < en"
  shows "apply_loop a en cb off c s = (case cb c (storedMeta e) off of (stop, c') \<Rightarrow>
    if stop then (Ret (), c', s) else apply_loop a en cb (off + length (entryBytes e)) c' s)"
proof -
  let ?m = approximateSerializedMetadataSize
  let ?b = "take ?m (entryBytes e @ tail)"
  have r: "read_file a ?m off s = (okR ?b, s)"
    using read_file_quiet [OF assms(1,2), of ?m off] assms(5) by simp
  have p: "fst (parseEntry True ?b) = Ret (storedMeta e)"
    using parseEntry_meta_buffer [OF assms(3)] assms(4) by (simp add: metaFits_def)
  have ne: "?b \<noteq> []" by (simp add: approximateSerializedMetadataSize_def entryBytes_eq)
  show ?thesis
    using assms(3,6) p ne by (subst apply_loop.simps) (simp add: r split: prod.splits)
qed

lemma apply_loop_walk:
  assumes "outcomes s = []" "content s (fd a) = Some (pre @ logBytes es @ tail)"
    and "\<forall>e \<in> set es. wfEntry e \<and> metaFits e" "off = length pre" "off + length (logBytes es) \<le> en"
    and "walk cb c off es = (stop, c', off')"
  shows "apply_loop a en cb off c s = (if stop then (Ret (), c', s) else apply_loop a en cb off' c' s)"
  using assms
proof (induction es arbitrary: pre off c)
  case (Cons e es)
  obtain st c1 where cb: "cb c (storedMeta e) off = (st, c1)" by fastforce
  have "off < en" using Cons.prems(5) by simp
  with Cons.prems cb have step: "apply_loop a en cb off c s =
      (if st then (Ret (), c1, s) else apply_loop a en cb (off + length (entryBytes e)) c1 s)"
    by (subst apply_loop_step [of s a pre e "logBytes es @ tail"]) simp_all
  show ?case
  proof (cases st)
    case True
    then show ?thesis using step cb Cons.prems(6) by simp
  next
    case False
    then show ?thesis
      using step cb Cons.prems Cons.IH [of "pre @ entryBytes e" "off + length (entryBytes e)" c1] by simp
  qed
qed simp

lemma apply_loop_end: "en \<le> off \<Longrightarrow> apply_loop a en cb off c s = (Ret (), c, s)"
  by (simp add: apply_loop.simps)

section \<open>Searching for a sequence\<close>

lemma walk_search:
  assumes "e_sn e = sn" "\<forall>x \<in> set es. e_sn x \<noteq> sn" "wfEntry e"
  shows "walk (search_callback sn) c off (es @ e # fs)
    = (True, (length (entryBytes e), off + length (logBytes es)), off + length (logBytes es))"
  using assms
proof (induction es arbitrary: off)
  case (Cons x es)
  then show ?case by (simp add: search_callback_def del: length_entryBytes)
qed (simp add: search_callback_def del: length_entryBytes)

lemma walk_search_none:
  assumes "\<forall>x \<in> set es. e_sn x \<noteq> sn"
  shows "walk (search_callback sn) c off es = (False, c, off + length (logBytes es))"
  using assms
  by (induction es arbitrary: off) (simp_all add: search_callback_def del: length_entryBytes)

lemma search_found:
  assumes "outcomes s = []" "content s (fd (fle_file l)) = Some (pre @ logBytes (es @ e # fs) @ tail)"
    and "\<forall>x \<in> set (es @ e # fs). wfEntry x \<and> metaFits x" "length pre + length (logBytes (es @ e # fs)) \<le> end_pos l"
    and "\<forall>x \<in> set es. e_sn x \<noteq> e_sn e"
  shows "searchForSequenceWithSize l (e_sn e) (length pre) s =
    (Ret (Some \<lparr>lsp_sn = e_sn e, lsp_file_position = length pre + length (logBytes es),
                lsp_entry_size = length (entryBytes e)\<rparr>), s)"
proof -
  have "wfEntry e" using assms(3) by simp
  from apply_loop_walk [OF assms(1-3) refl assms(4) walk_search [OF refl assms(5) this]]
  have "apply_loop (fle_file l) (end_pos l) (search_callback (e_sn e)) (length pre) (0, 0) s
      = (Ret (), (length (entryBytes e), length pre + length (logBytes es)), s)" by simp
  then show ?thesis by (simp add: searchForSequenceWithSize_def applyLogEntryMetadata_def)
qed

lemma search_missing:
  assumes "outcomes s = []" "content s (fd (fle_file l)) = Some (pre @ logBytes es @ tail)"
    and "\<forall>x \<in> set es. wfEntry x \<and> metaFits x" "end_pos l = length pre + length (logBytes es)"
    and "\<forall>x \<in> set es. e_sn x \<noteq> sn"
  shows "searchForSequenceWithSize l sn (length pre) s = (Ret None, s)"
proof -
  have "length pre + length (logBytes es) \<le> end_pos l" using assms(4) by simp
  from apply_loop_walk [OF assms(1-3) refl this walk_search_none [OF assms(5)]]
  have "apply_loop (fle_file l) (end_pos l) (search_callback sn) (length pre) (0, 0) s = (Ret (), (0, 0), s)"
    using assms(4) by (simp add: apply_loop_end)
  then show ?thesis by (simp add: searchForSequenceWithSize_def applyLogEntryMetadata_def)
qed

section \<open>The chunked reader\<close>

lemma logBytes_split:
  assumes "\<forall>e \<in> set es. wfEntry e" "u \<le> length (logBytes es) + 4"
  shows "\<exists>ws rs x. es = ws @ rs \<and> take u (logBytes es @ tail) = logBytes ws @ x \<and> tornTail x
    \<and> (length (logBytes es) \<le> u \<longrightarrow> rs = [])"
  using assms
proof (induction es arbitrary: u)
  case Nil
  then have "tornTail (take u tail)" by (simp add: tornTail_def min_le_iff_disj)
  then show ?case by (intro exI [of _ "[]"] exI [of _ "[]"] exI [of _ "take u tail"]) simp
next
  case (Cons e es)
  let ?k = "length (entryBytes e)"
  show ?case
  proof (cases "u < ?k")
    case True
    then have "tornTail (take u (entryBytes e))" using Cons.prems by (auto simp: tornTail_def)
    then show ?thesis
      using True by (intro exI [of _ "[]"] exI [of _ "e # es"] exI [of _ "take u (entryBytes e)"]) simp
  next
    case False
    then have "u - ?k \<le> length (logBytes es) + 4" using Cons.prems(2) by simp
    then obtain ws rs x where w: "es = ws @ rs" "take (u - ?k) (logBytes es @ tail) = logBytes ws @ x"
      "tornTail x" "length (logBytes es) \<le> u - ?k \<longrightarrow> rs = []"
      using Cons.IH [of "u - ?k"] Cons.prems(1) by (auto simp del: length_entryBytes take_append logBytes_simps(3))
    have "take u (logBytes (e # es) @ tail) = entryBytes e @ take (u - ?k) (logBytes es @ tail)"
      using False by simp
    with w have "take u (logBytes (e # es) @ tail) = logBytes (e # ws) @ x" by simp
    moreover have "length (logBytes (e # es)) \<le> u \<longrightarrow> rs = []" using w(4) by auto
    ultimately show ?thesis using w(1,3)
      by (intro exI [of _ "e # ws"] exI [of _ rs] exI [of _ x]) simp
  qed
qed

text \<open>
  The buffer between two rounds: it starts with the bytes of the file from the first entry not yet
  parsed on, and it is full unless the end of the range is reached.
\<close>

definition bufferOf :: "bytes \<Rightarrow> nat \<Rightarrow> nat \<Rightarrow> readState \<Rightarrow> bool" where
  "bufferOf data pos end_offset st \<longleftrightarrow>
     next_consuming_pos st = 0 \<and> unconsumed st \<le> length (read_buf st) \<and> read_buf st \<noteq> []
     \<and> take (unconsumed st) (read_buf st) = take (unconsumed st) (drop pos data)
     \<and> current_file_offset st = pos + unconsumed st \<and> current_file_offset st \<le> length data
     \<and> current_file_offset st \<le> end_offset + 1
     \<and> (end_offset \<le> current_file_offset st \<or> unconsumed st = length (read_buf st))"

lemma take_drop_extend:
  assumes "take u xs = take u (drop p ys)" "k \<le> u" "p + u \<le> length ys" "u \<le> length xs"
  shows "drop k (take u xs) @ take n (drop (p + u) ys) = take (u - k + n) (drop (p + k) ys)"
proof -
  have "drop k (take u xs) = take (u - k) (drop (p + k) ys)"
    using assms(1,2) by (simp add: drop_take add.commute)
  moreover have "drop (p + u) ys = drop (u - k) (drop (p + k) ys)" using assms(2) by (simp add: add.commute)
  moreover have "length (drop (p + k) ys) \<ge> u - k" using assms(2,3) by simp
  ultimately show ?thesis by (simp add: take_add)
qed

lemma take_overwrite: "m \<le> length b \<Longrightarrow> take (m + length d) (overwrite b m d) = take m b @ d"
  by (simp add: overwrite_def)

text \<open>Room is made in a full buffer of which \<open>k\<close> bytes are consumed.\<close>

definition roomier :: "nat \<Rightarrow> bytes \<Rightarrow> bytes" where
  "roomier k buf = (if k = 0 then buf @ replicate (length buf) 0 else drop k buf @ drop (length buf - k) buf)"

lemma roomier:
  assumes "k \<le> length buf" "buf \<noteq> []"
  shows "length buf - k < length (roomier k buf)" "take (length buf - k) (roomier k buf) = drop k buf"
  using assms by (auto simp: roomier_def)

lemma make_room_full:
  assumes "next_consuming_pos st = 0" "unconsumed st = length (read_buf st)" "k \<le> unconsumed st" "read_buf st \<noteq> []"
    and "st1 = st\<lparr>next_consuming_pos := k, unconsumed := unconsumed st - k\<rparr>"
  shows "make_room (length (read_buf st1) \<le> unconsumed st1) st1
    = st\<lparr>read_buf := roomier k (read_buf st), next_consuming_pos := 0, unconsumed := unconsumed st - k\<rparr>"
proof (cases "k = 0")
  case True
  then show ?thesis using assms by (simp add: make_room_def roomier_def)
next
  case False
  then have "\<not> length (read_buf st) \<le> unconsumed st - k" using assms(2,3,4) by simp
  with False show ?thesis
    using assms by (simp add: make_room_def roomier_def overwrite_def)
qed

lemma read_more_data_full:
  assumes "next_consuming_pos st = 0" "unconsumed st = length (read_buf st)" "k \<le> unconsumed st" "read_buf st \<noteq> []"
    and "st1 = st\<lparr>next_consuming_pos := k, unconsumed := unconsumed st - k\<rparr>"
    and "0 < current_file_offset st" "current_file_offset st < end_offset" "end_offset < 2 ^ 64"
    and "n = min (end_offset - current_file_offset st + 1) (length (roomier k (read_buf st)) - (unconsumed st - k))"
    and "st' = st\<lparr>read_buf := roomier k (read_buf st), next_consuming_pos := 0, unconsumed := unconsumed st - k\<rparr>"
    and "read_file a n (current_file_offset st) s = (g, s1)"
  shows "read_more_data a end_offset (length (read_buf st1) \<le> unconsumed st1) st1 s =
      (if hasError g \<or> result g = [] then (errR False (error_code g), st', s1)
       else (okR True, st'\<lparr>read_buf := overwrite (roomier k (read_buf st)) (unconsumed st - k) (result g),
               unconsumed := unconsumed st - k + length (result g),
               current_file_offset := current_file_offset st + length (result g)\<rparr>, s1))"
proof -
  have "(sub64 end_offset (current_file_offset st) + 1) mod 2 ^ 64 = end_offset - current_file_offset st + 1"
    using assms(6-8) by (simp add: mod_less)
  moreover have "unconsumed st - k \<le> length (roomier k (read_buf st))"
    using roomier(1) [of k "read_buf st"] assms(2-4) by simp
  ultimately show ?thesis
    unfolding read_more_data_def make_room_full [OF assms(1-5)] Let_def
    using assms(9-11) by simp
qed

lemma read_more_data_spec:
  assumes "bufferOf data pos end_offset st" "current_file_offset st < end_offset" "end_offset < 2 ^ 64"
    and "content s (fd a) = Some data" "end_offset \<le> length data" "k \<le> unconsumed st"
    and "st1 = st\<lparr>next_consuming_pos := k, unconsumed := unconsumed st - k\<rparr>"
    and "read_more_data a end_offset (length (read_buf st1) \<le> unconsumed st1) st1 s = (r, st2, s')"
  shows "content s' = content s \<and> (outcomes s = [] \<longrightarrow> \<not> hasError r \<and> s' = s)
    \<and> (\<not> hasError r \<longrightarrow> result r \<and> bufferOf data (pos + k) end_offset st2
         \<and> current_file_offset st < current_file_offset st2)"
proof -
  let ?B = "read_buf st" and ?u = "unconsumed st" and ?c = "current_file_offset st"
  note inv = assms(1) [unfolded bufferOf_def]
  have full: "?u = length ?B" and ne0: "?B \<noteq> []" and c0: "0 < ?c" using inv assms(2) by auto
  define B' where "B' = roomier k ?B"
  have B': "?u - k < length B'" "take (?u - k) B' = drop k ?B"
    using roomier [of k ?B] full assms(6) ne0 by (simp_all add: B'_def)
  define st' where "st' = st\<lparr>read_buf := B', next_consuming_pos := 0, unconsumed := ?u - k\<rparr>"
  define n where "n = min (end_offset - ?c + 1) (length B' - (?u - k))"
  have n: "0 < n" "n \<le> end_offset - ?c + 1" "n \<le> length B' - (?u - k)"
    "n = end_offset - ?c + 1 \<or> n = length B' - (?u - k)" using B'(1) by (auto simp: n_def min_def)
  obtain g s1 where g: "read_file a n ?c s = (g, s1)" by fastforce
  have run: "read_more_data a end_offset (length (read_buf st1) \<le> unconsumed st1) st1 s =
      (if hasError g \<or> result g = [] then (errR False (error_code g), st', s1)
       else (okR True, st'\<lparr>read_buf := overwrite B' (?u - k) (result g), unconsumed := ?u - k + length (result g),
                            current_file_offset := ?c + length (result g)\<rparr>, s1))"
    unfolding B'_def
    by (rule read_more_data_full [OF _ full assms(6) ne0 assms(7) c0 assms(2,3) _ _ g])
      (use inv in \<open>simp_all add: n_def B'_def st'_def\<close>)
  note rc = read_file_content [OF g assms(4)]
  have ne: "take n (drop ?c data) \<noteq> []" using n(1) assms(2,5) by simp
  have quiet: "outcomes s = [] \<longrightarrow> \<not> hasError g \<and> s1 = s"
    using read_file_quiet [OF _ assms(4), of n ?c] g by auto
  show ?thesis
  proof (cases "hasError g")
    case True
    then have "r = errR False (error_code g)" "s' = s1" using run assms(8) by simp_all
    then show ?thesis using rc(1) quiet True by (simp add: hasError_def)
  next
    case False
    define d where "d = take n (drop ?c data)"
    have d: "result g = d" "d \<noteq> []" using rc(2) [OF False] ne by (simp_all add: d_def)
    have st2: "r = okR True" "s' = s1" "st2 = st'\<lparr>read_buf := overwrite B' (?u - k) d,
        unconsumed := ?u - k + length d, current_file_offset := ?c + length d\<rparr>"
      using run assms(8) False d by simp_all
    have ld: "length d = min n (length data - ?c)" by (simp add: d_def)
    have "take (?u - k + length d) (overwrite B' (?u - k) d) = drop k (take ?u ?B) @ d"
      unfolding take_overwrite [OF less_imp_le [OF B'(1)]] using B'(2) full by simp
    also have "\<dots> = take (?u - k + n) (drop (pos + k) data)"
      using take_drop_extend [of ?u ?B pos data k n] inv assms(6) full by (simp add: d_def)
    also have "\<dots> = take (?u - k + length d) (drop (pos + k) data)"
      using inv assms(6) by (cases "n \<le> length data - ?c") (simp_all add: ld)
    finally have t: "take (?u - k + length d) (overwrite B' (?u - k) d)
        = take (?u - k + length d) (drop (pos + k) data)" .
    have l: "length (overwrite B' (?u - k) d) = length B'"
      using B'(1) n(3) ld by (simp add: overwrite_def)
    have "?c + length d \<le> length data" "?c + length d \<le> end_offset + 1" "?u - k + length d \<le> length B'"
      "end_offset \<le> ?c + length d \<or> ?u - k + length d = length B'"
      using ld n assms(2,5) B'(1) by linarith+
    moreover have "?c = pos + ?u" "B' \<noteq> []" using inv B'(1) by auto
    ultimately have "bufferOf data (pos + k) end_offset st2"
      unfolding bufferOf_def st2 using t l assms(6) by (auto simp: st'_def)
    then show ?thesis using st2 rc(1) d(2) quiet by simp
  qed
qed

text \<open>
  One round: parse what the buffer holds. \<open>rest\<close> are the entries of the range not parsed yet,
  \<open>mb\<close> what is left of the size limit.
\<close>

lemma bufferOf_parse:
  assumes "bufferOf data pos end_offset st" "drop pos data = logBytes rest @ tail"
    and "end_offset = pos + length (logBytes rest)" "\<forall>e \<in> set rest. wfEntry e"
  obtains ws rs where "rest = ws @ rs" "length (logBytes ws) \<le> unconsumed st"
    and "\<And>ms mb acc. parseMany (take (unconsumed st - next_consuming_pos st) (drop (next_consuming_pos st) (read_buf st))) 0 ms mb acc =
      Ret (okR (length (logBytes (takeEntries ms mb 0 ws))), acc @ map storedEntry (takeEntries ms mb 0 ws))"
    and "end_offset \<le> current_file_offset st \<longrightarrow> rs = []"
proof -
  let ?u = "unconsumed st"
  note inv = assms(1) [unfolded bufferOf_def]
  have "?u \<le> length (logBytes rest) + 4" using inv assms(3) by simp
  then obtain ws rs x where w: "rest = ws @ rs" "take ?u (logBytes rest @ tail) = logBytes ws @ x"
    "tornTail x" "length (logBytes rest) \<le> ?u \<longrightarrow> rs = []"
    using logBytes_split [OF assms(4), of ?u tail] by blast
  have "length (logBytes ws) \<le> length (take ?u (logBytes rest @ tail))" unfolding w(2) by simp
  then have "length (logBytes ws) \<le> ?u" by simp
  moreover have "\<forall>e \<in> set ws. wfEntry e" using assms(4) w(1) by simp
  moreover have "take (?u - next_consuming_pos st) (drop (next_consuming_pos st) (read_buf st)) = logBytes ws @ x"
    using inv assms(2) w(2) by simp
  ultimately show ?thesis
    using that [OF w(1)] parseMany_tornTail [OF _ w(3)] w(4) inv assms(3) by simp
qed

text \<open>What \<^verbatim>\<open>deserialize\<close> owes its caller for the entries \<open>rest\<close> on top of \<open>acc\<close>.\<close>

definition deserialized :: "filesys \<Rightarrow> int \<Rightarrow> nat \<Rightarrow> nat \<Rightarrow> Entry list \<Rightarrow> Entry list \<Rightarrow> parsedEntries \<Rightarrow> filesys \<Rightarrow> bool" where
  "deserialized s ms mb n acc rest r s' \<longleftrightarrow> content s' = content s \<and> (outcomes s = [] \<longrightarrow> \<not> hasError r \<and> s' = s)
    \<and> (\<exists>k. let tk = (if hasError r then take k else id) (takeEntries ms mb 0 rest)
           in result r = (n + length (logBytes tk), acc @ map storedEntry tk))"

lemma deserialized_ok:
  "deserialized s ms mb n acc rest
     (okR (n + length (logBytes (takeEntries ms mb 0 rest)), acc @ map storedEntry (takeEntries ms mb 0 rest))) s"
  by (simp add: deserialized_def)

lemma deserialized_more:
  assumes "deserialized s1 ms (mb - length (logBytes ws)) (n + length (logBytes ws)) (acc @ map storedEntry ws) rs r s'"
    and "takeEntries ms mb 0 (ws @ rs) = ws @ takeEntries ms (mb - length (logBytes ws)) 0 rs"
    and "content s1 = content s" "outcomes s = [] \<longrightarrow> s1 = s"
  shows "deserialized s ms mb n acc (ws @ rs) r s'"
proof -
  let ?tk = "takeEntries ms (mb - length (logBytes ws)) 0 rs"
  obtain k where k: "let tk = (if hasError r then take k else id) ?tk
      in result r = (n + length (logBytes ws) + length (logBytes tk), (acc @ map storedEntry ws) @ map storedEntry tk)"
    using assms(1) by (auto simp: deserialized_def)
  have "let tk = (if hasError r then take (length ws + k) else id) (ws @ ?tk)
      in result r = (n + length (logBytes tk), acc @ map storedEntry tk)"
    using k by (cases "hasError r") (simp_all add: Let_def)
  then show ?thesis
    using assms(1,3,4) unfolding deserialized_def assms(2) by metis
qed

text \<open>The sequence after the last entry, and when a round is the last one.\<close>

lemma last_taken:
  assumes "contiguous sn ws" "acc = [] \<or> e_sn (last acc) + 1 = sn" "acc @ map storedEntry (takeEntries ms mb 0 ws) \<noteq> []"
  shows "e_sn (last (acc @ map storedEntry (takeEntries ms mb 0 ws))) + 1 = sn + int (length (takeEntries ms mb 0 ws))"
proof (cases "takeEntries ms mb 0 ws = []")
  case True
  then show ?thesis using assms(2,3) by simp
next
  case False
  obtain j where "takeEntries ms mb 0 ws = take j ws" using takeEntries_prefix by blast
  then have "contiguous sn (takeEntries ms mb 0 ws)" using contiguous_take_drop(1) [OF assms(1)] by simp
  then show ?thesis using contiguous_last False by (simp add: last_map)
qed

lemma takeEntries_last_round:
  assumes "contiguous sn (ws @ rs)" "sn < ms" "0 < mb"
    and "mb \<le> length (logBytes (takeEntries ms mb 0 ws)) \<or> ms \<le> sn + int (length (takeEntries ms mb 0 ws)) \<or> rs = []"
  shows "takeEntries ms mb 0 (ws @ rs) = takeEntries ms mb 0 ws"
proof (cases "mb \<le> length (logBytes (takeEntries ms mb 0 ws))")
  case True
  then show ?thesis using takeEntries_full [of 0 mb ms ws rs] assms(3) by simp
next
  case False
  then show ?thesis using takeEntries_room(1) [of sn ws 0 mb ms rs] assms by auto
qed

lemma deserialize_loop_round:
  assumes "next_consuming_pos st = 0" "length (logBytes ws) \<le> unconsumed st"
    and parse: "\<And>ms mb acc. parseMany (take (unconsumed st - next_consuming_pos st) (drop (next_consuming_pos st) (read_buf st))) 0 ms mb acc =
      Ret (okR (length (logBytes (takeEntries ms mb 0 ws))), acc @ map storedEntry (takeEntries ms mb 0 ws))"
    and "tk = takeEntries ms mb 0 ws" "k = length (logBytes tk)" "acc' = acc @ map storedEntry tk"
  shows "mb \<le> k \<or> acc' \<noteq> [] \<and> ms \<le> e_sn (last acc') + 1 \<or> end_offset \<le> current_file_offset st \<Longrightarrow>
      deserialize_loop a end_offset ms mb n acc st s = Some (Ret (okR (n + k, acc')), s)"
    and "tk = ws \<Longrightarrow> \<not> (mb \<le> k \<or> acc' \<noteq> [] \<and> ms \<le> e_sn (last acc') + 1 \<or> end_offset \<le> current_file_offset st) \<Longrightarrow>
      st1 = st\<lparr>next_consuming_pos := k, unconsumed := unconsumed st - k\<rparr> \<Longrightarrow>
      read_more_data a end_offset (length (read_buf st1) \<le> unconsumed st1) st1 s = (g, st2, s1) \<Longrightarrow>
      deserialize_loop a end_offset ms mb n acc st s =
        (if hasError g \<or> \<not> result g then Some (Ret (errR (n + k, acc') (error_code g)), s1)
         else deserialize_loop a end_offset ms (mb - k) (n + k) acc' st2 s1)"
  using assms by (subst deserialize_loop.simps; auto simp: Let_def)+

lemma deserialize_loop_spec:
  assumes "bufferOf data pos end_offset st" "drop pos data = logBytes rest @ tail"
    and "end_offset = pos + length (logBytes rest)" "\<forall>e \<in> set rest. wfEntry e"
    and "contiguous sn rest" "sn < ms" "0 < mb" "acc = [] \<or> e_sn (last acc) + 1 = sn"
    and "content s (fd a) = Some data" "end_offset < 2 ^ 64" "end_offset \<le> length data"
  shows "\<exists>r s'. deserialize_loop a end_offset ms mb n acc st s = Some (Ret r, s') \<and> deserialized s ms mb n acc rest r s'"
  using assms
proof (induction "length data + 1 - current_file_offset st" arbitrary: st pos rest sn mb n acc s rule: less_induct)
  case less
  note inv = less.prems(1) [unfolded bufferOf_def]
  from bufferOf_parse [OF less.prems(1-4)] obtain ws rs where w: "rest = ws @ rs" "length (logBytes ws) \<le> unconsumed st"
    and parse: "\<And>ms mb acc. parseMany (take (unconsumed st - next_consuming_pos st) (drop (next_consuming_pos st) (read_buf st))) 0 ms mb acc =
      Ret (okR (length (logBytes (takeEntries ms mb 0 ws))), acc @ map storedEntry (takeEntries ms mb 0 ws))"
    and fin: "end_offset \<le> current_file_offset st \<longrightarrow> rs = []" by blast
  define tk where "tk = takeEntries ms mb 0 ws"
  define acc' where "acc' = acc @ map storedEntry tk"
  let ?last = "mb \<le> length (logBytes tk) \<or> acc' \<noteq> [] \<and> ms \<le> e_sn (last acc') + 1 \<or> end_offset \<le> current_file_offset st"
  have ncp: "next_consuming_pos st = 0" using inv by simp
  have cw: "contiguous sn ws" "contiguous (sn + int (length ws)) rs" using less.prems(5) w(1) by simp_all
  have lastsn: "e_sn (last acc') + 1 = sn + int (length tk)" if "acc' \<noteq> []"
    using last_taken [OF cw(1) less.prems(8)] that by (simp add: tk_def acc'_def)
  note round = deserialize_loop_round [OF ncp w(2) parse tk_def refl acc'_def]
  show ?case
  proof (cases ?last)
    case True
    then have "takeEntries ms mb 0 rest = tk"
      using takeEntries_last_round [of sn ws rs ms mb] less.prems(5-7) w(1) lastsn fin by (auto simp: tk_def)
    then show ?thesis
      using round(1) [OF True] deserialized_ok [of s ms mb n acc rest] by (auto simp: acc'_def)
  next
    case False
    have nms: "\<not> ms \<le> sn + int (length tk)"
      using False lastsn less.prems(6) by (cases "acc' = []") (auto simp: acc'_def)
    with False takeEntries_room(2) [OF cw(1) less.prems(7,6), of rs]
    have tw: "tk = ws" "takeEntries ms mb 0 (ws @ rs) = ws @ takeEntries ms mb (length (logBytes ws)) rs"
      by (simp_all add: tk_def)
    have tk: "takeEntries ms mb 0 (ws @ rs) = ws @ takeEntries ms (mb - length (logBytes ws)) 0 rs"
      using tw takeEntries_shift [of "length (logBytes ws)" mb ms rs] False by simp
    let ?k = "length (logBytes ws)"
    define st1 where "st1 = st\<lparr>next_consuming_pos := ?k, unconsumed := unconsumed st - ?k\<rparr>"
    obtain g st2 s1 where g: "read_more_data a end_offset (length (read_buf st1) \<le> unconsumed st1) st1 s = (g, st2, s1)"
      by (metis prod_cases3)
    have "current_file_offset st < end_offset" using False by simp
    note rm = read_more_data_spec [OF less.prems(1) this less.prems(10,9,11) w(2) st1_def g]
    note step = round(2) [OF tw(1) False, unfolded tw(1), OF st1_def g]
    show ?thesis
    proof (cases "hasError g")
      case err: True
      have "deserialized s ms mb n acc (ws @ rs) (errR (n + ?k, acc') (error_code g)) s1"
        unfolding deserialized_def tk
        using rm err by (auto simp: hasError_def Let_def acc'_def tw(1) intro!: exI [of _ "length ws"])
      then show ?thesis using step err w(1) by auto
    next
      case ok: False
      have "\<exists>r s'. deserialize_loop a end_offset ms (mb - ?k) (n + ?k) acc' st2 s1 = Some (Ret r, s')
          \<and> deserialized s1 ms (mb - ?k) (n + ?k) acc' rs r s'"
      proof (rule less.hyps [where pos = "pos + ?k" and sn = "sn + int (length ws)"])
        show "length data + 1 - current_file_offset st2 < length data + 1 - current_file_offset st"
          using rm ok inv by auto
        show "drop (pos + ?k) data = logBytes rs @ tail"
          using less.prems(2) w(1) drop_drop [of ?k pos data] by (simp add: add.commute)
        show "acc' = [] \<or> e_sn (last acc') + 1 = sn + int (length ws)" using lastsn tw(1) by auto
      qed (use less.prems w cw nms tw False rm ok in auto)
      then show ?thesis using step ok rm w(1) deserialized_more [OF _ tk] by (fastforce simp: acc'_def tw(1))
    qed
  qed
qed

text \<open>The whole of \<^verbatim>\<open>deserialize\<close> on a range of whole entries.\<close>

lemma deserialize_entries_spec:
  assumes "content s (fd (fle_file l)) = Some (pre @ logBytes es @ tail)" "\<forall>e \<in> set es. wfEntry e"
    and "contiguous sn es" "sn < max_sn" "0 < max_size" "0 < max_buffer_size" "es \<noteq> []"
    and "start_pos l = length pre" "end_pos l = length pre + length (logBytes es)" "end_pos l < 2 ^ 64"
  shows "\<exists>r s'. deserialize_entries l max_sn max_size max_buffer_size s = (Ret r, s')
    \<and> deserialized s max_sn max_size 0 [] es r s'"
proof -
  let ?data = "pre @ logBytes es @ tail" and ?a = "fle_file l"
  define n where "n = min (length (logBytes es)) max_buffer_size"
  have pos: "0 < length (logBytes es)" using assms(7) by (cases es) auto
  then have n: "0 < n" "n \<le> length (logBytes es)" using assms(6) by (auto simp: n_def)
  obtain g s1 where g: "read_file ?a n (start_pos l) s = (g, s1)" by fastforce
  note rc = read_file_content [OF g assms(1)]
  have quiet: "outcomes s = [] \<longrightarrow> \<not> hasError g \<and> s1 = s"
    using read_file_quiet [OF _ assms(1), of n "start_pos l"] g by auto
  have n_eq: "min (sub64 (end_pos l) (start_pos l)) max_buffer_size = n" using assms(8,9) by (simp add: n_def)
  show ?thesis
  proof (cases "hasError g")
    case True
    then have "deserialize_entries l max_sn max_size max_buffer_size s = (Ret (errR (0, []) (error_code g)), s1)"
      using g by (simp add: deserialize_entries_def n_eq Let_def)
    moreover have "deserialized s max_sn max_size 0 [] es (errR (0, []) (error_code g)) s1"
      using True quiet rc(1) by (auto simp: deserialized_def hasError_def intro!: exI [of _ 0])
    ultimately show ?thesis by blast
  next
    case False
    have res: "result g = take n (logBytes es)" using rc(2) [OF False] n(2) assms(8) by simp
    then have ne: "result g \<noteq> []" "length (result g) = n" using n by auto
    define st where "st = \<lparr>read_buf = overwrite (replicate n 0) 0 (result g), next_consuming_pos = 0,
      unconsumed = length (result g), current_file_offset = start_pos l + length (result g)\<rparr>"
    have "read_buf st = result g" using ne by (simp add: st_def overwrite_def)
    then have b: "bufferOf ?data (length pre) (end_pos l) st"
      using ne n res assms(8,9) by (auto simp: bufferOf_def st_def)
    have c1: "content s1 (fd ?a) = Some ?data" using rc(1) assms(1) by simp
    obtain r s' where "deserialize_loop ?a (end_pos l) max_sn max_size 0 [] st s1 = Some (Ret r, s')"
      "deserialized s1 max_sn max_size 0 [] es r s'"
      using deserialize_loop_spec [OF b _ assms(9,2,3,4,5) _ c1 assms(10), where tail = tail and acc = "[]" and n = 0]
        assms(9) by auto
    moreover from this have "deserialized s max_sn max_size 0 [] es r s'"
      using rc(1) quiet by (auto simp: deserialized_def)
    ultimately show ?thesis
      using g False ne(1) by (auto simp: deserialize_entries_def n_eq Let_def st_def)
  qed
qed

section \<open>Properties\<close>

text \<open>
  Property C20: reading a range of whole entries with consecutive sequences in chunks through a
  buffer of any size, which grows for an entry that does not fit it, gives exactly the entries
  one parse of the whole range gives: those below \<^verbatim>\<open>max_sn\<close> up to the one that fills \<^verbatim>\<open>max_size\<close>.
  The loop ends whatever reads fail; after a failure the entries returned are a prefix of these.
\<close>

theorem deserialize_chunked:
  assumes "content s (fd (fle_file l)) = Some (pre @ logBytes es @ tail)" "\<forall>e \<in> set es. wfEntry e"
    and "contiguous sn es" "sn < max_sn" "0 < max_size" "0 < max_buffer_size" "es \<noteq> []"
    and "start_pos l = length pre" "end_pos l = length pre + length (logBytes es)" "end_pos l < 2 ^ 64"
  shows "\<exists>r s' k. deserialize_entries l max_sn max_size max_buffer_size s = (Ret r, s')
    \<and> content s' = content s \<and> (outcomes s = [] \<longrightarrow> \<not> hasError r)
    \<and> (let taken = (if hasError r then take k else id) (takeEntries max_sn max_size 0 es)
       in result r = (length (logBytes taken), map storedEntry taken))"
proof -
  from deserialize_entries_spec [OF assms] obtain r s' where
    "deserialize_entries l max_sn max_size max_buffer_size s = (Ret r, s')"
    "deserialized s max_sn max_size 0 [] es r s'" by blast
  then show ?thesis unfolding deserialized_def by (metis add_0 append_Nil)
qed

definition demoLog :: "Entry list" where
  "demoLog = [demoEntry 1 [5], demoEntry 2 [], demoEntry 3 [8, 9]]"

definition demoEntriesDisk :: "Entry list \<Rightarrow> bytes \<Rightarrow> outcome list \<Rightarrow> filesys" where
  "demoEntriesDisk es tail cs = demoDisk (logBytes es @ tail) cs"

definition demoView :: "Entry list \<Rightarrow> FileLogEntries" where
  "demoView es = \<lparr>fle_file = demoFile, start_pos = 0, end_pos = length (logBytes es), is_slice = True,
     fle_eof = False, fle_bytes = length (logBytes es)\<rparr>"

lemma length_varint_le: "length (writeVarUInt x) \<le> 10"
proof -
  have "unat x < 2 ^ 64" using unsigned_less [of x] by simp
  then show ?thesis using length_writeVarUInt_le [of x 9] by simp
qed

lemma length_entryBytes_le: "length (entryBytes e) \<le> 75 + length (e_data e)"
proof -
  have "length (entryBytes e) \<le> 4 + (10 + (10 + (10 + (10 + (10 + (10 + (1 + (10 + length (e_data e)))))))))"
    unfolding entryBytes_meta metaBytes_def metaRest_def writeVarInt_def length_append length_le_bytes add.assoc
    by (intro add_mono length_varint_le order_refl)
  then show ?thesis by simp
qed

lemma demoLog_facts:
  "\<forall>e \<in> set demoLog. wfEntry e" "contiguous 1 demoLog" "demoLog \<noteq> []" "length (logBytes demoLog) < 2 ^ 64"
proof -
  show "\<forall>e \<in> set demoLog. wfEntry e" by (auto simp: demoLog_def intro!: demoEntry_wf)
  show "contiguous 1 demoLog" "demoLog \<noteq> []" by (simp_all add: demoLog_def demoEntry_def)
  show "length (logBytes demoLog) < 2 ^ 64"
    using length_entryBytes_le [of "demoEntry 1 [5]"] length_entryBytes_le [of "demoEntry 2 []"]
      length_entryBytes_le [of "demoEntry 3 [8, 9]"]
    by (simp add: demoLog_def) (simp add: demoEntry_def)
qed

theorem deserialize_chunked_witness:
  "\<exists>r s'. deserialize_entries (demoView demoLog) 3 1000 7 (demoEntriesDisk demoLog [1, 2] []) = (Ret r, s')
    \<and> result r = (length (logBytes (takeEntries 3 1000 0 demoLog)), map storedEntry (takeEntries 3 1000 0 demoLog))"
proof -
  let ?s = "demoEntriesDisk demoLog [1, 2] []"
  have "content ?s (fd (fle_file (demoView demoLog))) = Some ([] @ logBytes demoLog @ [1, 2])"
    by (simp add: demoEntriesDisk_def demoView_def content_def demoDisk_def demoFile_def)
  from deserialize_chunked [OF this demoLog_facts(1,2), of 3 1000 7] demoLog_facts(3,4) show ?thesis
    by (fastforce simp: demoView_def demoEntriesDisk_def demoDisk_def Let_def)
qed

text \<open>
  Property C21: the search for a sequence among whole entries, from any entry boundary at or before
  it, returns the position and the size of the entry with that sequence.
\<close>

theorem search_finds_sequence:
  assumes "outcomes s = []" "content s (fd (fle_file l)) = Some (pre @ logBytes es @ tail)"
    and "\<forall>x \<in> set es. wfEntry x \<and> metaFits x" "length pre + length (logBytes es) \<le> end_pos l"
    and "contiguous sn es" "i < length es"
  shows "searchForSequenceWithSize l (sn + int i) (length pre) s =
    (Ret (Some \<lparr>lsp_sn = sn + int i, lsp_file_position = length pre + length (logBytes (take i es)),
                lsp_entry_size = length (entryBytes (es ! i))\<rparr>), s)"
proof -
  have split: "es = take i es @ es ! i # drop (Suc i) es" using assms(6) by (rule id_take_nth_drop)
  have sn: "e_sn (es ! i) = sn + int i" by (rule contiguous_nth [OF assms(5,6)])
  have "e_sn x \<noteq> sn + int i" if x: "x \<in> set (take i es)" for x
  proof -
    from x obtain j where "j < i" "x = es ! j" by (auto simp: in_set_conv_nth)
    then show ?thesis using contiguous_nth [OF assms(5), of j] assms(6) by simp
  qed
  then show ?thesis
    using search_found [of s l pre "take i es" "es ! i" "drop (Suc i) es" tail] assms(1-4) split sn by simp
qed

lemma demoLog_metaFits: "\<forall>e \<in> set demoLog. metaFits e"
  unfolding demoLog_def by code_simp

theorem search_finds_sequence_witness:
  "searchForSequenceWithSize (demoView demoLog) 2 0 (demoEntriesDisk demoLog [] []) =
    (Ret (Some \<lparr>lsp_sn = 2, lsp_file_position = length (entryBytes (demoEntry 1 [5])),
                lsp_entry_size = length (entryBytes (demoEntry 2 []))\<rparr>), demoEntriesDisk demoLog [] [])"
proof -
  let ?s = "demoEntriesDisk demoLog [] []"
  have s: "outcomes ?s = []" "content ?s (fd (fle_file (demoView demoLog))) = Some ([] @ logBytes demoLog @ [])"
    by (simp_all add: demoEntriesDisk_def demoView_def content_def demoDisk_def demoFile_def)
  have "\<forall>e \<in> set demoLog. wfEntry e \<and> metaFits e" using demoLog_facts(1) demoLog_metaFits by blast
  from search_finds_sequence [OF s this, of 1 1] demoLog_facts(2) show ?thesis
    by (simp add: demoView_def demoLog_def take_Cons')
qed

lemma apply_loop_short:
  assumes "outcomes s = []" "content s (fd a) = Some (pre @ entryBytes e @ tail)"
    and "wfEntry e" "\<not> metaFits e" "off = length pre" "off < en"
  shows "\<exists>x. apply_loop a en cb off c s = (Throw x, c, s)"
proof -
  let ?m = approximateSerializedMetadataSize
  let ?b = "take ?m (entryBytes e @ tail)"
  have r: "read_file a ?m off s = (okR ?b, s)"
    using read_file_quiet [OF assms(1,2), of ?m off] assms(5) by simp
  obtain x where "fst (parseEntry True ?b) = Throw x"
    using parseEntry_meta_short [OF assms(3)] assms(4) by (auto simp: metaFits_def not_le)
  moreover have "?b \<noteq> []" by (simp add: approximateSerializedMetadataSize_def entryBytes_eq)
  ultimately have "apply_loop a en cb off c s = (Throw x, c, s)"
    using assms(6) by (subst apply_loop.simps) (simp add: r)
  then show ?thesis by blast
qed

lemma apply_walk_short:
  assumes "outcomes s = []" "content s (fd a) = Some (pre @ logBytes es @ entryBytes e @ tail)"
    and "\<forall>x \<in> set es. wfEntry x \<and> metaFits x" "wfEntry e" "\<not> metaFits e" "length pre + length (logBytes es) < en"
    and w: "walk cb c (length pre) es = (False, c', length pre + length (logBytes es))"
  shows "\<exists>x. apply_loop a en cb (length pre) c s = (Throw x, c', s)"
proof -
  have "length pre + length (logBytes es) \<le> en" using assms(6) by simp
  from apply_loop_walk [OF assms(1-3) refl this w] show ?thesis
    using apply_loop_short [OF assms(1) _ assms(4,5) _ assms(6), of a "pre @ logBytes es" tail cb c'] assms(2) by simp
qed

text \<open>
  Property C22: the buffer for the metadata has the size of the fields in memory, but the fields are
  written in base 128, where a 64-bit integer may take ten bytes. An entry whose metadata is longer
  than the buffer is well formed, and yet every walk over the metadata that comes to it, whatever its
  callback, ends there with an exception; the variables of the callback stay as the entries in front
  of it left them. So the search for the entry itself, or for one behind it, throws.
\<close>

theorem metadata_buffer_too_small:
  assumes "outcomes s = []" "content s (fd (fle_file l)) = Some (pre @ logBytes es @ entryBytes e @ tail)"
    and "\<forall>x \<in> set es. wfEntry x \<and> metaFits x" "wfEntry e" "\<not> metaFits e" "length pre + length (logBytes es) < end_pos l"
  shows "(walk cb c (length pre) es = (False, c', length pre + length (logBytes es)) \<longrightarrow>
      (\<exists>x. applyLogEntryMetadata l cb (Some (length pre)) c s = (Throw x, c', s)))
    \<and> ((\<forall>y \<in> set es. e_sn y \<noteq> sn) \<longrightarrow> (\<exists>x. searchForSequenceWithSize l sn (length pre) s = (Throw x, s)))"
proof -
  note short = apply_walk_short [OF assms(1-6)]
  have "\<exists>x. searchForSequenceWithSize l sn (length pre) s = (Throw x, s)" if "\<forall>y \<in> set es. e_sn y \<noteq> sn"
    using short [OF walk_search_none [OF that, of "(0, 0)"]] by (auto simp: searchForSequenceWithSize_def applyLogEntryMetadata_def)
  moreover have "walk cb c (length pre) es = (False, c', length pre + length (logBytes es)) \<longrightarrow>
      (\<exists>x. applyLogEntryMetadata l cb (Some (length pre)) c s = (Throw x, c', s))"
    using short [of cb c c'] by (simp add: applyLogEntryMetadata_def)
  ultimately show ?thesis by blast
qed

definition bigEntry :: Entry where
  "bigEntry = emptyEntry\<lparr>e_crc := 0xFFFFFFFF, e_sn := 2 ^ 62, e_correlation_id := 2 ^ 63,
     e_max_event_timestamp := - (2 ^ 63), e_append_timestamp := 1700000000000\<rparr>"

lemma bigEntry_facts: "wfEntry bigEntry" "\<not> metaFits bigEntry"
proof -
  have "length (serializeEntry_wb bigEntry) < 100 \<and> 43 < length (metaBytes bigEntry)" by code_simp
  then show "wfEntry bigEntry" "\<not> metaFits bigEntry"
    by (simp_all add: wfEntry_def metaFits_def approximateSerializedMetadataSize_def)
      (simp add: bigEntry_def emptyEntry_def int64_def)
qed

theorem metadata_buffer_too_small_witness:
  "\<exists>c. searchForSequenceWithSize (demoView [demoEntry 1 [5], bigEntry]) (2 ^ 62) 0 (demoEntriesDisk [demoEntry 1 [5], bigEntry] [] [])
    = (Throw c, demoEntriesDisk [demoEntry 1 [5], bigEntry] [] [])"
proof -
  let ?s = "demoEntriesDisk [demoEntry 1 [5], bigEntry] [] []" and ?l = "demoView [demoEntry 1 [5], bigEntry]"
  have s: "outcomes ?s = []" "content ?s (fd (fle_file ?l)) = Some ([] @ logBytes [demoEntry 1 [5]] @ entryBytes bigEntry @ [])"
    by (simp_all add: demoEntriesDisk_def demoView_def content_def demoDisk_def demoFile_def)
  have w: "\<forall>x \<in> set [demoEntry 1 [5]]. wfEntry x \<and> metaFits x"
    using demoLog_facts(1) demoLog_metaFits by (simp add: demoLog_def)
  have "length ([] :: bytes) + length (logBytes [demoEntry 1 [5]]) < end_pos ?l"
    by (simp add: demoView_def)
  moreover have "\<forall>y \<in> set [demoEntry 1 [5]]. e_sn y \<noteq> 2 ^ 62" by (simp add: demoEntry_def)
  ultimately show ?thesis
    using metadata_buffer_too_small [OF s w bigEntry_facts, of "search_callback 0" "(0, 0)" "(0, 0)" "2 ^ 62"] by (metis list.size(3))
qed

end
