(* ===== verification/Nlog_KeyValue.thy ===== *)
theory Nlog_KeyValue
  imports Nlog_Codec
begin

text \<open>
  The three key-value types the persistent monotonic map is instantiated with
  (\<^verbatim>\<open>src/src/Cluster/LocalLog/Indexes/SequencePosition\<close>, \<^verbatim>\<open>TimestampSequence\<close> and
  \<^verbatim>\<open>src/src/Cluster/Common/EpochSequence\<close>), and the contract \<^verbatim>\<open>PersistentMonoMap\<close> puts on its
  template parameter: the members it uses as a record of operations, the laws they obey as a locale
  that each type interprets.
\<close>

section \<open>The template parameter\<close>

text \<open>
  \<^verbatim>\<open>operator>\<close> of each type is its \<^verbatim>\<open>operator<\<close> with the arguments swapped, and \<^verbatim>\<open>operator>=\<close> the
  negation of \<^verbatim>\<open>operator<\<close>.
\<close>

record 'e KeyValueOps =
  kv_key :: "'e \<Rightarrow> int"
  kv_value :: "'e \<Rightarrow> int"
  kv_less :: "'e \<Rightarrow> 'e \<Rightarrow> bool"
  kv_serialize :: "'e \<Rightarrow> bytes"
  kv_deserialize :: "'e reader"
  kv_size :: nat

text \<open>The bytes of a run of entries in an index file.\<close>

definition encodeKV :: "'e KeyValueOps \<Rightarrow> 'e list \<Rightarrow> bytes" where
  "encodeKV K es = concat (map (kv_serialize K) es)"

locale mono_key_value =
  fixes K :: "'e KeyValueOps"
    and valid :: "'e \<Rightarrow> bool"
  assumes key_less: "kv_key K a < kv_key K b \<Longrightarrow> kv_less K a b"
    and less_key: "kv_less K a b \<Longrightarrow> kv_key K a \<le> kv_key K b"
    and size_pos: "0 < kv_size K"
    and length_serialize: "length (kv_serialize K a) = kv_size K"
    and deserialize_serialize: "valid a \<Longrightarrow> kv_deserialize K (kv_serialize K a @ r) = (Ret a, r)"
begin

lemma key_less_not_greater: "kv_key K a < kv_key K b \<Longrightarrow> \<not> kv_less K b a"
  using less_key by fastforce

lemma encode_simps [simp]: "encodeKV K [] = []" "encodeKV K (e # es) = kv_serialize K e @ encodeKV K es"
  "encodeKV K (es @ fs) = encodeKV K es @ encodeKV K fs"
  by (simp_all add: encodeKV_def)

lemma length_encode [simp]: "length (encodeKV K es) = length es * kv_size K"
  by (induction es) (simp_all add: length_serialize)

lemma take_encode: "take (n * kv_size K) (encodeKV K es) = encodeKV K (take n es)"
proof (induction es arbitrary: n)
  case (Cons e es)
  then show ?case by (cases n) (simp_all add: length_serialize)
qed simp

lemma drop_encode: "drop (n * kv_size K) (encodeKV K es) = encodeKV K (drop n es)"
proof (induction es arbitrary: n)
  case (Cons e es)
  then show ?case by (cases n) (simp_all add: length_serialize)
qed simp

end

section \<open>SequencePosition\<close>

record SequencePosition =
  sp_sn :: int
  sp_file_position :: nat

definition SequencePosition_less :: "SequencePosition \<Rightarrow> SequencePosition \<Rightarrow> bool" where
  "SequencePosition_less a b \<longleftrightarrow>
     sp_sn a < sp_sn b \<or> sp_sn a = sp_sn b \<and> sp_file_position a < sp_file_position b"

definition SequencePosition_serialize :: "SequencePosition \<Rightarrow> bytes" where
  "SequencePosition_serialize a =
     writeInt64 (sp_sn a) @ le_bytes 8 (of_nat (sp_file_position a) :: u64)"

definition SequencePosition_deserialize :: "SequencePosition reader" where
  "SequencePosition_deserialize =
     bindE readInt64 (\<lambda>sn. bindE readIntBinary64 (\<lambda>p.
     retE \<lparr>sp_sn = sn, sp_file_position = unat p\<rparr>))"

definition SequencePosition_ops :: "SequencePosition KeyValueOps" where
  "SequencePosition_ops = \<lparr>kv_key = sp_sn, kv_value = (\<lambda>a. int (sp_file_position a)),
     kv_less = SequencePosition_less, kv_serialize = SequencePosition_serialize,
     kv_deserialize = SequencePosition_deserialize, kv_size = 8 + 8\<rparr>"

definition valid_SequencePosition :: "SequencePosition \<Rightarrow> bool" where
  "valid_SequencePosition a \<longleftrightarrow> int64 (sp_sn a) \<and> sp_file_position a < 2 ^ 64"

section \<open>TimestampSequence\<close>

record TimestampSequence =
  ts_timestamp :: int
  ts_sn :: int

definition TimestampSequence_less :: "TimestampSequence \<Rightarrow> TimestampSequence \<Rightarrow> bool" where
  "TimestampSequence_less a b \<longleftrightarrow>
     ts_timestamp a < ts_timestamp b \<or> ts_timestamp a = ts_timestamp b \<and> ts_sn a < ts_sn b"

definition TimestampSequence_serialize :: "TimestampSequence \<Rightarrow> bytes" where
  "TimestampSequence_serialize a = writeInt64 (ts_timestamp a) @ writeInt64 (ts_sn a)"

definition TimestampSequence_deserialize :: "TimestampSequence reader" where
  "TimestampSequence_deserialize =
     bindE readInt64 (\<lambda>ts. bindE readInt64 (\<lambda>sn. retE \<lparr>ts_timestamp = ts, ts_sn = sn\<rparr>))"

definition TimestampSequence_ops :: "TimestampSequence KeyValueOps" where
  "TimestampSequence_ops = \<lparr>kv_key = ts_timestamp, kv_value = ts_sn,
     kv_less = TimestampSequence_less, kv_serialize = TimestampSequence_serialize,
     kv_deserialize = TimestampSequence_deserialize, kv_size = 8 + 8\<rparr>"

definition valid_TimestampSequence :: "TimestampSequence \<Rightarrow> bool" where
  "valid_TimestampSequence a \<longleftrightarrow> int64 (ts_timestamp a) \<and> int64 (ts_sn a)"

section \<open>EpochSequence\<close>

text \<open>Every constructor sets the epoch to 1, and so does reading one back.\<close>

record EpochSequence =
  es_epoch :: int
  es_sn :: int

definition mkEpochSequence :: "int \<Rightarrow> EpochSequence" where
  "mkEpochSequence sn = \<lparr>es_epoch = 1, es_sn = sn\<rparr>"

definition EpochSequence_less :: "EpochSequence \<Rightarrow> EpochSequence \<Rightarrow> bool" where
  "EpochSequence_less a b \<longleftrightarrow>
     es_epoch a < es_epoch b \<or> es_epoch a = es_epoch b \<and> es_sn a < es_sn b"

definition EpochSequence_serialize :: "EpochSequence \<Rightarrow> bytes" where
  "EpochSequence_serialize a = le_bytes 8 (1 :: u64) @ writeInt64 (es_sn a)"

definition EpochSequence_deserialize :: "EpochSequence reader" where
  "EpochSequence_deserialize =
     bindE readIntBinary64 (\<lambda>dummy_epoch. bindE readInt64 (\<lambda>sn. retE (mkEpochSequence sn)))"

definition EpochSequence_ops :: "EpochSequence KeyValueOps" where
  "EpochSequence_ops = \<lparr>kv_key = es_epoch, kv_value = es_sn,
     kv_less = EpochSequence_less, kv_serialize = EpochSequence_serialize,
     kv_deserialize = EpochSequence_deserialize, kv_size = 8 + 8\<rparr>"

definition valid_EpochSequence :: "EpochSequence \<Rightarrow> bool" where
  "valid_EpochSequence a \<longleftrightarrow> es_epoch a = 1 \<and> int64 (es_sn a)"

section \<open>The contract holds\<close>

lemmas SequencePosition_defs = SequencePosition_ops_def SequencePosition_less_def
  SequencePosition_serialize_def SequencePosition_deserialize_def valid_SequencePosition_def

lemmas TimestampSequence_defs = TimestampSequence_ops_def TimestampSequence_less_def
  TimestampSequence_serialize_def TimestampSequence_deserialize_def valid_TimestampSequence_def

lemmas EpochSequence_defs = EpochSequence_ops_def EpochSequence_less_def
  EpochSequence_serialize_def EpochSequence_deserialize_def valid_EpochSequence_def
  mkEpochSequence_def

interpretation sp: mono_key_value SequencePosition_ops valid_SequencePosition
  by unfold_locales (auto simp: SequencePosition_defs unat_of_nat)

interpretation ts: mono_key_value TimestampSequence_ops valid_TimestampSequence
  by unfold_locales (auto simp: TimestampSequence_defs)

interpretation es: mono_key_value EpochSequence_ops valid_EpochSequence
  by unfold_locales (auto simp: EpochSequence_defs)

lemma SequencePosition_ops_sel [simp]: "kv_key SequencePosition_ops = sp_sn"
  "kv_value SequencePosition_ops = (\<lambda>a. int (sp_file_position a))" "kv_size SequencePosition_ops = 16"
  by (simp_all add: SequencePosition_ops_def)

lemma TimestampSequence_ops_sel [simp]: "kv_key TimestampSequence_ops = ts_timestamp"
  "kv_value TimestampSequence_ops = ts_sn" "kv_size TimestampSequence_ops = 16"
  by (simp_all add: TimestampSequence_ops_def)

lemma EpochSequence_ops_sel [simp]: "kv_key EpochSequence_ops = es_epoch"
  "kv_value EpochSequence_ops = es_sn" "kv_size EpochSequence_ops = 16"
  by (simp_all add: EpochSequence_ops_def)

end
