(* ===== verification/Nlog_MonoMap.thy ===== *)
theory Nlog_MonoMap
  imports Nlog_File Nlog_KeyValue "HOL-Library.Sublist"
begin

text \<open>
  The persistent monotonic map of \<^verbatim>\<open>src/src/Cluster/LocalLog/Indexes/PersistentMonoMap.h\<close> and
  \<^verbatim>\<open>.cpp\<close>: an append-only file of fixed-size entries with growing keys, rolled into numbered files
  when it reaches \<^verbatim>\<open>max_size\<close>, loaded lazily and searched by key or by value. The map is generic in
  the record of operations of its entry type. The searches by key and by value are the same code
  twice in the source, once over \<^verbatim>\<open>key()\<close> and once over \<^verbatim>\<open>value()\<close>; here they are one definition
  over a projection, instantiated twice. Locks, log messages and \<^verbatim>\<open>assert\<close>s, which a release build
  compiles out, are left out; what an \<^verbatim>\<open>assert\<close> would catch has its C++ meaning.
\<close>

section \<open>State\<close>

record 'e KeyValueWithLogOffset =
  kvo_entry :: 'e
  kvo_offset :: nat

type_synonym 'e EntryContainer = "'e KeyValueWithLogOffset list"

text \<open>
  \<^verbatim>\<open>cache_to_truncate\<close> points to the cache of the current segment (0) or of a rolled segment (its
  id), \<^verbatim>\<open>truncation_point\<close> is the index the iterator stands at.
\<close>

record 'e FoundKeyValue =
  fkv_entry_offset :: "'e KeyValueWithLogOffset"
  fkv_segment_id :: nat
  fkv_cache_to_truncate :: nat
  fkv_truncation_point :: nat

text \<open>\<open>pm_segs\<close> is the \<^verbatim>\<open>btree_map\<close> from segment ids to entries, in the order of the ids.\<close>

record 'e PersistentMonoMap =
  pm_max_size :: nat
  pm_preallocate :: bool
  pm_segs :: "(nat \<times> 'e EntryContainer) list"
  pm_log_file :: AppendOnlyFile
  pm_log_size :: nat
  pm_loaded :: bool
  pm_cache :: "'e EntryContainer"

type_synonym ('e, 'a) mapProg = "('e PersistentMonoMap \<times> filesys, 'a) prog"

definition getM :: "('m \<times> filesys, 'm) prog" where
  "getM = (\<lambda>(m, s). (Ret m, (m, s)))"

definition modM :: "('m \<Rightarrow> 'm) \<Rightarrow> ('m \<times> filesys, unit) prog" where
  "modM f = (\<lambda>(m, s). (Ret (), (f m, s)))"

definition liftF :: "(filesys \<Rightarrow> 'a \<times> filesys) \<Rightarrow> ('m \<times> filesys, 'a) prog" where
  "liftF f = (\<lambda>(m, s). case f s of (r, s') \<Rightarrow> (Ret r, (m, s')))"

definition liftP :: "(filesys, 'a) prog \<Rightarrow> ('m \<times> filesys, 'a) prog" where
  "liftP p = (\<lambda>(m, s). case p s of (r, s') \<Rightarrow> (r, (m, s')))"

lemma map_prog_simps [simp]:
  "getM (m, s) = (Ret m, (m, s))" "modM f (m, s) = (Ret (), (f m, s))"
  "liftF g (m, s) = (case g s of (r, s') \<Rightarrow> (Ret r, (m, s')))"
  "liftP p (m, s) = (case p s of (r, s') \<Rightarrow> (r, (m, s')))"
  by (simp_all add: getM_def modM_def liftF_def liftP_def)

text \<open>The operations of the \<^verbatim>\<open>btree_map\<close> that the code uses.\<close>

fun segs_emplace :: "nat \<Rightarrow> 'c \<Rightarrow> (nat \<times> 'c) list \<Rightarrow> (nat \<times> 'c) list" where
  "segs_emplace i c [] = [(i, c)]"
| "segs_emplace i c ((j, d) # r) =
    (if i < j then (i, c) # (j, d) # r else if i = j then (j, d) # r
     else (j, d) # segs_emplace i c r)"

definition segs_update :: "nat \<Rightarrow> 'c \<Rightarrow> (nat \<times> 'c) list \<Rightarrow> (nat \<times> 'c) list" where
  "segs_update i c xs = map (\<lambda>(j, d). if j = i then (j, c) else (j, d)) xs"

definition segmentLogPath :: "string \<Rightarrow> nat \<Rightarrow> string" where
  "segmentLogPath segment_path segment_id = segment_path @ ''.'' @ nat_to_dec segment_id"

definition nextSegmentID :: "'e PersistentMonoMap \<Rightarrow> nat" where
  "nextSegmentID m = (if pm_segs m = [] then 1 else fst (last (pm_segs m)) + 1)"

definition newPersistentMonoMap ::
  "string \<Rightarrow> nat \<Rightarrow> bool \<Rightarrow> (filesys, 'e PersistentMonoMap) prog" where
  "newPersistentMonoMap fname file_max_size prealloc =
     bindE (AppendOnlyFile_open fname) (\<lambda>f.
     retE \<lparr>pm_max_size = file_max_size, pm_preallocate = prealloc, pm_segs = [],
       pm_log_file = f, pm_log_size = 0, pm_loaded = False, pm_cache = []\<rparr>)"

section \<open>Loading\<close>

text \<open>The inner loop of \<^verbatim>\<open>loadLogSegment\<close>: the entries, the offset reached, and \<^verbatim>\<open>early_exit\<close>.\<close>

fun load_entries ::
  "'e KeyValueOps \<Rightarrow> nat \<Rightarrow> bytes \<Rightarrow> 'e EntryContainer \<Rightarrow> nat \<Rightarrow> ('e EntryContainer \<times> nat \<times> bool) exec" where
  "load_entries K 0 rb entry_cache file_offset = Ret (entry_cache, file_offset, False)"
| "load_entries K (Suc n) rb entry_cache file_offset =
    (case kv_deserialize K rb of
       (Ret e, rb') \<Rightarrow>
         if entry_cache \<noteq> [] \<and> kv_less K e (kvo_entry (last entry_cache))
         then Ret (entry_cache, file_offset, True)
         else load_entries K n rb' (entry_cache @ [\<lparr>kvo_entry = e, kvo_offset = file_offset\<rparr>])
                (file_offset + kv_size K)
     | (Throw x, _) \<Rightarrow> Throw x
     | (Undef, _) \<Rightarrow> Undef
     | (Diverge, _) \<Rightarrow> Diverge)"

text \<open>
  The outer loop. A read that yields nothing before \<open>bytes\<close> is reached leaves the loop where it
  was.
\<close>

function load_loop ::
  "'e KeyValueOps \<Rightarrow> AppendOnlyFile \<Rightarrow> nat \<Rightarrow> nat \<Rightarrow> nat \<Rightarrow> 'e EntryContainer \<Rightarrow> nat \<Rightarrow> bool
    \<Rightarrow> (filesys, nat CallResult \<times> 'e EntryContainer) prog" where
  "load_loop K f bytes buf_size read_offset entry_cache file_offset early_exit s =
    (if read_offset < bytes \<and> \<not> early_exit then
       case read_file f buf_size read_offset s of (r, s1) \<Rightarrow>
         if hasError r then (Ret (errR 0 CANNOT_READ_FILE, entry_cache), s1)
         else (case load_entries K (length (result r) div kv_size K) (result r) entry_cache file_offset of
                 Ret (entry_cache', file_offset', early_exit') \<Rightarrow>
                   let s2 = (if early_exit' then snd (truncate_file f file_offset' s1) else s1) in
                   if result r = [] then (Diverge, s2)
                   else load_loop K f bytes buf_size (read_offset + length (result r))
                          entry_cache' file_offset' early_exit' s2
               | Throw x \<Rightarrow> (Throw x, s1)
               | Undef \<Rightarrow> (Undef, s1)
               | Diverge \<Rightarrow> (Diverge, s1))
     else (Ret (okR bytes, entry_cache), s))"
  by pat_completeness auto

termination load_loop
  by (relation "measure (\<lambda>(_, _, bytes, _, read_offset, _). bytes - read_offset)")
    (auto intro!: diff_less_mono2)

declare load_loop.simps [simp del]

definition loadLogSegment ::
  "'e KeyValueOps \<Rightarrow> AppendOnlyFile \<Rightarrow> 'e EntryContainer
    \<Rightarrow> (filesys, nat CallResult \<times> 'e EntryContainer) prog" where
  "loadLogSegment K log_segment entry_cache s =
    (case size_file log_segment s of (res, s1) \<Rightarrow>
       if hasError res then (Ret (errR 0 CANNOT_FSTAT, entry_cache), s1)
       else
         let num_entries = result res div kv_size K;
             remaining = result res mod kv_size K;
             bytes = (if remaining \<noteq> 0 then num_entries * kv_size K else result res)
         in case (if remaining \<noteq> 0 \<and> \<not> read_only log_segment
                  then truncate_file log_segment (num_entries * kv_size K) s1 else (0, s1)) of
              (err, s2) \<Rightarrow>
                if err \<noteq> 0 then (Ret (errR 0 CANNOT_TRUNCATE_FILE, entry_cache), s2)
                else load_loop K log_segment bytes (kv_size K * min num_entries 65536)
                       0 entry_cache 0 False s2)"

definition loadRolledLogSegmentFully :: "'e KeyValueOps \<Rightarrow> nat \<Rightarrow> ('e, ErrorCode) mapProg" where
  "loadRolledLogSegmentFully K segment_id =
     bindE getM (\<lambda>m.
       if 1 < length (the (map_of (pm_segs m) segment_id)) then retE OK
       else
         bindE (liftP (openFile (segmentLogPath (filename (pm_log_file m)) segment_id) True True)) (\<lambda>f.
         bindE (liftP (loadLogSegment K f [])) (\<lambda>(res, rolled_cache).
           if hasError res then retE (error_code res)
           else bindE (modM (\<lambda>m. m\<lparr>pm_segs := segs_update segment_id rolled_cache (pm_segs m)\<rparr>)) (\<lambda>_.
                retE OK))))"

definition loadRolledLogSegment :: "'e KeyValueOps \<Rightarrow> string \<Rightarrow> ('e, ErrorCode) mapProg" where
  "loadRolledLogSegment K segment_filename =
     bindE getM (\<lambda>m.
       case from_chars_u64 (drop (length (filename (pm_log_file m)) + 1) segment_filename) of
         None \<Rightarrow> retE INCORRECT_FILE_NAME
       | Some (segment_id, rest) \<Rightarrow>
           if rest \<noteq> [] \<or> segment_id = 0 then retE INCORRECT_FILE_NAME
           else
             bindE (liftP (openFile segment_filename True True)) (\<lambda>f.
             bindE (liftF (size_file f)) (\<lambda>sz.
               if hasError sz then retE CANNOT_FSTAT
               else if result sz < kv_size K then retE FILE_CORRUPTION
               else
                 bindE (liftF (read_file f (kv_size K) 0)) (\<lambda>res.
                   if hasError res then retE CANNOT_READ_FILE
                   else
                     let entry_data = result res @ zeros (kv_size K - length (result res)) in
                     bindE (liftP (\<lambda>s. (fst (kv_deserialize K entry_data), s))) (\<lambda>e.
                     bindE (modM (\<lambda>m. m\<lparr>pm_segs :=
                        segs_emplace segment_id [\<lparr>kvo_entry = e, kvo_offset = 0\<rparr>] (pm_segs m)\<rparr>)) (\<lambda>_.
                     retE OK))))))"

text \<open>The pass of \<^verbatim>\<open>recover\<close> over the directory.\<close>

definition loadCurrentLogSegment :: "'e KeyValueOps \<Rightarrow> ('e, ErrorCode) mapProg" where
  "loadCurrentLogSegment K =
     bindE getM (\<lambda>m.
     bindE (liftP (loadLogSegment K (pm_log_file m) (pm_cache m))) (\<lambda>(res, c).
       if hasError res then bindE (modM (\<lambda>m. m\<lparr>pm_cache := c\<rparr>)) (\<lambda>_. retE (error_code res))
       else bindE (modM (\<lambda>m. m\<lparr>pm_cache := c, pm_log_size := result res, pm_loaded := True\<rparr>)) (\<lambda>_.
            retE OK)))"

fun recover_files :: "'e KeyValueOps \<Rightarrow> string \<Rightarrow> string list \<Rightarrow> ('e, ErrorCode) mapProg" where
  "recover_files K fname [] = retE OK"
| "recover_files K fname (p # ps) =
    (if \<not> prefix fname p then recover_files K fname ps
     else bindE (if p = fname then loadCurrentLogSegment K else loadRolledLogSegment K p) (\<lambda>err.
       if err \<noteq> OK then retE err else recover_files K fname ps))"

text \<open>The sanity check: the segments' first entries must grow with the segment ids.\<close>

fun segs_in_order :: "'e KeyValueOps \<Rightarrow> (nat \<times> 'e EntryContainer) list \<Rightarrow> bool" where
  "segs_in_order K ((i, c) # (j, d) # r) \<longleftrightarrow>
     kv_less K (kvo_entry (hd c)) (kvo_entry (hd d)) \<and> segs_in_order K ((j, d) # r)"
| "segs_in_order K _ \<longleftrightarrow> True"

definition recover :: "'e KeyValueOps \<Rightarrow> ('e, ErrorCode) mapProg" where
  "recover K =
     bindE getS (\<lambda>(m, s).
       let fname = filename (pm_log_file m); ckpt_dir = parent_path fname in
       if \<not> exists_path s ckpt_dir then retE DIRECTORY_DOESNT_EXIST
       else if ckpt_dir \<notin> set (dirs s) then retE FILE_DOESNT_EXIST
       else bindE (recover_files K fname (directory_files s ckpt_dir)) (\<lambda>err.
              if err \<noteq> OK then retE err
              else bindE getM (\<lambda>m.
                if segs_in_order K (pm_segs m) then retE OK else retE LOGICAL_ERROR)))"

definition ensureLoaded :: "'e KeyValueOps \<Rightarrow> ('e, ErrorCode) mapProg" where
  "ensureLoaded K = bindE getM (\<lambda>m. if pm_loaded m then retE OK else recover K)"

section \<open>Inserting\<close>

definition roll :: "'e KeyValueOps \<Rightarrow> bool \<Rightarrow> ('e, ErrorCode) mapProg" where
  "roll K sync =
     bindE getM (\<lambda>m.
     let fname = filename (pm_log_file m); seg_id = nextSegmentID m in
     bindE (liftF (\<lambda>s. case renameTo (pm_log_file m) (segmentLogPath fname seg_id) s of
        (e, f, s') \<Rightarrow> ((e, f), s'))) (\<lambda>(ec, f).
     bindE (modM (\<lambda>m. m\<lparr>pm_log_file := f\<rparr>)) (\<lambda>_.
       if ec \<noteq> 0 then retE ATOMIC_RENAME_FAIL
       else
         bindE (if sync then liftF (sync_file f True) else retE 0) (\<lambda>err.
           if err \<noteq> 0 then retE CANNOT_FLUSH_FILE
           else
             bindE (modM (\<lambda>m. m\<lparr>pm_segs := segs_emplace seg_id (pm_cache m) (pm_segs m),
                                 pm_cache := [], pm_log_size := 0\<rparr>)) (\<lambda>_.
             bindE (liftP (AppendOnlyFile_open fname)) (\<lambda>f'.
             bindE (modM (\<lambda>m. m\<lparr>pm_log_file := f'\<rparr>)) (\<lambda>_.
             retE OK)))))))"

definition maybeIndex :: "'e KeyValueOps \<Rightarrow> 'e \<Rightarrow> bool \<Rightarrow> ('e, bool CallResult) mapProg" where
  "maybeIndex K e sync =
     bindE (ensureLoaded K) (\<lambda>err.
     if err \<noteq> OK then retE (errR False err)
     else bindE getM (\<lambda>m.
       if pm_cache m \<noteq> [] \<and> kv_less K e (kvo_entry (last (pm_cache m))) then retE (okR False)
       else if \<not> (pm_cache m = [] \<or> kv_key K (kvo_entry (last (pm_cache m))) < kv_key K e)
       then retE (okR False)
       else
         bindE (if pm_max_size m \<le> pm_log_size m then roll K sync else retE OK) (\<lambda>err.
         if err \<noteq> OK then retE (errR False err)
         else bindE getM (\<lambda>m.
           let data = kv_serialize K e in
           bindE (liftF (append_file (pm_log_file m) data)) (\<lambda>res.
           if hasError res then retE (errR False CANNOT_WRITE_TO_FILE_DESCRIPTOR)
           else
             bindE (if sync then liftF (syncTail_file (pm_log_file m) (pm_log_size m)) else retE 0) (\<lambda>err.
             if err \<noteq> 0 then retE (errR False CANNOT_FLUSH_FILE)
             else
               bindE (modM (\<lambda>m. m\<lparr>
                  pm_cache := pm_cache m @ [\<lparr>kvo_entry = e, kvo_offset = pm_log_size m\<rparr>],
                  pm_log_size := pm_log_size m + length data\<rparr>)) (\<lambda>_.
               retE (okR True))))))))"

section \<open>Searching\<close>

definition mkFound :: "'e KeyValueWithLogOffset \<Rightarrow> nat \<Rightarrow> nat \<Rightarrow> 'e FoundKeyValue" where
  "mkFound kvo seg point = \<lparr>fkv_entry_offset = kvo, fkv_segment_id = seg,
     fkv_cache_to_truncate = seg, fkv_truncation_point = point\<rparr>"

definition found :: "'e KeyValueWithLogOffset \<Rightarrow> nat \<Rightarrow> nat \<Rightarrow> 'e FoundKeyValue option CallResult" where
  "found kvo seg point = okR (Some (mkFound kvo seg point))"

text \<open>
  The reverse walk over the rolled segments in the search for the first entry \<open>\<ge> x\<close>; \<open>bigger\<close> is
  the segment visited before.
\<close>

fun find_ge_rolled ::
  "'e KeyValueOps \<Rightarrow> ('e \<Rightarrow> int) \<Rightarrow> int \<Rightarrow> (nat \<times> 'e EntryContainer) list \<Rightarrow> nat option
    \<Rightarrow> ('e, 'e FoundKeyValue option CallResult) mapProg" where
  "find_ge_rolled K proj x [] bigger =
     bindE getM (\<lambda>m.
       case pm_segs m of
         (i, c) # _ \<Rightarrow> if c = [] then undefE else retE (found (hd c) i 0)
       | [] \<Rightarrow> if pm_cache m \<noteq> [] then retE (found (hd (pm_cache m)) 0 0) else retE (okR None))"
| "find_ge_rolled K proj x ((i, c) # r) bigger =
    (if c = [] then undefE
     else if proj (kvo_entry (hd c)) = x then retE (found (hd c) i 0)
     else if proj (kvo_entry (hd c)) < x then
       bindE (loadRolledLogSegmentFully K i) (\<lambda>err.
       if err \<noteq> OK then retE (errR None err)
       else bindE getM (\<lambda>m.
         let entry_cache = the (map_of (pm_segs m) i);
             p = lower_bound (\<lambda>kvo. proj (kvo_entry kvo) < x) entry_cache
         in if p \<noteq> length entry_cache then retE (found (entry_cache ! p) i p)
            else case bigger of
                Some j \<Rightarrow>
                  let d = the (map_of (pm_segs m) j)
                  in if d = [] then undefE else retE (found (hd d) j 0)
              | None \<Rightarrow>
                  if pm_cache m = [] then undefE else retE (found (hd (pm_cache m)) 0 0)))
     else find_ge_rolled K proj x r (Some i))"

definition find_ge ::
  "'e KeyValueOps \<Rightarrow> ('e \<Rightarrow> int) \<Rightarrow> int \<Rightarrow> ('e, 'e FoundKeyValue option CallResult) mapProg" where
  "find_ge K proj x =
     bindE getM (\<lambda>m.
       let cache = pm_cache m in
       if cache \<noteq> [] \<and> proj (kvo_entry (last cache)) < x then retE (okR None)
       else if cache \<noteq> [] \<and> proj (kvo_entry (hd cache)) \<le> x then
         let p = lower_bound (\<lambda>kvo. proj (kvo_entry kvo) < x) cache
         in if p = length cache then undefE else retE (found (cache ! p) 0 p)
       else find_ge_rolled K proj x (rev (pm_segs m)) None)"

definition bin_search_le ::
  "('e \<Rightarrow> int) \<Rightarrow> int \<Rightarrow> nat \<Rightarrow> 'e EntryContainer \<Rightarrow> ('e, 'e FoundKeyValue option CallResult) mapProg" where
  "bin_search_le proj x segment_id c =
    (let p = lower_bound (\<lambda>kvo. proj (kvo_entry kvo) < x) c in
     if p = length c then
       if c = [] then undefE else retE (found (last c) segment_id (length c))
     else if proj (kvo_entry (c ! p)) = x then retE (found (c ! p) segment_id p)
     else if p = 0 then undefE
     else retE (found (c ! (p - 1)) segment_id p))"

fun find_le_rolled ::
  "'e KeyValueOps \<Rightarrow> ('e \<Rightarrow> int) \<Rightarrow> int \<Rightarrow> (nat \<times> 'e EntryContainer) list
    \<Rightarrow> ('e, 'e FoundKeyValue option CallResult) mapProg" where
  "find_le_rolled K proj x [] = retE (okR None)"
| "find_le_rolled K proj x ((i, c) # r) =
    (if c = [] then undefE
     else if proj (kvo_entry (hd c)) = x then retE (found (hd c) i 0)
     else if proj (kvo_entry (hd c)) < x then
       bindE (loadRolledLogSegmentFully K i) (\<lambda>err.
       if err \<noteq> OK then retE (errR None err)
       else bindE getM (\<lambda>m. bin_search_le proj x i (the (map_of (pm_segs m) i))))
     else find_le_rolled K proj x r)"

definition find_le ::
  "'e KeyValueOps \<Rightarrow> ('e \<Rightarrow> int) \<Rightarrow> int \<Rightarrow> ('e, 'e FoundKeyValue option CallResult) mapProg" where
  "find_le K proj x =
     bindE getM (\<lambda>m.
       if pm_cache m \<noteq> [] \<and> proj (kvo_entry (hd (pm_cache m))) \<le> x
       then bin_search_le proj x 0 (pm_cache m)
       else find_le_rolled K proj x (rev (pm_segs m)))"

definition findFirstEntryByKey_EqualToOrGreaterThan ::
  "'e KeyValueOps \<Rightarrow> int \<Rightarrow> ('e, 'e FoundKeyValue option CallResult) mapProg" where
  "findFirstEntryByKey_EqualToOrGreaterThan K = find_ge K (kv_key K)"

definition findFirstEntryByKey_LessThanOrEqualTo ::
  "'e KeyValueOps \<Rightarrow> int \<Rightarrow> ('e, 'e FoundKeyValue option CallResult) mapProg" where
  "findFirstEntryByKey_LessThanOrEqualTo K = find_le K (kv_key K)"

definition findFirstEntryByValue_EqualToOrGreaterThan ::
  "'e KeyValueOps \<Rightarrow> int \<Rightarrow> ('e, 'e FoundKeyValue option CallResult) mapProg" where
  "findFirstEntryByValue_EqualToOrGreaterThan K = find_ge K (kv_value K)"

definition findFirstEntryByValue_LessThanOrEqualTo ::
  "'e KeyValueOps \<Rightarrow> int \<Rightarrow> ('e, 'e FoundKeyValue option CallResult) mapProg" where
  "findFirstEntryByValue_LessThanOrEqualTo K = find_le K (kv_value K)"

text \<open>The two templates \<^verbatim>\<open>lowerBound\<close> and \<^verbatim>\<open>leftLowerBound\<close> share what they do with the search.\<close>

definition bound_result ::
  "'e KeyValueOps \<Rightarrow> ('e, 'e FoundKeyValue option CallResult) mapProg \<Rightarrow> ('e, 'e option CallResult) mapProg" where
  "bound_result K search =
     bindE (ensureLoaded K) (\<lambda>err.
     if err \<noteq> OK then retE (errR None err)
     else bindE search (\<lambda>res.
       if \<not> hasError res then retE (okR (map_option (\<lambda>f. kvo_entry (fkv_entry_offset f)) (result res)))
       else retE (errR None (error_code res))))"

definition lowerBound :: "'e KeyValueOps \<Rightarrow> int \<Rightarrow> ('e, 'e option CallResult) mapProg" where
  "lowerBound K key = bound_result K (findFirstEntryByKey_EqualToOrGreaterThan K key)"

definition lowerBoundByValue :: "'e KeyValueOps \<Rightarrow> int \<Rightarrow> ('e, 'e option CallResult) mapProg" where
  "lowerBoundByValue K v = bound_result K (findFirstEntryByValue_EqualToOrGreaterThan K v)"

definition leftLowerBound :: "'e KeyValueOps \<Rightarrow> int \<Rightarrow> ('e, 'e option CallResult) mapProg" where
  "leftLowerBound K key = bound_result K (findFirstEntryByKey_LessThanOrEqualTo K key)"

definition leftLowerBoundByValue :: "'e KeyValueOps \<Rightarrow> int \<Rightarrow> ('e, 'e option CallResult) mapProg" where
  "leftLowerBoundByValue K v = bound_result K (findFirstEntryByValue_LessThanOrEqualTo K v)"

definition last_entry :: "'e KeyValueOps \<Rightarrow> ('e, 'e option CallResult) mapProg" where
  "last_entry K =
     bindE (ensureLoaded K) (\<lambda>err.
     if err \<noteq> OK then retE (errR None err)
     else bindE getM (\<lambda>m.
       if pm_cache m \<noteq> [] then retE (okR (Some (kvo_entry (last (pm_cache m)))))
       else if pm_segs m \<noteq> [] then
         let i = fst (last (pm_segs m)) in
         bindE (loadRolledLogSegmentFully K i) (\<lambda>err.
         if err \<noteq> OK then retE (errR None err)
         else bindE getM (\<lambda>m.
           let c = the (map_of (pm_segs m) i)
           in if c = [] then undefE else retE (okR (Some (kvo_entry (last c))))))
       else retE (okR None)))"

definition prevLast :: "'e KeyValueOps \<Rightarrow> ('e, 'e option CallResult) mapProg" where
  "prevLast K =
     bindE (ensureLoaded K) (\<lambda>err.
     if err \<noteq> OK then retE (errR None err)
     else bindE getM (\<lambda>m.
       if 2 \<le> length (pm_cache m)
       then retE (okR (Some (kvo_entry (pm_cache m ! (length (pm_cache m) - 2)))))
       else if pm_segs m \<noteq> [] then
         let i = fst (last (pm_segs m)) in
         bindE (loadRolledLogSegmentFully K i) (\<lambda>err.
         if err \<noteq> OK then retE (errR None err)
         else bindE getM (\<lambda>m.
           let rcache = the (map_of (pm_segs m) i) in
           if length (pm_cache m) = 1 then
             if rcache = [] then undefE else retE (okR (Some (kvo_entry (last rcache))))
           else if length rcache < 2 then undefE
           else retE (okR (Some (kvo_entry (rcache ! (length rcache - 2)))))))
       else retE (okR None)))"

definition key_of_result :: "'e KeyValueOps \<Rightarrow> 'e option CallResult \<Rightarrow> int option CallResult" where
  "key_of_result K res =
    (if \<not> hasError res then okR (map_option (kv_key K) (result res)) else errR None (error_code res))"

definition lastKey :: "'e KeyValueOps \<Rightarrow> ('e, int option CallResult) mapProg" where
  "lastKey K = bindE (last_entry K) (\<lambda>res. retE (key_of_result K res))"

definition prevLastKey :: "'e KeyValueOps \<Rightarrow> ('e, int option CallResult) mapProg" where
  "prevLastKey K = bindE (prevLast K) (\<lambda>res. retE (key_of_result K res))"

definition first_entry :: "'e KeyValueOps \<Rightarrow> ('e, 'e option CallResult) mapProg" where
  "first_entry K =
     bindE (ensureLoaded K) (\<lambda>err.
     if err \<noteq> OK then retE (errR None err)
     else bindE getM (\<lambda>m.
       case pm_segs m of
         (i, c) # _ \<Rightarrow> if c = [] then undefE else retE (okR (Some (kvo_entry (hd c))))
       | [] \<Rightarrow> if pm_cache m \<noteq> [] then retE (okR (Some (kvo_entry (hd (pm_cache m)))))
               else retE (okR None)))"

section \<open>Removing\<close>

text \<open>
  \<^verbatim>\<open>removeRange\<close> over the ids of the range; the scope guard erases from the map what the loop has
  passed.
\<close>

fun removeRange :: "nat list \<Rightarrow> ('e, ErrorCode) mapProg" where
  "removeRange [] = retE OK"
| "removeRange (i # is) =
     bindE getM (\<lambda>m.
     let segfile = segmentLogPath (filename (pm_log_file m)) i in
     bindE (liftF (sys_remove segfile)) (\<lambda>ec.
       if ec \<noteq> 0 then retE CANNOT_DELETE_FILE
       else bindE (modM (\<lambda>m. m\<lparr>pm_segs := filter (\<lambda>x. fst x \<noteq> i) (pm_segs m)\<rparr>)) (\<lambda>_.
            removeRange is)))"

definition remove_segments :: "'e KeyValueOps \<Rightarrow> nat option \<Rightarrow> ('e, ErrorCode) mapProg" where
  "remove_segments K segment_id =
     bindE (ensureLoaded K) (\<lambda>err.
     if err \<noteq> OK then retE err
     else bindE getM (\<lambda>m.
     bindE (removeRange (filter (\<lambda>i. case segment_id of None \<Rightarrow> True | Some j \<Rightarrow> j \<le> i)
        (map fst (pm_segs m)))) (\<lambda>err.
     if err \<noteq> OK then retE err
     else bindE (liftF (\<lambda>s. case close_file (pm_log_file m) s of (e, f, s') \<Rightarrow> (f, s'))) (\<lambda>f.
     bindE (modM (\<lambda>m. m\<lparr>pm_log_file := f\<rparr>)) (\<lambda>_.
     bindE (liftF (remove_file f)) (\<lambda>ec.
     if ec \<noteq> 0 then retE CANNOT_DELETE_FILE
     else bindE getM (\<lambda>m.
       if pm_segs m \<noteq> [] then
         let (i, c) = last (pm_segs m) in
         bindE (liftP (openFile (segmentLogPath (filename f) i) True False)) (\<lambda>g.
         bindE (liftF (\<lambda>s. case renameTo g (filename f) s of (e, g', s') \<Rightarrow> ((e, g'), s'))) (\<lambda>(ec, g').
         if ec \<noteq> 0 then retE ATOMIC_RENAME_FAIL
         else bindE (modM (\<lambda>m. m\<lparr>pm_log_file := g', pm_cache := c,
                pm_segs := filter (\<lambda>x. fst x \<noteq> i) (pm_segs m)\<rparr>)) (\<lambda>_. retE OK)))
       else
         bindE (modM (\<lambda>m. m\<lparr>pm_loaded := False\<rparr>)) (\<lambda>_.
         bindE (liftP (AppendOnlyFile_open (filename f))) (\<lambda>g.
         bindE (modM (\<lambda>m. m\<lparr>pm_log_file := g, pm_log_size := 0, pm_cache := []\<rparr>)) (\<lambda>_.
         retE OK)))))))))) "

definition remove_all :: "'e KeyValueOps \<Rightarrow> ('e, ErrorCode) mapProg" where
  "remove_all K = remove_segments K None"

definition trim_log ::
  "AppendOnlyFile \<Rightarrow> nat \<Rightarrow> 'e KeyValueWithLogOffset \<Rightarrow> ('e, ErrorCode) mapProg" where
  "trim_log segment_file segment_file_size kvo =
    (if kvo_offset kvo = segment_file_size then retE OK
     else bindE (liftF (truncate_file segment_file (kvo_offset kvo))) (\<lambda>err.
       retE (if err \<noteq> 0 then CANNOT_TRUNCATE_FILE else OK)))"

definition next_segment_id :: "nat \<Rightarrow> 'e PersistentMonoMap \<Rightarrow> nat" where
  "next_segment_id i m =
    (case filter (\<lambda>j. i < j) (map fst (pm_segs m)) of
       j # _ \<Rightarrow> j
     | [] \<Rightarrow> fst (last (pm_segs m)) + 1)"

text \<open>\<^verbatim>\<open>trim\<close> and \<^verbatim>\<open>trimByValue\<close> differ in the search they start with.\<close>

definition trim_tail ::
  "'e KeyValueOps \<Rightarrow> ('e, 'e FoundKeyValue option CallResult) mapProg \<Rightarrow> ('e, ErrorCode) mapProg" where
  "trim_tail K search =
     bindE (ensureLoaded K) (\<lambda>err.
     if err \<noteq> OK then retE err
     else bindE search (\<lambda>res.
       if hasError res then retE (error_code res)
       else case result res of
         None \<Rightarrow> retE OK
       | Some fkv \<Rightarrow>
         let kvo = fkv_entry_offset fkv; i = fkv_segment_id fkv in
         bindE getM (\<lambda>m.
         if i = 0 then
           bindE (trim_log (pm_log_file m) (pm_log_size m) kvo) (\<lambda>err.
           if err \<noteq> OK then retE err
           else if fkv_cache_to_truncate fkv \<noteq> 0 then retE LOGICAL_ERROR
           else bindE (modM (\<lambda>m. m\<lparr>pm_cache := take (fkv_truncation_point fkv) (pm_cache m),
                  pm_log_size := kvo_offset kvo\<rparr>)) (\<lambda>_. retE OK))
         else
           bindE (liftP (openFile (segmentLogPath (filename (pm_log_file m)) i) True False)) (\<lambda>f.
           bindE (liftF (size_file f)) (\<lambda>sz.
           if hasError sz then retE CANNOT_FSTAT
           else bindE (trim_log f (result sz) kvo) (\<lambda>err.
             if err \<noteq> OK then retE err
             else if fkv_cache_to_truncate fkv \<noteq> i then retE LOGICAL_ERROR
             else bindE (modM (\<lambda>m. m\<lparr>pm_segs := segs_update i
                    (take (fkv_truncation_point fkv) (the (map_of (pm_segs m) i))) (pm_segs m)\<rparr>)) (\<lambda>_.
                  bindE getM (\<lambda>m. remove_segments K (Some (next_segment_id i m))))))))))"

definition trim :: "'e KeyValueOps \<Rightarrow> int \<Rightarrow> ('e, ErrorCode) mapProg" where
  "trim K start_key = trim_tail K (findFirstEntryByKey_EqualToOrGreaterThan K start_key)"

definition trimByValue :: "'e KeyValueOps \<Rightarrow> int \<Rightarrow> ('e, ErrorCode) mapProg" where
  "trimByValue K start_value = trim_tail K (findFirstEntryByValue_EqualToOrGreaterThan K start_value)"

text \<open>
  \<^verbatim>\<open>trimHead\<close> and \<^verbatim>\<open>trimHeadByValue\<close>: \<open>k\<close> is the position the iterator over the rolled segments
  stops at.
\<close>

definition trim_head :: "'e KeyValueOps \<Rightarrow> ('e \<Rightarrow> int) \<Rightarrow> int \<Rightarrow> ('e, ErrorCode) mapProg" where
  "trim_head K proj target =
     bindE (ensureLoaded K) (\<lambda>err.
     if err \<noteq> OK then retE err
     else bindE getM (\<lambda>m.
       let ids = map fst (pm_segs m) in
       if pm_cache m \<noteq> [] \<and> proj (kvo_entry (hd (pm_cache m))) \<le> target + 1
       then if pm_segs m \<noteq> [] then removeRange ids else retE OK
       else
         let k = length (takeWhile (\<lambda>ic. snd ic \<noteq> [] \<and> \<not> target \<le> proj (kvo_entry (hd (snd ic)))) (pm_segs m)) in
         if k < length (pm_segs m) \<and> snd (pm_segs m ! k) = [] then undefE
         else if k = 0 then retE OK
         else if k = length (pm_segs m) \<or> target + 1 < proj (kvo_entry (hd (snd (pm_segs m ! k)))) then
           bindE (loadRolledLogSegmentFully K (ids ! (k - 1))) (\<lambda>err.
           if err \<noteq> OK then retE err
           else bindE getM (\<lambda>m.
             let c = the (map_of (pm_segs m) (ids ! (k - 1))) in
             if c = [] then undefE
             else if target < proj (kvo_entry (last c)) then
               if k - 1 = 0 then retE OK else removeRange (take (k - 1) ids)
             else removeRange (take k ids)))
         else removeRange (take k ids)))"

definition trimHead :: "'e KeyValueOps \<Rightarrow> int \<Rightarrow> ('e, ErrorCode) mapProg" where
  "trimHead K target_key = trim_head K (kv_key K) target_key"

definition trimHeadByValue :: "'e KeyValueOps \<Rightarrow> int \<Rightarrow> ('e, ErrorCode) mapProg" where
  "trimHeadByValue K target_value = trim_head K (kv_value K) target_value"

definition close_map :: "('e, int) mapProg" where
  "close_map = bindE getM (\<lambda>m.
     bindE (liftF (\<lambda>s. case close_file (pm_log_file m) s of (e, f, s') \<Rightarrow> ((e, f), s'))) (\<lambda>(e, f).
     bindE (modM (\<lambda>m. m\<lparr>pm_log_file := f\<rparr>)) (\<lambda>_. retE e)))"

section \<open>Loading what was written\<close>

text \<open>The cache of a file that holds \<open>es\<close> from offset \<open>o1\<close> on, for entries of size \<open>sz\<close>.\<close>

fun withOffsets :: "nat \<Rightarrow> nat \<Rightarrow> 'e list \<Rightarrow> 'e EntryContainer" where
  "withOffsets sz o1 [] = []"
| "withOffsets sz o1 (e # es) = \<lparr>kvo_entry = e, kvo_offset = o1\<rparr> # withOffsets sz (o1 + sz) es"

lemma withOffsets_simps [simp]:
  "length (withOffsets sz o1 es) = length es"
  "map kvo_entry (withOffsets sz o1 es) = es"
  "withOffsets sz o1 es = [] \<longleftrightarrow> es = []"
  by (induction es arbitrary: o1) simp_all

lemma withOffsets_append:
  "withOffsets sz o1 (es @ fs) = withOffsets sz o1 es @ withOffsets sz (o1 + length es * sz) fs"
  by (induction es arbitrary: o1) (simp_all add: algebra_simps)

lemma nth_withOffsets:
  "i < length es \<Longrightarrow> withOffsets sz o1 es ! i = \<lparr>kvo_entry = es ! i, kvo_offset = o1 + i * sz\<rparr>"
proof (induction es arbitrary: o1 i)
  case (Cons e es)
  then show ?case by (cases i) simp_all
qed simp

lemma take_withOffsets: "take n (withOffsets sz o1 es) = withOffsets sz o1 (take n es)"
proof (induction es arbitrary: o1 n)
  case (Cons e es)
  then show ?case by (cases n) simp_all
qed simp

lemma hd_withOffsets [simp]: "es \<noteq> [] \<Longrightarrow> hd (withOffsets sz o1 es) = \<lparr>kvo_entry = hd es, kvo_offset = o1\<rparr>"
  by (cases es) simp_all

lemma last_withOffsets [simp]: "es \<noteq> [] \<Longrightarrow> kvo_entry (last (withOffsets sz o1 es)) = last es"
  by (simp add: last_conv_nth nth_withOffsets)

definition keys_ascend :: "('e \<Rightarrow> int) \<Rightarrow> 'e list \<Rightarrow> bool" where
  "keys_ascend f es \<longleftrightarrow> sorted_wrt (<) (map f es)"

lemma keys_ascend_append: "keys_ascend f (es @ fs) \<longleftrightarrow>
    keys_ascend f es \<and> keys_ascend f fs \<and> (\<forall>a \<in> set es. \<forall>b \<in> set fs. f a < f b)"
  by (simp add: keys_ascend_def sorted_wrt_append)

lemma keys_ascend_Cons: "keys_ascend f (e # es) \<longleftrightarrow> keys_ascend f es \<and> (\<forall>b \<in> set es. f e < f b)"
  by (auto simp: keys_ascend_def)

lemma keys_ascend_Nil [simp]: "keys_ascend f []"
  by (simp add: keys_ascend_def)

context mono_key_value
begin

lemma load_entries_encode:
  assumes "\<forall>e \<in> set es. valid e" "keys_ascend (kv_key K) (map kvo_entry c @ es)"
  shows "load_entries K (length es) (encodeKV K es @ r) c file_offset
    = Ret (c @ withOffsets (kv_size K) file_offset es, file_offset + length es * kv_size K, False)"
  using assms
proof (induction es arbitrary: c file_offset)
  case (Cons e es)
  have "c = [] \<or> \<not> kv_less K e (kvo_entry (last c))"
    using Cons.prems(2) key_less_not_greater [of "kvo_entry (last c)" e] by (auto simp: keys_ascend_append)
  moreover have "keys_ascend (kv_key K) (map kvo_entry (c @ [\<lparr>kvo_entry = e, kvo_offset = file_offset\<rparr>]) @ es)"
    using Cons.prems(2) by simp
  ultimately show ?case
    using Cons by (simp add: deserialize_serialize algebra_simps)
qed simp

lemma load_loop_encode:
  assumes "outcomes s = []" "content s (fd f) = Some (encodeKV K es)"
    and "\<forall>e \<in> set es. valid e" "keys_ascend (kv_key K) es" "k \<le> length es" "0 < b"
  shows "load_loop K f (length es * kv_size K) (kv_size K * b) (k * kv_size K)
      (withOffsets (kv_size K) 0 (take k es)) (k * kv_size K) False s
    = (Ret (okR (length es * kv_size K), withOffsets (kv_size K) 0 es), s)"
  using assms(5)
proof (induction "length es - k" arbitrary: k rule: less_induct)
  case less
  show ?case
  proof (cases "k = length es")
    case True
    then show ?thesis by (simp add: load_loop.simps)
  next
    case False
    let ?xs = "take b (drop k es)"
    have lt: "k * kv_size K < length es * kv_size K" using False less.prems size_pos by simp
    have bs: "kv_size K * b = b * kv_size K" by simp
    have rd: "read_file f (kv_size K * b) (k * kv_size K) s = (okR (encodeKV K ?xs), s)"
      using assms(1,2) by (simp add: read_file_quiet bs take_encode drop_encode)
    have n: "length (encodeKV K ?xs) div kv_size K = length ?xs" using size_pos by simp
    have app: "take k es @ ?xs = take (k + b) es" by (simp add: take_add)
    have ld: "load_entries K (length ?xs) (encodeKV K ?xs @ []) (withOffsets (kv_size K) 0 (take k es)) (k * kv_size K)
        = Ret (withOffsets (kv_size K) 0 (take (k + b) es), k * kv_size K + length ?xs * kv_size K, False)"
    proof (subst load_entries_encode)
      show "\<forall>e \<in> set ?xs. valid e" using assms(3) by (meson in_set_dropD in_set_takeD)
      show "keys_ascend (kv_key K) (map kvo_entry (withOffsets (kv_size K) 0 (take k es)) @ ?xs)"
        using assms(4) unfolding withOffsets_simps app
        by (metis append_take_drop_id keys_ascend_append)
      show "Ret (withOffsets (kv_size K) 0 (take k es) @ withOffsets (kv_size K) (k * kv_size K) ?xs,
            k * kv_size K + length ?xs * kv_size K, False)
          = Ret (withOffsets (kv_size K) 0 (take (k + b) es), k * kv_size K + length ?xs * kv_size K, False)"
        using less.prems by (simp add: app [symmetric] withOffsets_append del: app)
    qed
    have ne: "encodeKV K ?xs \<noteq> []"
      using False less.prems assms(6) size_pos length_encode [of ?xs] by (intro notI) simp
    let ?k = "min (k + b) (length es)"
    have "k + length ?xs = ?k" using less.prems by auto
    then have k': "k * kv_size K + length (encodeKV K ?xs) = ?k * kv_size K"
      unfolding length_encode by (metis add_mult_distrib)
    have tk: "take (k + b) es = take ?k es" by (simp add: min_def)
    have "load_loop K f (length es * kv_size K) (kv_size K * b) (?k * kv_size K)
        (withOffsets (kv_size K) 0 (take ?k es)) (?k * kv_size K) False s
      = (Ret (okR (length es * kv_size K), withOffsets (kv_size K) 0 es), s)"
      using False less.prems assms(6) by (intro less.hyps) auto
    then show ?thesis
      using rd ld n ne k' lt tk by (simp add: load_loop.simps [of K f _ _ "k * kv_size K"] Let_def)
  qed
qed

text \<open>
  Loading a file gives back the entries written to it. A torn entry at the end is cut off in the
  file when it is open for writing.
\<close>

lemma loadLogSegment_encode:
  assumes "outcomes s = []" "content s (fd f) = Some (encodeKV K es @ torn)"
    and "length torn < kv_size K" "torn \<noteq> [] \<Longrightarrow> \<not> read_only f"
    and "\<forall>e \<in> set es. valid e" "keys_ascend (kv_key K) es"
  shows "loadLogSegment K f [] s = (Ret (okR (length es * kv_size K), withOffsets (kv_size K) 0 es),
    if torn = [] then s else setContent (fd f) (encodeKV K es) s)"
proof -
  let ?s = "if torn = [] then s else setContent (fd f) (encodeKV K es) s"
  have d: "(length es * kv_size K + length torn) div kv_size K = length es"
    "(length es * kv_size K + length torn) mod kv_size K = length torn"
    using assms(3) size_pos by simp_all
  have tr: "torn \<noteq> [] \<Longrightarrow> truncate_file f (length es * kv_size K) s = (0, ?s)"
    using assms(1,2,4) by (simp add: truncate_file_quiet take_encode)
  have "load_loop K f (length es * kv_size K) (kv_size K * min (length es) 65536) 0 [] 0 False ?s
      = (Ret (okR (length es * kv_size K), withOffsets (kv_size K) 0 es), ?s)"
  proof (cases "es = []")
    case True
    then show ?thesis by (simp add: load_loop.simps)
  next
    case False
    then show ?thesis
      using load_loop_encode [of ?s f es 0 "min (length es) 65536"] assms by simp
  qed
  then show ?thesis
    using assms(1-4) d tr size_file_quiet [OF assms(1,2)]
    by (cases "torn = []") (simp_all add: loadLogSegment_def Let_def)
qed

end

end
