(* ===== verification/Nlog_MonoMap_Search.thy ===== *)
theory Nlog_MonoMap_Search
  imports Nlog_MonoMap
begin

text \<open>
  What the persistent monotonic map represents, and that its searches find it. \<open>map_rel\<close> relates a
  loaded map and the file system to the entries of its rolled segments and of its current segment:
  a rolled segment is in memory in full or with its first entry only, its file holds all of it. The
  searches refine the search in the concatenation of all entries.
\<close>

section \<open>The entries a map stands for\<close>

definition seg_rel ::
  "'e KeyValueOps \<Rightarrow> filesys \<Rightarrow> string \<Rightarrow> nat \<times> 'e EntryContainer \<Rightarrow> 'e list \<Rightarrow> bool" where
  "seg_rel K s base ic full \<longleftrightarrow>
     full \<noteq> [] \<and> content s (segmentLogPath base (fst ic)) = Some (encodeKV K full)
     \<and> (snd ic = withOffsets (kv_size K) 0 full \<or> snd ic = withOffsets (kv_size K) 0 [hd full])"

text \<open>What holds of the entries and segment ids whatever the caches hold.\<close>

definition map_wf ::
  "'e KeyValueOps \<Rightarrow> ('e \<Rightarrow> bool) \<Rightarrow> nat list \<Rightarrow> 'e list list \<Rightarrow> 'e list \<Rightarrow> bool" where
  "map_wf K valid ids fulls cur \<longleftrightarrow>
     sorted_wrt (<) ids \<and> (\<forall>i \<in> set ids. 0 < i \<and> i < 2 ^ 64)
     \<and> keys_ascend (kv_key K) (concat fulls @ cur) \<and> (\<forall>e \<in> set (concat fulls @ cur). valid e)"

definition map_rel ::
  "'e KeyValueOps \<Rightarrow> ('e \<Rightarrow> bool) \<Rightarrow> string \<Rightarrow> 'e PersistentMonoMap \<Rightarrow> filesys \<Rightarrow> 'e list list \<Rightarrow> 'e list \<Rightarrow> bool" where
  "map_rel K valid base m s fulls cur \<longleftrightarrow>
     pm_log_file m = \<lparr>filename = base, read_only = False, fd = base\<rparr>
     \<and> content s base = Some (encodeKV K cur)
     \<and> pm_cache m = withOffsets (kv_size K) 0 cur \<and> pm_log_size m = length cur * kv_size K
     \<and> pm_loaded m \<and> list_all2 (seg_rel K s base) (pm_segs m) fulls
     \<and> map_wf K valid (map fst (pm_segs m)) fulls cur"

lemma map_relD:
  assumes "map_rel K valid base m s fulls cur"
  shows "pm_log_file m = \<lparr>filename = base, read_only = False, fd = base\<rparr>"
    "content s base = Some (encodeKV K cur)" "pm_cache m = withOffsets (kv_size K) 0 cur"
    "pm_log_size m = length cur * kv_size K" "pm_loaded m"
    "list_all2 (seg_rel K s base) (pm_segs m) fulls" "length fulls = length (pm_segs m)"
    "map_wf K valid (map fst (pm_segs m)) fulls cur"
    "sorted_wrt (<) (map fst (pm_segs m))" "distinct (map fst (pm_segs m))"
  using assms
  by (auto simp: map_rel_def map_wf_def list_all2_lengthD strict_sorted_iff)

lemma map_rel_seg:
  assumes "map_rel K valid base m s fulls cur" "n < length fulls"
  shows "seg_rel K s base (pm_segs m ! n) (fulls ! n)" and "fulls ! n \<noteq> []"
    and "snd (pm_segs m ! n) \<noteq> []" and "kvo_entry (hd (snd (pm_segs m ! n))) = hd (fulls ! n)"
    and "hd (snd (pm_segs m ! n)) = \<lparr>kvo_entry = hd (fulls ! n), kvo_offset = 0\<rparr>"
    and "0 < fst (pm_segs m ! n)"
proof -
  from map_relD(6,7) [OF assms(1)] assms(2)
  show *: "seg_rel K s base (pm_segs m ! n) (fulls ! n)" by (simp add: list_all2_nthD)
  then show "fulls ! n \<noteq> []" "snd (pm_segs m ! n) \<noteq> []"
    "kvo_entry (hd (snd (pm_segs m ! n))) = hd (fulls ! n)"
    "hd (snd (pm_segs m ! n)) = \<lparr>kvo_entry = hd (fulls ! n), kvo_offset = 0\<rparr>"
    by (auto simp: seg_rel_def)
  show "0 < fst (pm_segs m ! n)"
    using map_relD(7,8) [OF assms(1)] assms(2) by (simp add: map_wf_def)
qed

lemma map_of_segs_nth:
  assumes "distinct (map fst xs)" "n < length xs"
  shows "map_of xs (fst (xs ! n)) = Some (snd (xs ! n))"
  using assms by (metis map_of_is_SomeI nth_mem prod.collapse)

lemma segs_update_nth:
  assumes "distinct (map fst xs)" "n < length xs"
  shows "segs_update (fst (xs ! n)) c xs = xs[n := (fst (xs ! n), c)]"
proof (rule nth_equalityI)
  fix k
  assume k: "k < length (segs_update (fst (xs ! n)) c xs)"
  have "fst (xs ! k) = fst (xs ! n) \<longleftrightarrow> k = n"
    using assms k nth_eq_iff_index_eq [of "map fst xs" k n] by (simp add: segs_update_def)
  then show "segs_update (fst (xs ! n)) c xs ! k = xs[n := (fst (xs ! n), c)] ! k"
    using k assms(2) by (auto simp: segs_update_def nth_list_update split: prod.splits)
qed (simp add: segs_update_def)

text \<open>A map whose caches of rolled segments are the only thing that may have changed.\<close>

definition same_but_segs :: "'e PersistentMonoMap \<Rightarrow> 'e PersistentMonoMap \<Rightarrow> bool" where
  "same_but_segs m m' \<longleftrightarrow> m' = m\<lparr>pm_segs := pm_segs m'\<rparr> \<and> map fst (pm_segs m') = map fst (pm_segs m)"

lemma same_but_segs_refl [simp]: "same_but_segs m m"
  by (simp add: same_but_segs_def)

lemma same_but_segs_trans: "same_but_segs m m1 \<Longrightarrow> same_but_segs m1 m2 \<Longrightarrow> same_but_segs m m2"
  by (cases m; cases m1; cases m2) (simp add: same_but_segs_def)

lemma same_but_segsD:
  assumes "same_but_segs m m'"
  shows "pm_cache m' = pm_cache m" "pm_log_file m' = pm_log_file m" "pm_log_size m' = pm_log_size m"
    "pm_max_size m' = pm_max_size m" "pm_loaded m' = pm_loaded m"
    "map fst (pm_segs m') = map fst (pm_segs m)" "length (pm_segs m') = length (pm_segs m)"
proof -
  from assms have e: "m' = m\<lparr>pm_segs := pm_segs m'\<rparr>" and f: "map fst (pm_segs m') = map fst (pm_segs m)"
    by (simp_all add: same_but_segs_def)
  show "pm_cache m' = pm_cache m" "pm_log_file m' = pm_log_file m" "pm_log_size m' = pm_log_size m"
    "pm_max_size m' = pm_max_size m" "pm_loaded m' = pm_loaded m"
    by (subst e, simp)+
  show "map fst (pm_segs m') = map fst (pm_segs m)" by (rule f)
  then show "length (pm_segs m') = length (pm_segs m)" using map_eq_imp_length_eq by blast
qed

lemma ensureLoaded_loaded [simp]: "pm_loaded m \<Longrightarrow> ensureLoaded K (m, s) = (Ret OK, (m, s))"
  by (simp add: ensureLoaded_def)

context mono_key_value
begin

lemma loadRolledLogSegmentFully_rel:
  assumes rel: "map_rel K valid base m s fulls cur" and q: "outcomes s = []" and n: "n < length fulls"
  shows "\<exists>m'. loadRolledLogSegmentFully K (fst (pm_segs m ! n)) (m, s) = (Ret OK, (m', s))
    \<and> map_rel K valid base m' s fulls cur \<and> same_but_segs m m'
    \<and> snd (pm_segs m' ! n) = withOffsets (kv_size K) 0 (fulls ! n)
    \<and> (\<forall>k < length fulls. k \<noteq> n \<longrightarrow> pm_segs m' ! k = pm_segs m ! k)"
proof -
  let ?i = "fst (pm_segs m ! n)" and ?c = "withOffsets (kv_size K) 0 (fulls ! n)"
  let ?m = "m\<lparr>pm_segs := (pm_segs m)[n := (?i, ?c)]\<rparr>"
  note D = map_relD [OF rel] and S = map_rel_seg [OF rel n]
  have n': "n < length (pm_segs m)" using n D(7) by simp
  have seg: "seg_rel K s base (?i, ?c) (fulls ! n)" using S(1) by (simp add: seg_rel_def)
  have ids: "map fst (pm_segs ?m) = map fst (pm_segs m)"
    by (simp add: map_update list_update_same_conv n')
  have "list_all2 (seg_rel K s base) (pm_segs ?m) fulls"
    using list_all2_update_cong [OF D(6) seg, of n] by simp
  then have rel': "map_rel K valid base ?m s fulls cur" using rel ids by (simp add: map_rel_def)
  have same: "same_but_segs m ?m" using ids by (simp add: same_but_segs_def)
  have run: "loadRolledLogSegmentFully K ?i (m, s) = (Ret OK, (?m, s))"
  proof (cases "1 < length (snd (pm_segs m ! n))")
    case True
    then have "snd (pm_segs m ! n) = ?c" using S(1) by (auto simp: seg_rel_def)
    then have "?m = m" by (metis list_update_id prod.collapse PersistentMonoMap.surjective PersistentMonoMap.update_convs(3))
    then show ?thesis using True map_of_segs_nth [OF D(10) n'] by (simp add: loadRolledLogSegmentFully_def)
  next
    case False
    let ?p = "segmentLogPath base ?i"
    let ?f = "\<lparr>filename = ?p, read_only = True, fd = ?p\<rparr>"
    have "content s (fd ?f) = Some (encodeKV K (fulls ! n) @ [])" using S(1) by (simp add: seg_rel_def)
    moreover have "\<forall>e \<in> set (fulls ! n). valid e"
      using D(8) nth_mem [OF n] by (auto simp: map_wf_def)
    moreover have "keys_ascend (kv_key K) (fulls ! n)"
      using D(8) id_take_nth_drop [OF n] unfolding map_wf_def
      by (metis concat_append concat.simps(2) keys_ascend_append)
    ultimately have ld: "loadLogSegment K ?f [] s
        = (Ret (okR (length (fulls ! n) * kv_size K), ?c), s)"
      using loadLogSegment_encode [OF q, of ?f "fulls ! n" "[]"] size_pos by simp
    show ?thesis
      using False map_of_segs_nth [OF D(10) n'] D(1) ld openFile_quiet [OF q, of ?p True] S(1)
      by (simp add: loadRolledLogSegmentFully_def seg_rel_def segs_update_nth [OF D(10) n'])
  qed
  show ?thesis
    by (intro exI [of _ ?m] conjI run rel' same) (use n' in auto)
qed

end

section \<open>Finding the first entry that reaches a bound\<close>

text \<open>
  Where a search for the first entry with \<open>proj \<ge> x\<close> must point: into the current segment when no
  rolled entry qualifies, otherwise into the first rolled segment with an entry that does. Unless it
  is at the front, the segment is in memory.
\<close>

definition located ::
  "'e KeyValueOps \<Rightarrow> ('e \<Rightarrow> int) \<Rightarrow> int \<Rightarrow> 'e PersistentMonoMap \<Rightarrow> 'e list list \<Rightarrow> 'e list
    \<Rightarrow> 'e FoundKeyValue \<Rightarrow> bool" where
  "located K proj x m fulls cur f \<longleftrightarrow>
    (let p = fkv_truncation_point f; i = fkv_segment_id f in
     fkv_cache_to_truncate f = i \<and>
     (if i = 0 then (\<forall>e \<in> set (concat fulls). proj e < x)
        \<and> p = length (takeWhile (\<lambda>e. proj e < x) cur) \<and> p < length cur
        \<and> fkv_entry_offset f = \<lparr>kvo_entry = cur ! p, kvo_offset = p * kv_size K\<rparr>
      else \<exists>n < length fulls. i = fst (pm_segs m ! n)
        \<and> (\<forall>e \<in> set (concat (take n fulls)). proj e < x)
        \<and> p = length (takeWhile (\<lambda>e. proj e < x) (fulls ! n)) \<and> p < length (fulls ! n)
        \<and> fkv_entry_offset f = \<lparr>kvo_entry = fulls ! n ! p, kvo_offset = p * kv_size K\<rparr>
        \<and> (p = 0 \<or> snd (pm_segs m ! n) = withOffsets (kv_size K) 0 (fulls ! n))))"

lemma find_append_none: "\<forall>e \<in> set xs. \<not> P e \<Longrightarrow> find P (xs @ ys) = find P ys"
  by (induction xs) auto

lemma find_takeWhile:
  "length (takeWhile (\<lambda>e. \<not> P e) xs) < length xs \<Longrightarrow>
    find P (xs @ ys) = Some (xs ! length (takeWhile (\<lambda>e. \<not> P e) xs))"
  by (induction xs) auto

lemma concat_split_nth: "n < length xs \<Longrightarrow> concat xs = concat (take n xs) @ xs ! n @ concat (drop (Suc n) xs)"
  by (metis concat.simps(2) concat_append id_take_nth_drop)

lemma located_find:
  assumes "located K proj x m fulls cur f"
  shows "find (\<lambda>e. x \<le> proj e) (concat fulls @ cur) = Some (kvo_entry (fkv_entry_offset f))"
proof (cases "fkv_segment_id f = 0")
  case True
  then show ?thesis
    using assms find_takeWhile [of "\<lambda>e. x \<le> proj e" cur "[]"]
    by (subst find_append_none) (auto simp: located_def Let_def not_le)
next
  case False
  then obtain n where n: "n < length fulls" "\<forall>e \<in> set (concat (take n fulls)). proj e < x"
    "length (takeWhile (\<lambda>e. proj e < x) (fulls ! n)) < length (fulls ! n)"
    "kvo_entry (fkv_entry_offset f) = fulls ! n ! length (takeWhile (\<lambda>e. proj e < x) (fulls ! n))"
    using assms by (auto simp: located_def Let_def)
  then show ?thesis
    using find_takeWhile [of "\<lambda>e. x \<le> proj e" "fulls ! n" "concat (drop (Suc n) fulls) @ cur"]
    by (subst concat_split_nth [OF n(1)], unfold append_assoc, subst find_append_none)
      (auto simp: not_le)
qed

lemma lower_bound_withOffsets:
  assumes "keys_ascend proj es"
  shows "lower_bound (\<lambda>kvo. proj (kvo_entry kvo) < x) (withOffsets sz o1 es)
    = length (takeWhile (\<lambda>e. proj e < x) es)"
proof -
  have "map (\<lambda>k. proj (kvo_entry k)) (withOffsets sz o1 es) = map proj es"
    by (induction es arbitrary: o1) simp_all
  then have "partitioned (\<lambda>kvo. proj (kvo_entry kvo) < x) (withOffsets sz o1 es)"
    using assms by (intro partitioned_less) (simp add: keys_ascend_def)
  moreover have "length (takeWhile (\<lambda>kvo. proj (kvo_entry kvo) < x) (withOffsets sz o1 es))
      = length (takeWhile (\<lambda>e. proj e < x) es)"
    by (induction es arbitrary: o1) simp_all
  ultimately show ?thesis by (simp add: lower_bound_partitioned)
qed

lemma keys_ascend_nth:
  assumes "keys_ascend proj (concat fulls @ cur)" "n < length fulls"
  shows "keys_ascend proj (fulls ! n)"
    and "\<forall>a \<in> set (concat (take n fulls)). \<forall>b \<in> set (fulls ! n). proj a < proj b"
    and "\<forall>a \<in> set (fulls ! n). \<forall>b \<in> set (concat (drop (Suc n) fulls) @ cur). proj a < proj b"
proof -
  have e: "concat fulls @ cur = concat (take n fulls) @ fulls ! n @ (concat (drop (Suc n) fulls) @ cur)"
    using concat_split_nth [OF assms(2)] by simp
  note * = assms(1) [unfolded e keys_ascend_append [of _ "concat (take n fulls)"]
      keys_ascend_append [of _ "fulls ! n"]]
  show "keys_ascend proj (fulls ! n)" using * by blast
  show "\<forall>a \<in> set (concat (take n fulls)). \<forall>b \<in> set (fulls ! n). proj a < proj b" using * by simp
  show "\<forall>a \<in> set (fulls ! n). \<forall>b \<in> set (concat (drop (Suc n) fulls) @ cur). proj a < proj b"
    using * by blast
qed

lemma keys_ascend_hd: "keys_ascend proj es \<Longrightarrow> e \<in> set es \<Longrightarrow> proj (hd es) \<le> proj e"
  by (cases es) (auto simp: keys_ascend_Cons less_imp_le)

lemma keys_ascend_last: "keys_ascend proj es \<Longrightarrow> e \<in> set es \<Longrightarrow> proj e \<le> proj (last es)"
proof (induction es rule: rev_induct)
  case (snoc y ys)
  then show ?case by (auto simp: keys_ascend_append less_imp_le)
qed simp

lemma takeWhile_length_less: "e \<in> set xs \<Longrightarrow> \<not> P e \<Longrightarrow> length (takeWhile P xs) < length xs"
  by (induction xs) auto

lemma takeWhile_length_full: "length (takeWhile P xs) = length xs \<Longrightarrow> \<forall>e \<in> set xs. P e"
  using takeWhile_length_less [of _ xs P] by (metis less_irrefl)

lemma takeWhile_nth_holds: "j < length (takeWhile P xs) \<Longrightarrow> P (xs ! j)"
  using takeWhile_nth [of j P xs] nth_mem [of j "takeWhile P xs"] set_takeWhileD [of "xs ! j" P xs] by simp

lemma takeWhile_none: "es \<noteq> [] \<Longrightarrow> \<not> P (hd es) \<Longrightarrow> takeWhile P es = []"
  by (cases es) simp_all

context mono_key_value
begin

text \<open>What a search for the first entry \<open>\<ge> x\<close> comes to.\<close>

definition ge_result ::
  "('e \<Rightarrow> int) \<Rightarrow> int \<Rightarrow> string \<Rightarrow> 'e PersistentMonoMap \<Rightarrow> filesys \<Rightarrow> 'e list list \<Rightarrow> 'e list
    \<Rightarrow> 'e FoundKeyValue option CallResult exec \<times> 'e PersistentMonoMap \<times> filesys \<Rightarrow> bool" where
  "ge_result proj x base m s fulls cur out \<longleftrightarrow>
    (\<exists>m' r. out = (Ret (okR r), (m', s)) \<and> map_rel K valid base m' s fulls cur \<and> same_but_segs m m'
      \<and> (case r of None \<Rightarrow> \<forall>e \<in> set (concat fulls @ cur). proj e < x
                 | Some f \<Rightarrow> located K proj x m' fulls cur f))"

lemma ge_result_none:
  "map_rel K valid base m s fulls cur \<Longrightarrow> \<forall>e \<in> set (concat fulls @ cur). proj e < x \<Longrightarrow>
    ge_result proj x base m s fulls cur (Ret (okR None), (m, s))"
  by (auto simp: ge_result_def)

lemma ge_result_found:
  "map_rel K valid base m' s fulls cur \<Longrightarrow> same_but_segs m m' \<Longrightarrow> located K proj x m' fulls cur (mkFound kvo i p) \<Longrightarrow>
    ge_result proj x base m s fulls cur (Ret (found kvo i p), (m', s))"
  by (auto simp: ge_result_def found_def)

lemma located_cur:
  assumes "\<forall>e \<in> set (concat fulls). proj e < x" "p = length (takeWhile (\<lambda>e. proj e < x) cur)" "p < length cur"
  shows "located K proj x m fulls cur (mkFound (withOffsets (kv_size K) 0 cur ! p) 0 p)"
  using assms by (simp add: located_def mkFound_def nth_withOffsets)

lemma located_cur_front:
  assumes "\<forall>e \<in> set (concat fulls). proj e < x" "cur \<noteq> []" "x \<le> proj (hd cur)"
  shows "located K proj x m fulls cur (mkFound \<lparr>kvo_entry = hd cur, kvo_offset = 0\<rparr> 0 0)"
  using assms by (simp add: located_def mkFound_def takeWhile_none hd_conv_nth)

lemma located_rolled:
  assumes "n < length fulls" "0 < i" "i = fst (pm_segs m ! n)" "\<forall>e \<in> set (concat (take n fulls)). proj e < x"
    and "p = length (takeWhile (\<lambda>e. proj e < x) (fulls ! n))" "p < length (fulls ! n)"
    and "snd (pm_segs m ! n) = withOffsets (kv_size K) 0 (fulls ! n)"
  shows "located K proj x m fulls cur (mkFound (withOffsets (kv_size K) 0 (fulls ! n) ! p) i p)"
  unfolding located_def mkFound_def Let_def using assms by (auto simp: nth_withOffsets intro!: exI [of _ n])

lemma located_rolled_front:
  assumes "map_rel K valid base m s fulls cur" "n < length fulls" "i = fst (pm_segs m ! n)"
    and "\<forall>e \<in> set (concat (take n fulls)). proj e < x" "x \<le> proj (hd (fulls ! n))"
  shows "located K proj x m fulls cur (mkFound (hd (snd (pm_segs m ! n))) i 0)"
  unfolding located_def mkFound_def Let_def
  using assms map_rel_seg [OF assms(1,2)]
  by (auto simp: takeWhile_none hd_conv_nth intro!: exI [of _ n])

text \<open>A segment whose first entry is below \<open>x\<close>: it is loaded and searched, and if all of it is below
  \<open>x\<close> the segment behind it is taken.\<close>

lemma find_ge_rolled_load:
  assumes rel: "map_rel K valid base m s fulls cur" and q: "outcomes s = []"
    and asc: "keys_ascend proj (concat fulls @ cur)" and cur: "cur \<noteq> [] \<or> fulls = []"
    and front: "cur \<noteq> [] \<Longrightarrow> x < proj (hd cur)" and n: "n < length fulls"
    and above: "\<forall>k. Suc n \<le> k \<longrightarrow> k < length fulls \<longrightarrow> x < proj (hd (fulls ! k))"
    and bigger: "bigger = (if Suc n < length fulls then Some (fst (pm_segs m ! Suc n)) else None)"
    and lt: "proj (hd (fulls ! n)) < x" and ic: "pm_segs m ! n = (i, c)"
  shows "ge_result proj x base m s fulls cur (find_ge_rolled K proj x ((i, c) # r) bigger (m, s))"
proof -
  note D = map_relD [OF rel] and S = map_rel_seg [OF rel n] and A = keys_ascend_nth [OF asc n]
  have before: "\<forall>e \<in> set (concat (take n fulls)). proj e < x"
    using A(2) S(2) lt by (metis hd_in_set less_trans)
  obtain m' where ld: "loadRolledLogSegmentFully K i (m, s) = (Ret OK, (m', s))"
    and rel': "map_rel K valid base m' s fulls cur" and same: "same_but_segs m m'"
    and full: "snd (pm_segs m' ! n) = withOffsets (kv_size K) 0 (fulls ! n)"
    using loadRolledLogSegmentFully_rel [OF rel q n] ic by auto
  note D' = map_relD [OF rel'] and E = same_but_segsD [OF same]
  have fst': "fst (pm_segs m' ! k) = fst (pm_segs m ! k)" if "k < length fulls" for k
    using E(6) D(7) D'(7) that by (metis nth_map)
  have mo: "map_of (pm_segs m') (fst (pm_segs m' ! k)) = Some (snd (pm_segs m' ! k))" if "k < length fulls" for k
    using map_of_segs_nth [OF D'(10)] that D'(7) by simp
  let ?p = "length (takeWhile (\<lambda>e. proj e < x) (fulls ! n))"
  have lb: "lower_bound (\<lambda>kvo. proj (kvo_entry kvo) < x) (withOffsets (kv_size K) 0 (fulls ! n)) = ?p"
    using A(1) by (rule lower_bound_withOffsets)
  have mi: "map_of (pm_segs m') i = Some (withOffsets (kv_size K) 0 (fulls ! n))"
    using mo [OF n] fst' [OF n] full ic by simp
  show ?thesis
  proof (cases "?p = length (fulls ! n)")
    case False
    then have p: "?p < length (fulls ! n)" using length_takeWhile_le [of _ "fulls ! n"] le_neq_implies_less by blast
    have "located K proj x m' fulls cur (mkFound (withOffsets (kv_size K) 0 (fulls ! n) ! ?p) i ?p)"
      using n S(6) ic fst' [OF n] before p full by (intro located_rolled) auto
    then show ?thesis
      using lt S ic ld mi lb False ge_result_found [OF rel' same] by (simp add: Let_def)
  next
    case True
    then have "\<forall>e \<in> set (fulls ! n). proj e < x" by (rule takeWhile_length_full)
    then have upto: "\<forall>e \<in> set (concat (take (Suc n) fulls)). proj e < x"
      using before n by (auto simp: take_Suc_conv_app_nth)
    show ?thesis
    proof (cases "Suc n < length fulls")
      case sn: True
      have "located K proj x m' fulls cur (mkFound (hd (snd (pm_segs m' ! Suc n))) (fst (pm_segs m ! Suc n)) 0)"
        using sn fst' [OF sn] upto above by (intro located_rolled_front [OF rel']) (auto simp: less_imp_le)
      then show ?thesis
        using lt S ic ld mi lb True ge_result_found [OF rel' same] bigger sn mo [OF sn] fst' [OF sn]
          map_rel_seg(3) [OF rel' sn] by (simp add: Let_def)
    next
      case False
      then have all: "take (Suc n) fulls = fulls" and ne: "cur \<noteq> []" using n cur by auto
      have "located K proj x m' fulls cur (mkFound \<lparr>kvo_entry = hd cur, kvo_offset = 0\<rparr> 0 0)"
        using upto ne front unfolding all by (intro located_cur_front) (auto simp: less_imp_le)
      then show ?thesis
        using lt S ic ld mi lb True ge_result_found [OF rel' same] bigger False D'(3) ne by (simp add: Let_def)
    qed
  qed
qed

text \<open>The reverse walk.\<close>

lemma find_ge_rolled_rel:
  assumes rel: "map_rel K valid base m s fulls cur" and q: "outcomes s = []"
    and asc: "keys_ascend proj (concat fulls @ cur)" and cur: "cur \<noteq> [] \<or> fulls = []"
    and front: "cur \<noteq> [] \<Longrightarrow> x < proj (hd cur)"
  shows "n \<le> length fulls \<Longrightarrow> \<forall>k. n \<le> k \<longrightarrow> k < length fulls \<longrightarrow> x < proj (hd (fulls ! k)) \<Longrightarrow>
    bigger = (if n < length fulls then Some (fst (pm_segs m ! n)) else None) \<Longrightarrow>
    ge_result proj x base m s fulls cur (find_ge_rolled K proj x (rev (take n (pm_segs m))) bigger (m, s))"
proof (induction n arbitrary: bigger)
  case 0
  note D = map_relD [OF rel]
  show ?case
  proof (cases "fulls = []")
    case True
    then show ?thesis
      using D front rel located_cur_front [of fulls proj x cur m] ge_result_found [OF rel same_but_segs_refl]
        ge_result_none [OF rel]
      by (cases "cur = []") (auto simp: less_imp_le)
  next
    case False
    then have l: "0 < length fulls" by simp
    obtain i c r where segs: "pm_segs m = (i, c) # r" using False D(7) by (cases "pm_segs m") auto
    have "located K proj x m fulls cur (mkFound (hd (snd (pm_segs m ! 0))) i 0)"
      using segs 0(2) l by (intro located_rolled_front [OF rel l]) (auto simp: less_imp_le)
    then show ?thesis
      using map_rel_seg(3) [OF rel l] segs ge_result_found [OF rel same_but_segs_refl] by simp
  qed
next
  case (Suc n)
  have n: "n < length fulls" using Suc.prems(1) by simp
  note S = map_rel_seg [OF rel n] and A = keys_ascend_nth [OF asc n]
  obtain i c where ic: "pm_segs m ! n = (i, c)" by fastforce
  have tk: "rev (take (Suc n) (pm_segs m)) = (i, c) # rev (take n (pm_segs m))"
    using n map_relD(7) [OF rel] ic by (simp add: take_Suc_conv_app_nth)
  consider (eq) "proj (hd (fulls ! n)) = x" | (lt) "proj (hd (fulls ! n)) < x" | (gt) "x < proj (hd (fulls ! n))"
    by linarith
  then show ?case
  proof cases
    case eq
    then have "\<forall>e \<in> set (concat (take n fulls)). proj e < x" using A(2) S(2) by (metis hd_in_set)
    then have "located K proj x m fulls cur (mkFound (hd (snd (pm_segs m ! n))) i 0)"
      using n ic eq by (intro located_rolled_front [OF rel n]) auto
    then show ?thesis using S tk ic eq ge_result_found [OF rel same_but_segs_refl] by simp
  next
    case gt
    then have "\<forall>k. n \<le> k \<longrightarrow> k < length fulls \<longrightarrow> x < proj (hd (fulls ! k))"
      using Suc.prems(2) by (metis Suc_leI le_neq_implies_less)
    then have "ge_result proj x base m s fulls cur (find_ge_rolled K proj x (rev (take n (pm_segs m))) (Some i) (m, s))"
      using n ic by (intro Suc.IH) auto
    then show ?thesis using gt S tk ic by simp
  next
    case lt
    then show ?thesis
      unfolding tk using Suc.prems(2,3) find_ge_rolled_load [OF rel q asc cur front n _ _ lt ic] by blast
  qed
qed

lemma find_ge_rel:
  assumes rel: "map_rel K valid base m s fulls cur" and q: "outcomes s = []"
    and asc: "keys_ascend proj (concat fulls @ cur)" and cur: "cur \<noteq> [] \<or> fulls = []"
  shows "ge_result proj x base m s fulls cur (find_ge K proj x (m, s))"
proof -
  note D = map_relD [OF rel]
  have asc': "keys_ascend proj cur" and gt: "\<forall>a \<in> set (concat fulls). \<forall>b \<in> set cur. proj a < proj b"
    using asc by (simp_all add: keys_ascend_append)
  consider (below) "cur \<noteq> []" "proj (last cur) < x"
    | (active) "cur \<noteq> []" "x \<le> proj (last cur)" "proj (hd cur) \<le> x"
    | (rolled) "cur \<noteq> [] \<Longrightarrow> x < proj (hd cur)" "cur = [] \<or> x \<le> proj (last cur)" by fastforce
  then show ?thesis
  proof cases
    case below
    then have "\<forall>e \<in> set (concat fulls @ cur). proj e < x"
      using keys_ascend_last [OF asc] by fastforce
    then show ?thesis using below D(3) ge_result_none [OF rel] by (simp add: find_ge_def Let_def)
  next
    case active
    let ?p = "length (takeWhile (\<lambda>e. proj e < x) cur)"
    have p: "?p < length cur" using active takeWhile_length_less [of "last cur" cur] by simp
    have "\<forall>e \<in> set (concat fulls). proj e < x" using gt active by (meson hd_in_set less_le_trans)
    then have "located K proj x m fulls cur (mkFound (withOffsets (kv_size K) 0 cur ! ?p) 0 ?p)"
      using p by (intro located_cur) auto
    then show ?thesis
      using active D(3) p lower_bound_withOffsets [OF asc', of x "kv_size K" 0]
        ge_result_found [OF rel same_but_segs_refl]
      by (simp add: find_ge_def Let_def not_less)
  next
    case rolled
    have "ge_result proj x base m s fulls cur
        (find_ge_rolled K proj x (rev (take (length fulls) (pm_segs m))) None (m, s))"
      using rolled(1) by (intro find_ge_rolled_rel [OF rel q asc cur]) auto
    moreover have "\<not> (cur \<noteq> [] \<and> proj (last cur) < x)" "\<not> (cur \<noteq> [] \<and> proj (hd cur) \<le> x)"
      using rolled by auto
    ultimately show ?thesis
      using D(3,7) by (cases "cur = []") (simp_all add: find_ge_def Let_def)
  qed
qed

end

section \<open>Finding the last entry up to a bound\<close>

lemma find_rev_nth:
  assumes "k < length es" "P (es ! k)" "\<And>j. k < j \<Longrightarrow> j < length es \<Longrightarrow> \<not> P (es ! j)"
  shows "find P (rev (pre @ es)) = Some (es ! k)"
proof -
  have "rev (pre @ es) = rev (drop (Suc k) es) @ es ! k # rev (pre @ take k es)"
    using id_take_nth_drop [OF assms(1)] by (metis append_assoc append_Cons append_Nil rev_append rev.simps(2))
  moreover have "\<forall>e \<in> set (rev (drop (Suc k) es)). \<not> P e"
    using assms(3) by (auto simp: in_set_conv_nth)
  ultimately show ?thesis using assms(2) by (simp add: find_append_none)
qed

lemma find_rev_none: "\<forall>e \<in> set ys. \<not> P e \<Longrightarrow> find P (rev (xs @ ys)) = find P (rev xs)"
  by (simp add: find_append_none)

lemma keys_ascend_nth_less:
  "keys_ascend proj es \<Longrightarrow> j < k \<Longrightarrow> k < length es \<Longrightarrow> proj (es ! j) < proj (es ! k)"
  by (simp add: keys_ascend_def sorted_wrt_iff_nth_less)

definition le_result ::
  "'e KeyValueOps \<Rightarrow> ('e \<Rightarrow> bool) \<Rightarrow> ('e \<Rightarrow> int) \<Rightarrow> int \<Rightarrow> string \<Rightarrow> 'e PersistentMonoMap \<Rightarrow> filesys \<Rightarrow> 'e list list \<Rightarrow> 'e list
    \<Rightarrow> 'e FoundKeyValue option CallResult exec \<times> 'e PersistentMonoMap \<times> filesys \<Rightarrow> bool" where
  "le_result K valid proj x base m s fulls cur out \<longleftrightarrow>
    (\<exists>m' r. out = (Ret (okR r), (m', s)) \<and> map_rel K valid base m' s fulls cur \<and> same_but_segs m m'
      \<and> map_option (\<lambda>f. kvo_entry (fkv_entry_offset f)) r = find (\<lambda>e. proj e \<le> x) (rev (concat fulls @ cur)))"

lemma bin_search_le_found:
  assumes asc: "keys_ascend proj es" and ne: "es \<noteq> []" "proj (hd es) \<le> x"
  shows "\<exists>k p. k < length es \<and> bin_search_le proj x i (withOffsets sz 0 es) st = (Ret (found (withOffsets sz 0 es ! k) i p), st)
    \<and> proj (es ! k) \<le> x \<and> (\<forall>j. k < j \<longrightarrow> j < length es \<longrightarrow> \<not> proj (es ! j) \<le> x)"
proof -
  define p where "p = length (takeWhile (\<lambda>e. proj e < x) es)"
  have lb: "lower_bound (\<lambda>kvo. proj (kvo_entry kvo) < x) (withOffsets sz 0 es) = p"
    unfolding p_def by (rule lower_bound_withOffsets [OF asc])
  have le: "p \<le> length es" by (simp add: p_def length_takeWhile_le)
  have lt: "proj (es ! j) < x" if "j < p" for j
    using that takeWhile_nth_holds [of j "\<lambda>e. proj e < x" es] by (simp add: p_def)
  have ge: "p < length es \<Longrightarrow> x \<le> proj (es ! p)"
    using nth_length_takeWhile [of "\<lambda>e. proj e < x" es] by (simp add: p_def)
  show ?thesis
  proof (cases "p < length es \<and> proj (es ! p) = x")
    case True
    then have "bin_search_le proj x i (withOffsets sz 0 es) st = (Ret (found (withOffsets sz 0 es ! p) i p), st)"
      using lb by (simp add: bin_search_le_def Let_def nth_withOffsets)
    then show ?thesis
      using True keys_ascend_nth_less [OF asc, of p] by (intro exI [of _ p]) (auto simp: not_le)
  next
    case False
    have p: "p \<noteq> 0"
    proof
      assume "p = 0"
      then have "x \<le> proj (es ! 0)" using ge ne(1) by simp
      then show False using False ne \<open>p = 0\<close> by (simp add: hd_conv_nth)
    qed
    have above: "x < proj (es ! j)" if "p - 1 < j" "j < length es" for j
      using that False ge keys_ascend_nth_less [OF asc, of p j] by (cases "j = p") fastforce+
    have "bin_search_le proj x i (withOffsets sz 0 es) st = (Ret (found (withOffsets sz 0 es ! (p - 1)) i p), st)"
      using lb False ne p le
      by (cases "p = length es") (simp_all add: bin_search_le_def Let_def last_conv_nth nth_withOffsets)
    then show ?thesis
      using lt [of "p - 1"] above p le
      by (intro exI [of _ "p - 1"] exI [of _ p]) (auto simp: not_le)
  qed
qed

context mono_key_value
begin

lemma le_result_found:
  assumes "map_rel K valid base m' s fulls cur" "same_but_segs m m'"
    and "find (\<lambda>e. proj e \<le> x) (rev (concat fulls @ cur)) = Some (kvo_entry kvo)"
  shows "le_result K valid proj x base m s fulls cur (Ret (found kvo i p), (m', s))"
  using assms by (auto simp: le_result_def found_def mkFound_def)

lemma find_le_rolled_rel:
  assumes rel: "map_rel K valid base m s fulls cur" and q: "outcomes s = []"
    and asc: "keys_ascend proj (concat fulls @ cur)"
  shows "n \<le> length fulls \<Longrightarrow> \<forall>e \<in> set (concat (drop n fulls) @ cur). \<not> proj e \<le> x \<Longrightarrow>
    le_result K valid proj x base m s fulls cur (find_le_rolled K proj x (rev (take n (pm_segs m))) (m, s))"
proof (induction n)
  case 0
  have "find (\<lambda>e. proj e \<le> x) (rev ([] @ (concat fulls @ cur))) = find (\<lambda>e. proj e \<le> x) (rev [])"
    using 0(2) by (intro find_rev_none) simp
  then show ?case using rel by (auto simp: le_result_def)
next
  case (Suc n)
  have n: "n < length fulls" using Suc.prems(1) by simp
  note S = map_rel_seg [OF rel n] and A = keys_ascend_nth [OF asc n]
  obtain i c where ic: "pm_segs m ! n = (i, c)" by fastforce
  have tk: "rev (take (Suc n) (pm_segs m)) = (i, c) # rev (take n (pm_segs m))"
    using n map_relD(7) [OF rel] ic by (simp add: take_Suc_conv_app_nth)
  have here: "find (\<lambda>e. proj e \<le> x) (rev (concat fulls @ cur))
      = find (\<lambda>e. proj e \<le> x) (rev (concat (take n fulls) @ fulls ! n))"
    using find_rev_none [OF Suc.prems(2), of "concat (take n fulls) @ fulls ! n"] concat_split_nth [OF n] by simp
  have found_at: "find (\<lambda>e. proj e \<le> x) (rev (concat fulls @ cur)) = Some (fulls ! n ! k)"
    if "k < length (fulls ! n)" "proj (fulls ! n ! k) \<le> x"
      "\<forall>j. k < j \<longrightarrow> j < length (fulls ! n) \<longrightarrow> \<not> proj (fulls ! n ! j) \<le> x" for k
    unfolding here using that by (intro find_rev_nth) auto
  consider (eq) "proj (hd (fulls ! n)) = x" | (lt) "proj (hd (fulls ! n)) < x" | (gt) "x < proj (hd (fulls ! n))"
    by linarith
  then show ?case
  proof cases
    case eq
    have "find (\<lambda>e. proj e \<le> x) (rev (concat fulls @ cur)) = Some (fulls ! n ! 0)"
      using eq S(2) keys_ascend_nth_less [OF A(1), of 0] by (intro found_at) (auto simp: hd_conv_nth not_le)
    then show ?thesis using S eq tk ic le_result_found [OF rel same_but_segs_refl] by (simp add: hd_conv_nth)
  next
    case gt
    then have "\<forall>e \<in> set (fulls ! n). \<not> proj e \<le> x" using keys_ascend_hd [OF A(1)] by fastforce
    then have "\<forall>e \<in> set (concat (drop n fulls) @ cur). \<not> proj e \<le> x"
      using Suc.prems(2) by (auto simp: Cons_nth_drop_Suc [OF n, symmetric])
    then show ?thesis using Suc.IH n S gt tk ic by simp
  next
    case lt
    obtain m' where ld: "loadRolledLogSegmentFully K i (m, s) = (Ret OK, (m', s))"
      and rel': "map_rel K valid base m' s fulls cur" and same: "same_but_segs m m'"
      and full: "snd (pm_segs m' ! n) = withOffsets (kv_size K) 0 (fulls ! n)"
      using loadRolledLogSegmentFully_rel [OF rel q n] ic by auto
    note D' = map_relD [OF rel'] and E = same_but_segsD [OF same]
    have "fst (pm_segs m' ! n) = i" using E(6) D'(7) map_relD(7) [OF rel] n ic by (metis fst_conv nth_map)
    then have mi: "map_of (pm_segs m') i = Some (withOffsets (kv_size K) 0 (fulls ! n))"
      using map_of_segs_nth [OF D'(10), of n] n D'(7) full by simp
    obtain k p where k: "k < length (fulls ! n)" "bin_search_le proj x i (withOffsets (kv_size K) 0 (fulls ! n)) (m', s)
        = (Ret (found (withOffsets (kv_size K) 0 (fulls ! n) ! k) i p), (m', s))"
      "proj (fulls ! n ! k) \<le> x" "\<forall>j. k < j \<longrightarrow> j < length (fulls ! n) \<longrightarrow> \<not> proj (fulls ! n ! j) \<le> x"
      using bin_search_le_found [OF A(1) S(2)] lt by (meson less_imp_le)
    then have "le_result K valid proj x base m s fulls cur (bin_search_le proj x i (withOffsets (kv_size K) 0 (fulls ! n)) (m', s))"
      using found_at le_result_found [OF rel' same] by (simp add: nth_withOffsets)
    then show ?thesis using lt S tk ic ld mi by simp
  qed
qed

lemma find_le_rel:
  assumes rel: "map_rel K valid base m s fulls cur" and q: "outcomes s = []"
    and asc: "keys_ascend proj (concat fulls @ cur)"
  shows "le_result K valid proj x base m s fulls cur (find_le K proj x (m, s))"
proof -
  note D = map_relD [OF rel]
  have asc': "keys_ascend proj cur" using asc by (simp add: keys_ascend_append)
  show ?thesis
  proof (cases "cur \<noteq> [] \<and> proj (hd cur) \<le> x")
    case True
    then obtain k p where k: "k < length cur" "bin_search_le proj x 0 (withOffsets (kv_size K) 0 cur) (m, s)
        = (Ret (found (withOffsets (kv_size K) 0 cur ! k) 0 p), (m, s))"
      "proj (cur ! k) \<le> x" "\<forall>j. k < j \<longrightarrow> j < length cur \<longrightarrow> \<not> proj (cur ! j) \<le> x"
      using bin_search_le_found [OF asc'] by meson
    have "find (\<lambda>e. proj e \<le> x) (rev (concat fulls @ cur)) = Some (cur ! k)"
      using k by (intro find_rev_nth) auto
    then show ?thesis
      using True D(3) k le_result_found [OF rel same_but_segs_refl] by (simp add: find_le_def nth_withOffsets)
  next
    case False
    then have "\<forall>e \<in> set cur. \<not> proj e \<le> x" using keys_ascend_hd [OF asc'] by fastforce
    then have "le_result K valid proj x base m s fulls cur
        (find_le_rolled K proj x (rev (take (length fulls) (pm_segs m))) (m, s))"
      by (intro find_le_rolled_rel [OF rel q asc]) auto
    then show ?thesis using False D(3,7) by (cases "cur = []") (simp_all add: find_le_def)
  qed
qed

text \<open>The public searches: they return what a search of all entries returns.\<close>

lemma bound_result_ge:
  assumes "map_rel K valid base m s fulls cur" "outcomes s = []"
    and "keys_ascend proj (concat fulls @ cur)" "cur \<noteq> [] \<or> fulls = []"
  shows "\<exists>m'. bound_result K (find_ge K proj x) (m, s) =
      (Ret (okR (find (\<lambda>e. x \<le> proj e) (concat fulls @ cur))), (m', s)) \<and> map_rel K valid base m' s fulls cur \<and> same_but_segs m m'"
proof -
  from find_ge_rel [OF assms, of x] obtain m' r where
    run: "find_ge K proj x (m, s) = (Ret (okR r), (m', s))" and rel': "map_rel K valid base m' s fulls cur" "same_but_segs m m'"
    and res: "case r of None \<Rightarrow> \<forall>e \<in> set (concat fulls @ cur). proj e < x | Some f \<Rightarrow> located K proj x m' fulls cur f"
    by (auto simp: ge_result_def)
  have "map_option (\<lambda>f. kvo_entry (fkv_entry_offset f)) r = find (\<lambda>e. x \<le> proj e) (concat fulls @ cur)"
  proof (cases r)
    case None
    then have "find (\<lambda>e. x \<le> proj e) (concat fulls @ cur) = None"
      unfolding find_None_iff using res by (auto simp: not_le)
    then show ?thesis using None by simp
  next
    case (Some f)
    then show ?thesis using res located_find [of K proj x m' fulls cur f] by simp
  qed
  then show ?thesis using run rel' map_relD(5) [OF assms(1)] by (simp add: bound_result_def)
qed

lemma bound_result_le:
  assumes "map_rel K valid base m s fulls cur" "outcomes s = []" "keys_ascend proj (concat fulls @ cur)"
  shows "\<exists>m'. bound_result K (find_le K proj x) (m, s) =
      (Ret (okR (find (\<lambda>e. proj e \<le> x) (rev (concat fulls @ cur)))), (m', s)) \<and> map_rel K valid base m' s fulls cur \<and> same_but_segs m m'"
  using find_le_rel [OF assms, of x] map_relD(5) [OF assms(1)]
  by (auto simp: le_result_def bound_result_def)

end

end
