(* ===== verification/Nlog_MonoMap_Update.thy ===== *)
theory Nlog_MonoMap_Update
  imports Nlog_MonoMap_Search
begin

text \<open>
  The operations of the persistent monotonic map that change it refine the obvious operations on
  the list of its entries: \<^verbatim>\<open>maybeIndex\<close> appends, \<^verbatim>\<open>trim\<close> keeps the entries below a bound,
  \<^verbatim>\<open>trimHead\<close> drops whole segments from the front, and \<^verbatim>\<open>recover\<close> gives back, from the files alone,
  the entries that were there. They are stated for a file system without faults.
\<close>

section \<open>The file calls without faults\<close>

lemma AppendOnlyFile_open_new:
  assumes "outcomes s = []" "content s f = None"
  shows "AppendOnlyFile_open f s = (Ret \<lparr>filename = f, read_only = False, fd = f\<rparr>, setContent f [] s)"
  using assms by (simp add: AppendOnlyFile_open_def openFile_def sys_open_def exists_file_def O_CREAT_of_fileOpenFlags_def)

lemma dirs_setContent [simp]: "dirs (setContent f bs s) = dirs s"
  by (simp add: setContent_def)

lemma segmentLogPath_inject [simp]: "segmentLogPath b i = segmentLogPath b j \<longleftrightarrow> i = j"
  by (simp add: segmentLogPath_def)

lemma segmentLogPath_neq [simp]: "segmentLogPath b i \<noteq> b" "b \<noteq> segmentLogPath b i"
  by (simp_all add: segmentLogPath_def)

section \<open>The files of a map\<close>

definition mapFiles :: "string \<Rightarrow> string set" where
  "mapFiles base = insert base (range (segmentLogPath base))"

text \<open>What an operation of the map leaves alone.\<close>

definition elsewhere :: "string \<Rightarrow> filesys \<Rightarrow> filesys \<Rightarrow> bool" where
  "elsewhere base s s' \<longleftrightarrow> (\<forall>p. p \<notin> mapFiles base \<longrightarrow> content s' p = content s p)"

lemma elsewhere_refl [simp, intro!]: "elsewhere base s s"
  by (simp add: elsewhere_def)

lemma elsewhere_trans: "elsewhere base s s' \<Longrightarrow> elsewhere base s' s'' \<Longrightarrow> elsewhere base s s''"
  by (simp add: elsewhere_def)

lemma elsewhere_setContent [simp]:
  "elsewhere base s (setContent base bs s)" "elsewhere base s (setContent (segmentLogPath base i) bs s)"
  by (simp_all add: elsewhere_def mapFiles_def)

section \<open>Appending\<close>

text \<open>The relation only looks at the files of the map.\<close>

lemma segs_rel_frame:
  assumes "list_all2 (seg_rel K s base) segs fulls"
    and "\<And>i. i \<in> fst ` set segs \<Longrightarrow> content s' (segmentLogPath base i) = content s (segmentLogPath base i)"
  shows "list_all2 (seg_rel K s' base) segs fulls"
  using assms(1)
proof (rule list.rel_mono_strong)
  fix ic full
  assume "ic \<in> set segs" "seg_rel K s base ic full"
  then show "seg_rel K s' base ic full" using assms(2) [of "fst ic"] by (simp add: seg_rel_def)
qed

lemma segs_emplace_last:
  "\<forall>j \<in> fst ` set xs. j < i \<Longrightarrow> segs_emplace i c xs = xs @ [(i, c)]"
  by (induction xs) auto

lemma nextSegmentID_greater:
  assumes "sorted_wrt (<) (map fst (pm_segs m))" "j \<in> fst ` set (pm_segs m)"
  shows "j < nextSegmentID m"
proof -
  have "j \<le> fst (last (pm_segs m))"
    using assms by (cases "pm_segs m" rule: rev_cases) (auto simp: sorted_wrt_append less_imp_le)
  then show ?thesis using assms(2) by (auto simp: nextSegmentID_def)
qed

context mono_key_value
begin

lemma roll_rel:
  assumes rel: "map_rel K valid base m s fulls cur" and q: "outcomes s = []" and ne: "cur \<noteq> []"
    and nid: "nextSegmentID m < 2 ^ 64"
  obtains m' s' where "roll K sync (m, s) = (Ret OK, (m', s'))" "outcomes s' = []"
    "map_rel K valid base m' s' (fulls @ [cur]) []" "pm_max_size m' = pm_max_size m" "elsewhere base s s'"
    "nextSegmentID m' \<le> Suc (nextSegmentID m)"
proof -
  note D = map_relD [OF rel]
  let ?i = "nextSegmentID m"
  let ?p = "segmentLogPath base ?i"
  obtain s1 where s1: "sys_rename base ?p s = (0, s1)" "outcomes s1 = []"
    "content s1 = (content s)(base := None, ?p \<mapsto> encodeKV K cur)"
    using sys_rename_quiet [OF q D(2), of ?p] by auto
  let ?s2 = "setContent base [] s1" and ?f = "\<lparr>filename = base, read_only = False, fd = base\<rparr>"
  let ?m = "m\<lparr>pm_segs := pm_segs m @ [(?i, pm_cache m)], pm_cache := [], pm_log_size := 0, pm_log_file := ?f\<rparr>"
  have below: "\<forall>j \<in> fst ` set (pm_segs m). j < ?i" using nextSegmentID_greater [OF D(9)] by blast
  have "roll K sync (m, s) = (Ret OK, (?m, ?s2))"
    using D(1) s1 AppendOnlyFile_open_new [of s1 base] segs_emplace_last [OF below]
    by (cases sync) (simp_all add: roll_def renameTo_def sync_file_def Let_def)
  moreover have "map_rel K valid base ?m ?s2 (fulls @ [cur]) []"
  proof -
    have "list_all2 (seg_rel K ?s2 base) (pm_segs m) fulls"
      using D(6) by (rule segs_rel_frame) (use s1(3) below in auto)
    moreover have "seg_rel K ?s2 base (?i, pm_cache m) cur" using s1(3) D(3) ne by (simp add: seg_rel_def)
    moreover have "map_wf K valid (map fst (pm_segs m) @ [?i]) (fulls @ [cur]) []"
      using D(8) below nid by (auto simp: map_wf_def sorted_wrt_append nextSegmentID_def)
    ultimately show ?thesis using D by (simp add: map_rel_def list_all2_appendI)
  qed
  moreover have "elsewhere base s ?s2" using s1(3) by (auto simp: elsewhere_def mapFiles_def)
  moreover have "nextSegmentID ?m \<le> Suc (nextSegmentID m)" by (simp add: nextSegmentID_def)
  ultimately show thesis using s1(2) by (intro that [of ?m ?s2]) auto
qed

lemma append_rel:
  assumes rel: "map_rel K valid base m s fulls cur" and q: "outcomes s = []" and v: "valid e"
    and less: "\<forall>a \<in> set (concat fulls @ cur). kv_key K a < kv_key K e"
  defines "m' \<equiv> m\<lparr>pm_cache := pm_cache m @ [\<lparr>kvo_entry = e, kvo_offset = pm_log_size m\<rparr>],
      pm_log_size := pm_log_size m + length (kv_serialize K e)\<rparr>"
  shows "map_rel K valid base m' (setContent base (encodeKV K cur @ kv_serialize K e) s) fulls (cur @ [e])"
proof -
  note D = map_relD [OF rel]
  let ?s = "setContent base (encodeKV K cur @ kv_serialize K e) s"
  have "list_all2 (seg_rel K ?s base) (pm_segs m) fulls"
    using D(6) by (rule segs_rel_frame) auto
  moreover have "map_wf K valid (map fst (pm_segs m)) fulls (cur @ [e])"
    using D(8) v less unfolding map_wf_def append_assoc [symmetric]
    by (subst keys_ascend_append) (auto simp: keys_ascend_Cons)
  ultimately show ?thesis
    using D by (simp add: map_rel_def m'_def withOffsets_append length_serialize)
qed

text \<open>An entry with a key above all others is appended, and any other entry is refused.\<close>

lemma maybeIndex_append:
  assumes rel: "map_rel K valid base m s fulls cur" and q: "outcomes s = []" and v: "valid e"
    and cur: "cur \<noteq> [] \<or> fulls = []" and nid: "nextSegmentID m < 2 ^ 64" and mx: "0 < pm_max_size m"
    and less: "\<forall>a \<in> set (concat fulls @ cur). kv_key K a < kv_key K e"
  shows "\<exists>m' s' fulls' cur'. maybeIndex K e sync (m, s) = (Ret (okR True), (m', s')) \<and> outcomes s' = []
    \<and> map_rel K valid base m' s' fulls' cur' \<and> concat fulls' @ cur' = concat fulls @ cur @ [e]
    \<and> cur' \<noteq> [] \<and> pm_max_size m' = pm_max_size m \<and> elsewhere base s s' \<and> nextSegmentID m' \<le> Suc (nextSegmentID m)
    \<and> (fulls', cur') = (if pm_max_size m \<le> length cur * kv_size K then (fulls @ [cur], [e]) else (fulls, cur @ [e]))"
proof -
  note D = map_relD [OF rel]
  have guard: "\<not> (pm_cache m \<noteq> [] \<and> kv_less K e (kvo_entry (last (pm_cache m))))"
    "pm_cache m = [] \<or> kv_key K (kvo_entry (last (pm_cache m))) < kv_key K e"
    using less D(3) key_less_not_greater [of "last cur" e] by (cases "cur = []"; simp)+
  obtain m1 s1 fulls1 cur1 where
    r1: "(if pm_max_size m \<le> pm_log_size m then roll K sync else retE OK) (m, s) = (Ret OK, (m1, s1))"
    and q1: "outcomes s1 = []" and rel1: "map_rel K valid base m1 s1 fulls1 cur1"
    and same: "concat fulls1 @ cur1 = concat fulls @ cur" and mx1: "pm_max_size m1 = pm_max_size m"
    and else1: "elsewhere base s s1" and id1: "nextSegmentID m1 \<le> Suc (nextSegmentID m)"
    and which: "(fulls1, cur1) = (if pm_max_size m \<le> pm_log_size m then (fulls @ [cur], []) else (fulls, cur))"
  proof (cases "pm_max_size m \<le> pm_log_size m")
    case True
    then have "cur \<noteq> []" using mx D(4) by auto
    from roll_rel [OF rel q this nid, of sync] obtain m1 s1 where
      "roll K sync (m, s) = (Ret OK, (m1, s1))" "outcomes s1 = []"
      "map_rel K valid base m1 s1 (fulls @ [cur]) []" "pm_max_size m1 = pm_max_size m" "elsewhere base s s1" "nextSegmentID m1 \<le> Suc (nextSegmentID m)" by blast
    then show ?thesis using True that [of m1 s1 "fulls @ [cur]" "[]"] by simp
  next
    case False
    then show ?thesis using that [of m s fulls cur] rel q by simp
  qed
  note D1 = map_relD [OF rel1]
  let ?d = "kv_serialize K e"
  let ?s2 = "setContent base (encodeKV K cur1 @ ?d) s1"
  let ?m2 = "m1\<lparr>pm_cache := pm_cache m1 @ [\<lparr>kvo_entry = e, kvo_offset = pm_log_size m1\<rparr>],
      pm_log_size := pm_log_size m1 + length ?d\<rparr>"
  have "?d \<noteq> []" using length_serialize [of e] size_pos by auto
  then have ap: "append_file (pm_log_file m1) ?d s1 = (okR (length ?d), ?s2)"
    using append_file_quiet [OF q1, of "pm_log_file m1" "encodeKV K cur1" ?d] D1(1,2) by simp
  have "maybeIndex K e sync (m, s) = (Ret (okR True), (?m2, ?s2))"
    using guard D(5) r1 ap D1(1) q1
    by (cases sync; cases "pm_max_size m \<le> pm_log_size m")
      (simp_all add: maybeIndex_def syncTail_file_def Let_def)
  moreover have "map_rel K valid base ?m2 ?s2 fulls1 (cur1 @ [e])"
    using less by (intro append_rel [OF rel1 q1 v]) (simp add: same)
  moreover have "concat fulls1 @ cur1 @ [e] = concat fulls @ cur @ [e]" using same by (metis append_assoc)
  moreover have "nextSegmentID ?m2 = nextSegmentID m1" by (simp add: nextSegmentID_def)
  moreover have "(fulls1, cur1 @ [e]) = (if pm_max_size m \<le> length cur * kv_size K then (fulls @ [cur], [e]) else (fulls, cur @ [e]))"
    using which D(4) by (simp split: if_splits)
  ultimately show ?thesis
    using q1 mx1 elsewhere_trans [OF else1, of ?s2] id1
    by (intro exI [of _ ?m2] exI [of _ ?s2] exI [of _ fulls1] exI [of _ "cur1 @ [e]"]) simp
qed

lemma maybeIndex_refuse:
  assumes rel: "map_rel K valid base m s fulls cur" and ne: "cur \<noteq> []"
    and ge: "kv_key K e \<le> kv_key K (last cur)"
  shows "maybeIndex K e sync (m, s) = (Ret (okR False), (m, s))"
  using map_relD(3,5) [OF rel] ne ge by (simp add: maybeIndex_def)

end

section \<open>Removing and trimming\<close>

lemma removeRange_quiet:
  assumes "outcomes s = []"
  shows "\<exists>s'. removeRange is (m, s) = (Ret OK, (m\<lparr>pm_segs := filter (\<lambda>x. fst x \<notin> set is) (pm_segs m)\<rparr>, s'))
    \<and> outcomes s' = [] \<and> dirs s' = dirs s
    \<and> content s' = (\<lambda>p. if p \<in> segmentLogPath (filename (pm_log_file m)) ` set is then None else content s p)"
  using assms
proof (induction "is" arbitrary: m s)
  case Nil
  then show ?case by (auto simp: case_prod_beta)
next
  case (Cons i "is")
  let ?b = "filename (pm_log_file m)"
  obtain s1 where s1: "sys_remove (segmentLogPath ?b i) s = (0, s1)" "outcomes s1 = []"
    "content s1 = (content s)(segmentLogPath ?b i := None)" "dirs s1 = dirs s"
    using sys_remove_quiet [OF Cons.prems] by blast
  let ?m = "m\<lparr>pm_segs := filter (\<lambda>x. fst x \<noteq> i) (pm_segs m)\<rparr>"
  obtain s2 where s2: "removeRange is (?m, s1)
      = (Ret OK, (?m\<lparr>pm_segs := filter (\<lambda>x. fst x \<notin> set is) (pm_segs ?m)\<rparr>, s2))"
    "outcomes s2 = []" "dirs s2 = dirs s1"
    "content s2 = (\<lambda>p. if p \<in> segmentLogPath (filename (pm_log_file ?m)) ` set is then None else content s1 p)"
    using Cons.IH [OF s1(2)] by blast
  have "removeRange (i # is) (m, s) = (Ret OK, (m\<lparr>pm_segs := filter (\<lambda>x. fst x \<notin> set (i # is)) (pm_segs m)\<rparr>, s2))"
    using s1 s2 by (simp add: Let_def conj_commute)
  then show ?case using s1 s2 by (intro exI [of _ s2]) (auto simp: fun_eq_iff)
qed

lemma filter_fst_split:
  fixes i :: nat
  assumes "sorted_wrt (<) (map fst (pre @ (i, c) # post))"
  shows "filter (\<lambda>x. fst x \<notin> fst ` set post) (pre @ (i, c) # post) = pre @ [(i, c)]"
    and "filter (\<lambda>x. fst x \<noteq> i) (pre @ [(i, c)]) = pre"
proof -
  have 1: "\<forall>x \<in> set pre. fst x < i \<and> (\<forall>y \<in> set post. fst x < fst y)" and 2: "\<forall>y \<in> set post. i < fst y"
    using assms by (auto simp: sorted_wrt_append)
  show "filter (\<lambda>x. fst x \<notin> fst ` set post) (pre @ (i, c) # post) = pre @ [(i, c)]"
  proof -
    have "filter (\<lambda>x. fst x \<notin> fst ` set post) pre = pre" 
    proof (rule filter_True, rule ballI, rule notI)
      fix x
      assume "x \<in> set pre" "fst x \<in> fst ` set post"
      then show False using 1 by fastforce
    qed
    moreover have "filter (\<lambda>x. fst x \<notin> fst ` set post) post = []"
      by (intro filter_False) force
    moreover have "i \<notin> fst ` set post" using 2 by force
    ultimately show ?thesis by simp
  qed
  show "filter (\<lambda>x. fst x \<noteq> i) (pre @ [(i, c)]) = pre"
    using 1 filter_True [of pre "\<lambda>x. fst x \<noteq> i"] by fastforce
qed

text \<open>
  \<^verbatim>\<open>remove\<close> from the segment after \<open>i\<close> on: the current segment goes too and segment \<open>i\<close> takes its
  place. \<^verbatim>\<open>log_size\<close> stays what it was.
\<close>

lemma remove_segments_after:
  assumes loaded: "pm_loaded m" and lf: "pm_log_file m = \<lparr>filename = base, read_only = False, fd = base\<rparr>"
    and q: "outcomes s = []" and segs: "pm_segs m = pre @ (i, c) # post"
    and sorted: "sorted_wrt (<) (map fst (pm_segs m))" and j: "i < j" "\<forall>k \<in> fst ` set post. j \<le> k"
    and ex: "content s (segmentLogPath base i) = Some bs" "content s base \<noteq> None"
  shows "\<exists>s'. remove_segments K (Some j) (m, s)
      = (Ret OK, (m\<lparr>pm_segs := pre, pm_cache := c, pm_log_file := \<lparr>filename = base, read_only = False, fd = base\<rparr>\<rparr>, s'))
    \<and> outcomes s' = [] \<and> content s' base = Some bs
    \<and> (\<forall>k \<in> fst ` set pre. content s' (segmentLogPath base k) = content s (segmentLogPath base k))
    \<and> elsewhere base s s'"
proof -
  have below: "\<forall>k \<in> fst ` set pre. k < i" and above: "\<forall>k \<in> fst ` set post. i < k"
    using sorted segs by (auto simp: sorted_wrt_append)
  have ids: "filter ((\<le>) j) (map fst (pm_segs m)) = map fst post"
  proof -
    have "filter ((\<le>) j) (map fst pre) = []" using below j(1) by (intro filter_False) auto
    moreover have "filter ((\<le>) j) (map fst post) = map fst post" using j(2) by (intro filter_True) auto
    ultimately show ?thesis using j(1) by (simp add: segs)
  qed
  obtain s1 where s1: "removeRange (map fst post) (m, s)
      = (Ret OK, (m\<lparr>pm_segs := filter (\<lambda>x. fst x \<notin> set (map fst post)) (pm_segs m)\<rparr>, s1))" "outcomes s1 = []"
    "content s1 = (\<lambda>p. if p \<in> segmentLogPath base ` set (map fst post) then None else content s p)"
    using removeRange_quiet [OF q, of "map fst post" m] lf by auto
  let ?m1 = "m\<lparr>pm_segs := pre @ [(i, c)]\<rparr>"
  have m1: "m\<lparr>pm_segs := filter (\<lambda>x. fst x \<notin> set (map fst post)) (pm_segs m)\<rparr> = ?m1"
    using filter_fst_split(1) [of pre i c post] sorted segs by simp
  have keep: "content s1 base = content s base" "content s1 (segmentLogPath base i) = Some bs"
    using s1(3) above ex by auto
  let ?f = "\<lparr>filename = base, read_only = False, fd = []\<rparr>"
  obtain e where cl: "close_file (pm_log_file m) s1 = (e, ?f, s1)"
    using lf s1(2) keep(1) ex(2) by (cases "base = []") (auto simp: close_file_def)
  obtain s2 where s2: "sys_remove base s1 = (0, s2)" "outcomes s2 = []" "content s2 = (content s1)(base := None)"
    using sys_remove_quiet [OF s1(2)] by blast
  have c2: "content s2 (segmentLogPath base i) = Some bs" using s2(3) keep(2) by simp
  obtain s3 where s3: "sys_rename (segmentLogPath base i) base s2 = (0, s3)" "outcomes s3 = []"
    "content s3 = (content s2)(segmentLogPath base i := None, base \<mapsto> bs)"
    using sys_rename_quiet [OF s2(2) c2, of base] by auto
  have "remove_segments K (Some j) (m, s)
      = (Ret OK, (m\<lparr>pm_segs := pre, pm_cache := c, pm_log_file := \<lparr>filename = base, read_only = False, fd = base\<rparr>\<rparr>, s3))"
    using loaded ids s1 m1 cl s2 s3 c2 openFile_quiet [OF s2(2), of "segmentLogPath base i" False]
      filter_fst_split(2) [of pre i c "[]"] sorted segs
    by (simp add: remove_segments_def remove_file_def renameTo_def sorted_wrt_append Let_def)
  moreover have "content s3 (segmentLogPath base k) = content s (segmentLogPath base k)" if "k \<in> fst ` set pre" for k
  proof -
    have "k < i" "k \<in> fst ` set post \<Longrightarrow> i < k" using that below above by auto
    then have "k \<noteq> i" "k \<notin> fst ` set post" by auto
    then show ?thesis by (simp add: s3(3) s2(3) s1(3) image_iff)
  qed
  moreover have "elsewhere base s s3" by (auto simp: elsewhere_def mapFiles_def s1(3) s2(3) s3(3))
  ultimately show ?thesis using s3(2,3) by (intro exI [of _ s3]) simp
qed

lemma takeWhile_split:
  assumes "\<forall>a \<in> set xs. P a" "length (takeWhile P ys) < length ys"
  shows "takeWhile P (xs @ ys @ zs) = xs @ take (length (takeWhile P ys)) ys"
proof -
  have "\<not> P (ys ! length (takeWhile P ys))" using nth_length_takeWhile [OF assms(2)] .
  then have "takeWhile P (ys @ zs) = takeWhile P ys"
    using assms(2) by (intro takeWhile_append1 [of "ys ! length (takeWhile P ys)"]) auto
  then show ?thesis using assms(1) by (simp add: takeWhile_append2 takeWhile_eq_take [symmetric])
qed

lemma next_segment_id_split:
  assumes "sorted_wrt (<) (map fst (pm_segs m))" "pm_segs m = pre @ (i, c) # post"
  shows "i < next_segment_id i m" and "\<forall>k \<in> fst ` set post. next_segment_id i m \<le> k"
proof -
  have 1: "\<forall>x \<in> set pre. fst x < i" and 2: "\<forall>x \<in> set post. i < fst x"
    and 3: "sorted_wrt (<) (map fst post)" using assms by (auto simp: sorted_wrt_append)
  have "filter ((<) i) (map fst pre) = []" using 1 by (intro filter_False) auto
  moreover have "filter ((<) i) (map fst post) = map fst post" using 2 by (intro filter_True) auto
  ultimately have f: "filter ((<) i) (map fst (pm_segs m)) = map fst post" by (simp add: assms(2))
  show "i < next_segment_id i m" "\<forall>k \<in> fst ` set post. next_segment_id i m \<le> k"
    using f 2 3 by (cases post; auto simp: next_segment_id_def assms(2) less_imp_le)+
qed

context mono_key_value
begin

text \<open>Cutting the current segment.\<close>

lemma trim_current:
  assumes rel: "map_rel K valid base m s fulls cur" and q: "outcomes s = []" and p: "p \<le> length cur"
  shows "\<exists>s'. trim_log (pm_log_file m) (pm_log_size m) \<lparr>kvo_entry = e, kvo_offset = p * kv_size K\<rparr> (m, s) = (Ret OK, (m, s'))
    \<and> outcomes s' = []
    \<and> map_rel K valid base (m\<lparr>pm_cache := take p (pm_cache m), pm_log_size := p * kv_size K\<rparr>) s' fulls (take p cur)
    \<and> elsewhere base s s'"
proof -
  note D = map_relD [OF rel]
  let ?s = "if p = length cur then s else setContent base (encodeKV K (take p cur)) s"
  have le: "p * kv_size K \<le> length (encodeKV K cur)" using p by simp
  have "trim_log (pm_log_file m) (pm_log_size m) \<lparr>kvo_entry = e, kvo_offset = p * kv_size K\<rparr> (m, s) = (Ret OK, (m, ?s))"
    using D(1,2,4) truncate_file_quiet [OF q _ _ le, of "pm_log_file m"] size_pos
    by (simp add: trim_log_def take_encode)
  moreover have "map_rel K valid base (m\<lparr>pm_cache := take p (pm_cache m), pm_log_size := p * kv_size K\<rparr>) ?s fulls (take p cur)"
  proof -
    have "list_all2 (seg_rel K ?s base) (pm_segs m) fulls" using D(6) by (rule segs_rel_frame) auto
    moreover have "map_wf K valid (map fst (pm_segs m)) fulls (take p cur)"
      using D(8) unfolding map_wf_def
      by (auto simp: keys_ascend_append dest: in_set_takeD) (metis append_take_drop_id keys_ascend_append)
    ultimately show ?thesis using D p by (simp add: map_rel_def take_withOffsets)
  qed
  ultimately show ?thesis using q by (intro exI [of _ ?s]) simp
qed

text \<open>
  Cutting a rolled segment: it becomes the current one. \<^verbatim>\<open>log_size\<close>, which the source does not
  update here, is the only part of the state that is off.
\<close>

lemma trim_rolled:
  assumes rel: "map_rel K valid base m s fulls cur" and q: "outcomes s = []"
    and n: "n < length fulls" and i: "i = fst (pm_segs m ! n)" and p: "p < length (fulls ! n)"
    and mem: "p = 0 \<or> snd (pm_segs m ! n) = withOffsets (kv_size K) 0 (fulls ! n)"
  defines "s1 \<equiv> setContent (segmentLogPath base i) (encodeKV K (take p (fulls ! n))) s"
  defines "m1 \<equiv> m\<lparr>pm_segs := segs_update i (take p (the (map_of (pm_segs m) i))) (pm_segs m)\<rparr>"
  shows "\<exists>m' s'. remove_segments K (Some (next_segment_id i m1)) (m1, s1) = (Ret OK, (m', s')) \<and> outcomes s' = []
    \<and> map_rel K valid base (m'\<lparr>pm_log_size := p * kv_size K\<rparr>) s' (take n fulls) (take p (fulls ! n))
    \<and> pm_log_size m' = pm_log_size m \<and> elsewhere base s s'"
proof -
  note D = map_relD [OF rel] and S = map_rel_seg [OF rel n]
  have n': "n < length (pm_segs m)" using n D(7) by simp
  let ?c = "take p (snd (pm_segs m ! n))" and ?pre = "take n (pm_segs m)" and ?post = "drop (Suc n) (pm_segs m)"
  have segs: "pm_segs m1 = ?pre @ (i, ?c) # ?post"
    using segs_update_nth [OF D(10) n'] map_of_segs_nth [OF D(10) n'] n'
    by (simp add: m1_def i upd_conv_take_nth_drop)
  have "map fst (pm_segs m1) = map fst (pm_segs m)"
    using id_take_nth_drop [OF n'] by (metis (no_types, lifting) segs i fst_conv list.simps(9) map_append)
  then have sorted: "sorted_wrt (<) (map fst (pm_segs m1))" using D(9) by simp
  have c: "?c = withOffsets (kv_size K) 0 (take p (fulls ! n))" using mem by (auto simp: take_withOffsets)
  have m1: "pm_loaded m1" "pm_log_file m1 = \<lparr>filename = base, read_only = False, fd = base\<rparr>" "outcomes s1 = []"
    "content s1 base \<noteq> None" "content s1 (segmentLogPath base i) = Some (encodeKV K (take p (fulls ! n)))"
    using D q by (auto simp: m1_def s1_def)
  note nx = next_segment_id_split [OF sorted segs]
  obtain s' where s': "remove_segments K (Some (next_segment_id i m1)) (m1, s1)
      = (Ret OK, (m1\<lparr>pm_segs := ?pre, pm_cache := ?c, pm_log_file := \<lparr>filename = base, read_only = False, fd = base\<rparr>\<rparr>, s'))"
    "outcomes s' = []" "content s' base = Some (encodeKV K (take p (fulls ! n)))"
    "\<forall>k \<in> fst ` set ?pre. content s' (segmentLogPath base k) = content s1 (segmentLogPath base k)" "elsewhere base s1 s'"
    using remove_segments_after [OF m1(1-3) segs sorted nx m1(5,4), of K] by blast
  have ids: "\<forall>k \<in> fst ` set ?pre. k \<noteq> i" using sorted unfolding segs by (auto simp: sorted_wrt_append)
  have "list_all2 (seg_rel K s' base) ?pre (take n fulls)"
    using list_all2_takeI [OF D(6)] by (rule segs_rel_frame) (use s'(4) ids in \<open>auto simp: s1_def\<close>)
  moreover have "map_wf K valid (map fst ?pre) (take n fulls) (take p (fulls ! n))"
  proof -
    have e: "concat fulls @ cur = (concat (take n fulls) @ take p (fulls ! n)) @ (drop p (fulls ! n) @ concat (drop (Suc n) fulls) @ cur)"
      using concat_split_nth [OF n] by simp
    from D(8) [unfolded map_wf_def e]
    have "keys_ascend (kv_key K) (concat (take n fulls) @ take p (fulls ! n))"
      "\<forall>a \<in> set (concat (take n fulls) @ take p (fulls ! n)). valid a"
      unfolding keys_ascend_append [of _ "concat (take n fulls) @ take p (fulls ! n)"] by auto
    moreover have "sorted_wrt (<) (map fst ?pre)" using D(9) by (simp add: take_map [symmetric] sorted_wrt_take)
    moreover have "\<forall>k \<in> set (map fst ?pre). 0 < k \<and> k < 2 ^ 64"
      using D(8) unfolding map_wf_def by (metis in_set_takeD take_map)
    ultimately show ?thesis unfolding map_wf_def by blast
  qed
  moreover have "elsewhere base s s'" by (rule elsewhere_trans [OF _ s'(5)]) (simp add: s1_def)
  ultimately show ?thesis
    using s' c D(5) p by (intro exI [of _ "m1\<lparr>pm_segs := ?pre, pm_cache := ?c,
        pm_log_file := \<lparr>filename = base, read_only = False, fd = base\<rparr>\<rparr>"] exI [of _ s'])
      (simp add: map_rel_def m1_def)
qed

lemma trim_tail_rel:
  assumes rel: "map_rel K valid base m s fulls cur" and q: "outcomes s = []"
    and asc: "keys_ascend proj (concat fulls @ cur)" and cur: "cur \<noteq> [] \<or> fulls = []"
  shows "\<exists>m' s' fulls' cur'. trim_tail K (find_ge K proj x) (m, s) = (Ret OK, (m', s')) \<and> outcomes s' = []
    \<and> map_rel K valid base (m'\<lparr>pm_log_size := length cur' * kv_size K\<rparr>) s' fulls' cur'
    \<and> concat fulls' @ cur' = takeWhile (\<lambda>e. proj e < x) (concat fulls @ cur)
    \<and> ((\<forall>e \<in> set (concat fulls). proj e < x) \<longrightarrow> fulls' = fulls)
    \<and> pm_log_size m' = (if \<forall>e \<in> set (concat fulls). proj e < x then length cur' * kv_size K else pm_log_size m)
    \<and> elsewhere base s s'"
proof -
  from find_ge_rel [OF rel q asc cur, of x] obtain m1 r where
    run: "find_ge K proj x (m, s) = (Ret (okR r), (m1, s))" and rel1: "map_rel K valid base m1 s fulls cur"
    and same: "same_but_segs m m1"
    and res: "case r of None \<Rightarrow> \<forall>e \<in> set (concat fulls @ cur). proj e < x | Some f \<Rightarrow> located K proj x m1 fulls cur f"
    by (auto simp: ge_result_def)
  note D = map_relD [OF rel] and D1 = map_relD [OF rel1] and E = same_but_segsD [OF same]
  show ?thesis
  proof (cases r)
    case None
    then have tw: "takeWhile (\<lambda>e. proj e < x) (concat fulls @ cur) = concat fulls @ cur"
      using res by (simp add: takeWhile_eq_all_conv)
    have "map_rel K valid base (m1\<lparr>pm_log_size := length cur * kv_size K\<rparr>) s fulls cur"
      using rel1 by (simp add: map_rel_def)
    then show ?thesis
      using run None D(5) q D1(4) res
      by (intro exI [of _ m1] exI [of _ s] exI [of _ fulls] exI [of _ cur])
        (simp add: trim_tail_def tw del: takeWhile_eq_all_conv)
  next
    case (Some f)
    then have loc: "located K proj x m1 fulls cur f" using res by simp
    define p where "p = fkv_truncation_point f"
    show ?thesis
    proof (cases "fkv_segment_id f = 0")
      case True
      then have l: "\<forall>e \<in> set (concat fulls). proj e < x" "p = length (takeWhile (\<lambda>e. proj e < x) cur)" "p < length cur"
        "fkv_entry_offset f = \<lparr>kvo_entry = cur ! p, kvo_offset = p * kv_size K\<rparr>" "fkv_cache_to_truncate f = 0"
        using loc by (simp_all add: located_def Let_def p_def)
      from trim_current [OF rel1 q less_imp_le [OF l(3)], of "cur ! p"] obtain s' where
        s': "trim_log (pm_log_file m1) (pm_log_size m1) (fkv_entry_offset f) (m1, s) = (Ret OK, (m1, s'))" "outcomes s' = []"
        "map_rel K valid base (m1\<lparr>pm_cache := take p (pm_cache m1), pm_log_size := p * kv_size K\<rparr>) s' fulls (take p cur)"
        "elsewhere base s s'"
        using l(4) by auto
      have "takeWhile (\<lambda>e. proj e < x) (concat fulls @ cur) = concat fulls @ take p cur"
        using takeWhile_split [OF l(1), of cur "[]"] l(2,3) by simp
      then show ?thesis
        using run Some D(5) True s' l(1,3-5) p_def
        by (intro exI [of _ "m1\<lparr>pm_cache := take p (pm_cache m1), pm_log_size := p * kv_size K\<rparr>"]
            exI [of _ s'] exI [of _ fulls] exI [of _ "take p cur"])
          (simp add: trim_tail_def Let_def)
    next
      case False
      let ?i = "fkv_segment_id f"
      obtain n where l: "n < length fulls" "?i = fst (pm_segs m1 ! n)" "\<forall>e \<in> set (concat (take n fulls)). proj e < x"
        "p = length (takeWhile (\<lambda>e. proj e < x) (fulls ! n))" "p < length (fulls ! n)"
        "fkv_entry_offset f = \<lparr>kvo_entry = fulls ! n ! p, kvo_offset = p * kv_size K\<rparr>"
        "p = 0 \<or> snd (pm_segs m1 ! n) = withOffsets (kv_size K) 0 (fulls ! n)" "fkv_cache_to_truncate f = ?i"
        using loc False by (auto simp: located_def Let_def p_def)
      let ?path = "segmentLogPath base ?i"
      let ?g = "\<lparr>filename = ?path, read_only = False, fd = ?path\<rparr>"
      let ?s1 = "setContent ?path (encodeKV K (take p (fulls ! n))) s"
      let ?m1 = "m1\<lparr>pm_segs := segs_update ?i (take p (the (map_of (pm_segs m1) ?i))) (pm_segs m1)\<rparr>"
      have c: "content s ?path = Some (encodeKV K (fulls ! n))" using map_rel_seg(1) [OF rel1 l(1)] l(2) by (simp add: seg_rel_def)
      have tr: "trim_log ?g (length (fulls ! n) * kv_size K) (fkv_entry_offset f) (m1, s) = (Ret OK, (m1, ?s1))"
        using truncate_file_quiet [OF q, of ?g "encodeKV K (fulls ! n)" "p * kv_size K"] c l(5,6) size_pos
        by (simp add: trim_log_def take_encode)
      obtain m' s' where r: "remove_segments K (Some (next_segment_id ?i ?m1)) (?m1, ?s1) = (Ret OK, (m', s'))" "outcomes s' = []"
        "map_rel K valid base (m'\<lparr>pm_log_size := p * kv_size K\<rparr>) s' (take n fulls) (take p (fulls ! n))"
        "pm_log_size m' = pm_log_size m1" "elsewhere base s s'"
        using trim_rolled [OF rel1 q l(1,2,5,7)] by blast
      have "takeWhile (\<lambda>e. proj e < x) (concat fulls @ cur) = concat (take n fulls) @ take p (fulls ! n)"
        using takeWhile_split [OF l(3), of "fulls ! n" "concat (drop (Suc n) fulls) @ cur"] l(4,5) concat_split_nth [OF l(1)] by simp
      moreover have "trim_tail K (find_ge K proj x) (m, s) = (Ret OK, (m', s'))"
        using run Some D(5) False l(8) tr r(1) D1(1) c p_def openFile_quiet [OF q, of ?path False]
          size_file_quiet [OF q, of ?g]
        by (simp add: trim_tail_def Let_def)
      moreover have "\<not> (\<forall>e \<in> set (concat fulls). proj e < x)"
      proof -
        have "\<not> proj (fulls ! n ! p) < x" using nth_length_takeWhile [of "\<lambda>e. proj e < x" "fulls ! n"] l(4,5) by simp
        moreover have "fulls ! n ! p \<in> set (concat fulls)" using l(1,5) by (auto intro!: bexI [of _ "fulls ! n"])
        ultimately show ?thesis by blast
      qed
      ultimately show ?thesis
        using r l(1,5) E(3)
        by (intro exI [of _ m'] exI [of _ s'] exI [of _ "take n fulls"] exI [of _ "take p (fulls ! n)"])
          (simp only: if_False HOL.simp_thms, simp)
    qed
  qed
qed

end

section \<open>Dropping segments from the front\<close>

lemma filter_not_in_take:
  assumes "distinct (map fst xs)"
  shows "filter (\<lambda>x. fst x \<notin> set (take k (map fst xs))) xs = drop k xs"
  using assms
proof (induction xs arbitrary: k)
  case (Cons x xs)
  show ?case
  proof (cases k)
    case 0
    then show ?thesis by simp
  next
    case (Suc l)
    have "\<forall>y \<in> set xs. fst y \<noteq> fst x" using Cons.prems by simp (metis image_eqI)
    then have "filter (\<lambda>y. fst y \<noteq> fst x \<and> fst y \<notin> set (take l (map fst xs))) xs
        = filter (\<lambda>y. fst y \<notin> set (take l (map fst xs))) xs"
      by (intro filter_cong) auto
    then show ?thesis using Suc Cons by simp
  qed
qed simp

context mono_key_value
begin

lemma removeRange_front:
  assumes rel: "map_rel K valid base m s fulls cur" and q: "outcomes s = []"
  shows "\<exists>m' s'. removeRange (take k (map fst (pm_segs m))) (m, s) = (Ret OK, (m', s')) \<and> outcomes s' = []
    \<and> map_rel K valid base m' s' (drop k fulls) cur \<and> elsewhere base s s' \<and> m' = m\<lparr>pm_segs := drop k (pm_segs m)\<rparr>"
proof -
  note D = map_relD [OF rel]
  let ?ids = "take k (map fst (pm_segs m))"
  obtain s' where s': "removeRange ?ids (m, s) = (Ret OK, (m\<lparr>pm_segs := drop k (pm_segs m)\<rparr>, s'))" "outcomes s' = []"
    "content s' = (\<lambda>p. if p \<in> segmentLogPath base ` set ?ids then None else content s p)"
    using removeRange_quiet [OF q, of ?ids m] filter_not_in_take [OF D(10)] D(1) by auto
  have fresh: "i \<notin> set ?ids" if "i \<in> fst ` set (drop k (pm_segs m))" for i
    using D(10) that by (metis append_take_drop_id distinct_append disjoint_iff drop_map image_set take_map)
  have "list_all2 (seg_rel K s' base) (drop k (pm_segs m)) (drop k fulls)"
    using list_all2_dropI [OF D(6)] by (rule segs_rel_frame) (use fresh in \<open>force simp: s'(3)\<close>)
  moreover have "map_wf K valid (map fst (drop k (pm_segs m))) (drop k fulls) cur"
  proof -
    have e: "concat fulls @ cur = concat (take k fulls) @ (concat (drop k fulls) @ cur)"
      by (metis append_assoc append_take_drop_id concat_append)
    have "sorted_wrt (<) (map fst (drop k (pm_segs m)))" using D(9) by (simp add: drop_map [symmetric] sorted_wrt_drop)
    moreover have "\<forall>i \<in> set (map fst (drop k (pm_segs m))). 0 < i \<and> i < 2 ^ 64"
      using D(8) unfolding map_wf_def by (metis drop_map in_set_dropD)
    moreover have "keys_ascend (kv_key K) (concat (drop k fulls) @ cur)" "\<forall>a \<in> set (concat (drop k fulls) @ cur). valid a"
      using D(8) unfolding map_wf_def e keys_ascend_append [of _ "concat (take k fulls)"] by auto
    ultimately show ?thesis unfolding map_wf_def by blast
  qed
  ultimately have "map_rel K valid base (m\<lparr>pm_segs := drop k (pm_segs m)\<rparr>) s' (drop k fulls) cur"
    using D s'(3) by (auto simp: map_rel_def)
  moreover have "elsewhere base s s'" by (auto simp: elsewhere_def mapFiles_def s'(3))
  ultimately show ?thesis using s'(1,2) by blast
qed

text \<open>
  What \<^verbatim>\<open>trimHead\<close> may do: drop the first \<open>k\<close> rolled segments, all of whose entries are at most the
  target, such that no rolled segment is left that ends below the target.
\<close>

definition head_trimmed ::
  "('e \<Rightarrow> int) \<Rightarrow> int \<Rightarrow> string \<Rightarrow> filesys \<Rightarrow> 'e list list \<Rightarrow> 'e list
    \<Rightarrow> ErrorCode exec \<times> 'e PersistentMonoMap \<times> filesys \<Rightarrow> bool" where
  "head_trimmed proj target base s fulls cur out \<longleftrightarrow>
    (\<exists>m' s' k. out = (Ret OK, (m', s')) \<and> outcomes s' = [] \<and> map_rel K valid base m' s' (drop k fulls) cur
      \<and> elsewhere base s s' \<and> (\<forall>e \<in> set (concat (take k fulls)). proj e \<le> target)
      \<and> (\<forall>full \<in> set (drop k fulls). target \<le> proj (last full)))"

lemma head_trimmedI:
  assumes "map_rel K valid base m s fulls cur" "outcomes s = []"
    and "\<forall>e \<in> set (concat (take k fulls)). proj e \<le> target"
    and "\<forall>full \<in> set (drop k fulls). target \<le> proj (last full)"
  shows "head_trimmed proj target base s fulls cur (removeRange (take k (map fst (pm_segs m))) (m, s))"
  using removeRange_front [OF assms(1,2), of k] assms(3,4) by (auto simp: head_trimmed_def)

lemma head_trimmed_same:
  assumes "map_rel K valid base m s fulls cur" "outcomes s = []"
    and "\<forall>full \<in> set fulls. target \<le> proj (last full)"
  shows "head_trimmed proj target base s fulls cur (Ret OK, (m, s))"
  using assms by (auto simp: head_trimmed_def intro!: exI [of _ 0])

text \<open>Entries before segment \<open>k\<close> are below its first entry; segments from \<open>k\<close> on end above it.\<close>

lemma segments_around:
  assumes asc: "keys_ascend proj (concat fulls @ cur)" and k: "k < length fulls" and ne: "\<forall>full \<in> set fulls. full \<noteq> []"
  shows "e \<in> set (concat (take k fulls)) \<Longrightarrow> proj e < proj (hd (fulls ! k))"
    and "full \<in> set (drop k fulls) \<Longrightarrow> proj (hd (fulls ! k)) \<le> proj (last full)"
    and "full \<in> set (drop k fulls) \<Longrightarrow> proj (last (fulls ! k)) \<le> proj (last full)"
proof -
  note A = keys_ascend_nth [OF asc k]
  have nek: "fulls ! k \<noteq> []" using ne k by simp
  show "e \<in> set (concat (take k fulls)) \<Longrightarrow> proj e < proj (hd (fulls ! k))" using A(2) nek by auto
  have d: "drop k fulls = fulls ! k # drop (Suc k) fulls" using Cons_nth_drop_Suc [OF k] by simp
  have later: "proj a < proj (last full)" if "full \<in> set (drop (Suc k) fulls)" "a \<in> set (fulls ! k)" for full a
  proof -
    have "last full \<in> set (concat (drop (Suc k) fulls) @ cur)"
      using that(1) ne by (auto dest: in_set_dropD intro!: bexI [of _ full])
    then show ?thesis using A(3) that(2) by blast
  qed
  show "full \<in> set (drop k fulls) \<Longrightarrow> proj (hd (fulls ! k)) \<le> proj (last full)"
    using d later [of full "hd (fulls ! k)"] nek keys_ascend_hd [OF A(1), of "last (fulls ! k)"] by auto
  show "full \<in> set (drop k fulls) \<Longrightarrow> proj (last (fulls ! k)) \<le> proj (last full)"
    using d later [of full "last (fulls ! k)"] nek by auto
qed

text \<open>Segment \<open>j\<close>, looked up after it was loaded.\<close>

lemma load_looked_up:
  assumes rel: "map_rel K valid base m s fulls cur" and q: "outcomes s = []" and j: "j < length fulls"
  shows "\<exists>m'. loadRolledLogSegmentFully K (map fst (pm_segs m) ! j) (m, s) = (Ret OK, (m', s))
    \<and> map_rel K valid base m' s fulls cur \<and> same_but_segs m m' \<and> map fst (pm_segs m') = map fst (pm_segs m)
    \<and> map_of (pm_segs m') (map fst (pm_segs m) ! j) = Some (withOffsets (kv_size K) 0 (fulls ! j))"
proof -
  note D = map_relD [OF rel]
  let ?ids = "map fst (pm_segs m)"
  have idj: "?ids ! j = fst (pm_segs m ! j)" using j D(7) by simp
  obtain m1 where ld: "loadRolledLogSegmentFully K (?ids ! j) (m, s) = (Ret OK, (m1, s))"
    and rel1: "map_rel K valid base m1 s fulls cur" and same: "same_but_segs m m1"
    and full: "snd (pm_segs m1 ! j) = withOffsets (kv_size K) 0 (fulls ! j)"
    using loadRolledLogSegmentFully_rel [OF rel q j] idj by auto
  note D1 = map_relD [OF rel1]
  have ids1: "map fst (pm_segs m1) = ?ids" using same_but_segsD(6) [OF same] by simp
  then have "fst (pm_segs m1 ! j) = ?ids ! j" using j D1(7) by (metis nth_map)
  then have "map_of (pm_segs m1) (?ids ! j) = Some (withOffsets (kv_size K) 0 (fulls ! j))"
    using map_of_segs_nth [OF D1(10), of j] j D1(7) full by simp
  then show ?thesis using ld rel1 same ids1 by blast
qed

text \<open>The case in which the last segment that may go has to be looked into.\<close>

lemma trim_head_load:
  assumes rel: "map_rel K valid base m s fulls cur" and q: "outcomes s = []"
    and asc: "keys_ascend proj (concat fulls @ cur)" and j: "j < length fulls"
    and hd_j: "proj (hd (fulls ! j)) < target"
    and later: "\<forall>full \<in> set (drop (Suc j) fulls). target \<le> proj (last full)"
    and ids: "ids = map fst (pm_segs m)"
  shows "head_trimmed proj target base s fulls cur
    (bindE (loadRolledLogSegmentFully K (ids ! j)) (\<lambda>err.
       if err \<noteq> OK then retE err
       else bindE getM (\<lambda>m.
         let c = the (map_of (pm_segs m) (ids ! j)) in
         if c = [] then undefE
         else if target < proj (kvo_entry (last c)) then
           if j = 0 then retE OK else removeRange (take j ids)
         else removeRange (take (Suc j) ids))) (m, s))"
proof -
  note D = map_relD [OF rel]
  have ne: "\<forall>full \<in> set fulls. full \<noteq> []" using map_rel_seg(2) [OF rel] by (metis in_set_conv_nth)
  note A = keys_ascend_nth [OF asc j] and around = segments_around [OF asc j ne]
  have nej: "fulls ! j \<noteq> []" using ne j by simp
  obtain m1 where ld: "loadRolledLogSegmentFully K (ids ! j) (m, s) = (Ret OK, (m1, s))"
    and rel1: "map_rel K valid base m1 s fulls cur" and ids1: "map fst (pm_segs m1) = ids"
    and mo: "map_of (pm_segs m1) (ids ! j) = Some (withOffsets (kv_size K) 0 (fulls ! j))"
    using load_looked_up [OF rel q j] ids by auto
  have before: "\<forall>e \<in> set (concat (take j fulls)). proj e \<le> target" using around(1) hd_j by fastforce
  show ?thesis
  proof (cases "target < proj (last (fulls ! j))")
    case True
    then have rest: "\<forall>full \<in> set (drop j fulls). target \<le> proj (last full)" using around(3) by fastforce
    have "head_trimmed proj target base s fulls cur (removeRange (take j ids) (m1, s))"
      using head_trimmedI [OF rel1 q before rest] ids1 by simp
    moreover have "j = 0 \<Longrightarrow> head_trimmed proj target base s fulls cur (Ret OK, (m1, s))"
      using rest by (intro head_trimmed_same [OF rel1 q]) simp
    ultimately show ?thesis using ld mo True nej by simp
  next
    case False
    then have "\<forall>e \<in> set (fulls ! j). proj e \<le> target" using keys_ascend_last [OF A(1)] by fastforce
    then have "\<forall>e \<in> set (concat (take (Suc j) fulls)). proj e \<le> target"
      using before j by (auto simp: take_Suc_conv_app_nth)
    then have "head_trimmed proj target base s fulls cur (removeRange (take (Suc j) ids) (m1, s))"
      using head_trimmedI [OF rel1 q _ later] ids1 by simp
    then show ?thesis using ld mo False nej by simp
  qed
qed

text \<open>The segments \<^verbatim>\<open>trimHead\<close> walks over, and what it does with them.\<close>

definition headCount :: "('e \<Rightarrow> int) \<Rightarrow> int \<Rightarrow> 'e PersistentMonoMap \<Rightarrow> nat" where
  "headCount proj target m = length (takeWhile (\<lambda>ic. snd ic \<noteq> [] \<and> \<not> target \<le> proj (kvo_entry (hd (snd ic)))) (pm_segs m))"

lemma headCount_le: "map_rel K valid base m s fulls cur \<Longrightarrow> headCount proj target m \<le> length fulls"
  using length_takeWhile_le [of _ "pm_segs m"] map_relD(7) [of K valid base m s fulls cur] by (simp add: headCount_def)

lemma trim_head_run:
  assumes rel: "map_rel K valid base m s fulls cur" and front: "\<not> (cur \<noteq> [] \<and> proj (hd cur) \<le> target + 1)"
    and k: "k = headCount proj target m"
  shows "trim_head K proj target (m, s) = (if k = 0 then retE OK
      else if k = length fulls \<or> target + 1 < proj (hd (fulls ! k)) then
        bindE (loadRolledLogSegmentFully K (map fst (pm_segs m) ! (k - 1))) (\<lambda>err.
          if err \<noteq> OK then retE err
          else bindE getM (\<lambda>m'.
            let c = the (map_of (pm_segs m') (map fst (pm_segs m) ! (k - 1))) in
            if c = [] then undefE
            else if target < proj (kvo_entry (last c)) then
              if k - 1 = 0 then retE OK else removeRange (take (k - 1) (map fst (pm_segs m)))
            else removeRange (take k (map fst (pm_segs m)))))
      else removeRange (take k (map fst (pm_segs m)))) (m, s)"
proof -
  note D = map_relD [OF rel]
  have k_le: "k \<le> length fulls" using headCount_le [OF rel] k by simp
  have k': "length (takeWhile (\<lambda>ic. snd ic \<noteq> [] \<and> \<not> target \<le> proj (kvo_entry (hd (snd ic)))) (pm_segs m)) = k"
    by (simp add: k headCount_def)
  have "\<not> (k < length (pm_segs m) \<and> snd (pm_segs m ! k) = [])" using map_rel_seg(3) [OF rel, of k] D(7) by simp
  moreover have "(k = length (pm_segs m) \<or> target + 1 < proj (kvo_entry (hd (snd (pm_segs m ! k)))))
      \<longleftrightarrow> (k = length fulls \<or> target + 1 < proj (hd (fulls ! k)))"
    using map_rel_seg(4) [OF rel, of k] k_le D(7) by (cases "k < length fulls") auto
  moreover have "\<not> (pm_cache m \<noteq> [] \<and> proj (kvo_entry (hd (pm_cache m))) \<le> target + 1)"
    using front D(3) by (cases "cur = []") auto
  ultimately show ?thesis by (simp add: trim_head_def D(5) k' Let_def del: de_Morgan_conj)
qed

text \<open>
  Whatever the order of the entries by \<open>proj\<close>, \<^verbatim>\<open>trimHead\<close> drops some rolled segments from the front and
  nothing else.
\<close>

definition head_dropped :: "string \<Rightarrow> 'e PersistentMonoMap \<Rightarrow> filesys \<Rightarrow> 'e list list \<Rightarrow> 'e list
    \<Rightarrow> ErrorCode exec \<times> 'e PersistentMonoMap \<times> filesys \<Rightarrow> bool" where
  "head_dropped base m s fulls cur out \<longleftrightarrow> (\<exists>m' s' k. out = (Ret OK, (m', s')) \<and> outcomes s' = []
     \<and> map_rel K valid base m' s' (drop k fulls) cur \<and> elsewhere base s s'
     \<and> pm_max_size m' = pm_max_size m \<and> map fst (pm_segs m') = drop k (map fst (pm_segs m)))"

lemma head_droppedI:
  assumes "map_rel K valid base m1 s fulls cur" "outcomes s = []" "same_but_segs m m1"
  shows "head_dropped base m s fulls cur (removeRange (take k (map fst (pm_segs m))) (m1, s))"
    and "head_dropped base m s fulls cur (Ret OK, (m1, s))"
proof -
  note E = same_but_segsD [OF assms(3)]
  obtain m' s' where r: "removeRange (take k (map fst (pm_segs m1))) (m1, s) = (Ret OK, (m', s'))" "outcomes s' = []"
    "map_rel K valid base m' s' (drop k fulls) cur" "elsewhere base s s'" "m' = m1\<lparr>pm_segs := drop k (pm_segs m1)\<rparr>"
    using removeRange_front [OF assms(1,2), of k] by blast
  then show "head_dropped base m s fulls cur (removeRange (take k (map fst (pm_segs m))) (m1, s))"
    unfolding head_dropped_def using E(4,6) by (intro exI [of _ m'] exI [of _ s'] exI [of _ k]) (simp add: drop_map [symmetric])
  show "head_dropped base m s fulls cur (Ret OK, (m1, s))"
    unfolding head_dropped_def using E(4,6) assms by (intro exI [of _ m1] exI [of _ s] exI [of _ 0]) simp
qed

lemma trim_head_drops:
  assumes rel: "map_rel K valid base m s fulls cur" and q: "outcomes s = []"
  shows "head_dropped base m s fulls cur (trim_head K proj target (m, s))"
proof (cases "cur \<noteq> [] \<and> proj (hd cur) \<le> target + 1")
  case True
  note D = map_relD [OF rel]
  have "head_dropped base m s fulls cur (removeRange (take (length fulls) (map fst (pm_segs m))) (m, s))"
    "head_dropped base m s fulls cur (Ret OK, (m, s))" by (rule head_droppedI [OF rel q same_but_segs_refl])+
  then show ?thesis using True D(3,5,7) by (cases "pm_segs m = []") (simp_all add: trim_head_def Let_def)
next
  case False
  define k where "k = headCount proj target m"
  note run = trim_head_run [OF rel False k_def] and same = head_droppedI [OF rel q same_but_segs_refl]
  show ?thesis
  proof (cases "k \<noteq> 0 \<and> (k = length fulls \<or> target + 1 < proj (hd (fulls ! k)))")
    case True
    then have j: "k - 1 < length fulls" using headCount_le [OF rel, of proj target] unfolding k_def by linarith
    have c: "(k = 0) = False" "(k = length fulls \<or> target + 1 < proj (hd (fulls ! k))) = True" using True by simp_all
    obtain m1 where ld: "loadRolledLogSegmentFully K (map fst (pm_segs m) ! (k - 1)) (m, s) = (Ret OK, (m1, s))"
      and m1: "map_rel K valid base m1 s fulls cur" "same_but_segs m m1"
      and mo: "map_of (pm_segs m1) (map fst (pm_segs m) ! (k - 1)) = Some (withOffsets (kv_size K) 0 (fulls ! (k - 1)))"
      using load_looked_up [OF rel q j] by blast
    have "fulls ! (k - 1) \<noteq> []" using map_rel_seg(2) [OF rel j] .
    then show ?thesis unfolding run c if_True if_False using ld mo head_droppedI [OF m1(1) q m1(2)] by simp
  next
    case False
    then have "trim_head K proj target (m, s) \<in> {(Ret OK, (m, s)), removeRange (take k (map fst (pm_segs m))) (m, s)}"
      unfolding run by (cases "k = 0") simp_all
    then show ?thesis using same by auto
  qed
qed

lemma trim_head_rel:
  assumes rel: "map_rel K valid base m s fulls cur" and q: "outcomes s = []"
    and asc: "keys_ascend proj (concat fulls @ cur)"
  shows "head_trimmed proj target base s fulls cur (trim_head K proj target (m, s))"
proof -
  note D = map_relD [OF rel]
  have ne: "\<forall>full \<in> set fulls. full \<noteq> []" using map_rel_seg(2) [OF rel] by (metis in_set_conv_nth)
  show ?thesis
  proof (cases "cur \<noteq> [] \<and> proj (hd cur) \<le> target + 1")
    case True
    then have "\<forall>e \<in> set (concat fulls). proj e \<le> target"
      using asc unfolding keys_ascend_append by (metis hd_in_set le_less_trans less_le_trans not_le zless_add1_eq zle_add1_eq_le)
    then have "head_trimmed proj target base s fulls cur (removeRange (take (length fulls) (map fst (pm_segs m))) (m, s))"
      by (intro head_trimmedI [OF rel q]) auto
    then show ?thesis
      using True D(3,5,7) head_trimmed_same [OF rel q] by (cases "pm_segs m = []") (simp_all add: trim_head_def Let_def)
  next
    case False
    let ?P = "\<lambda>ic. snd ic \<noteq> [] \<and> \<not> target \<le> proj (kvo_entry (hd (snd ic)))"
    define k where "k = headCount proj target m"
    note run = trim_head_run [OF rel False k_def]
    have k_le: "k \<le> length fulls" unfolding k_def by (rule headCount_le [OF rel])
    have front: "j < length fulls \<Longrightarrow> kvo_entry (hd (snd (pm_segs m ! j))) = hd (fulls ! j)" for j
      using map_rel_seg(4) [OF rel] by simp
    have kn: "k < length fulls \<Longrightarrow> target \<le> proj (hd (fulls ! k))"
      using nth_length_takeWhile [of ?P "pm_segs m"] D(7) map_rel_seg(3,4) [OF rel, of k] by (auto simp: k_def headCount_def)
    have from_k: "\<forall>full \<in> set (drop k fulls). target \<le> proj (last full)"
      using segments_around(2) [OF asc _ ne, of k] kn by (cases "k < length fulls") fastforce+
    consider (none) "k = 0" | (load) "k \<noteq> 0" "k = length fulls \<or> target + 1 < proj (hd (fulls ! k))"
      | (gap) "k \<noteq> 0" "k < length fulls" "proj (hd (fulls ! k)) \<le> target + 1" using k_le by fastforce
    then show ?thesis
    proof cases
      case none
      then show ?thesis using run from_k head_trimmed_same [OF rel q] by simp
    next
      case gap
      have "\<forall>e \<in> set (concat (take k fulls)). proj e \<le> target"
        using segments_around(1) [OF asc gap(2) ne] gap(3) by fastforce
      then show ?thesis using run gap head_trimmedI [OF rel q _ from_k] by simp
    next
      case load
      have j: "k - 1 < length fulls" "Suc (k - 1) = k" using load(1) k_le by simp_all
      have "?P (pm_segs m ! (k - 1))"
        using load(1) takeWhile_nth_holds [of "k - 1" ?P "pm_segs m"] by (simp add: k_def headCount_def)
      then have hd_j: "proj (hd (fulls ! (k - 1))) < target" using front [OF j(1)] by simp
      have c: "(k = 0) = False" "(k = length fulls \<or> target + 1 < proj (hd (fulls ! k))) = True"
        using load by simp_all
      show ?thesis
        unfolding run c if_True if_False
        by (rule trim_head_load [OF rel q asc j(1) hd_j _ refl, unfolded j(2), OF from_k])
    qed
  qed
qed

end

end
