(* ===== verification/Nlog_MonoMap_Recover.thy ===== *)
theory Nlog_MonoMap_Recover
  imports Nlog_MonoMap_Update
begin

text \<open>
  Recovery of a persistent monotonic map from its files, whatever the order in which the directory
  lists them: the rolled files are found by their names, the current file is loaded and a torn
  entry at its end cut off.
\<close>

definition disk_rel ::
  "'e KeyValueOps \<Rightarrow> ('e \<Rightarrow> bool) \<Rightarrow> string \<Rightarrow> filesys \<Rightarrow> nat list \<Rightarrow> 'e list list \<Rightarrow> 'e list \<Rightarrow> bytes \<Rightarrow> bool" where
  "disk_rel K valid base s ids fulls cur torn \<longleftrightarrow>
     parent_path base \<in> set (dirs s) \<and> CHR ''/'' \<in> set base \<and> distinct (map fst (files s))
     \<and> content s base = Some (encodeKV K cur @ torn) \<and> length torn < kv_size K
     \<and> list_all2 (\<lambda>i full. full \<noteq> [] \<and> content s (segmentLogPath base i) = Some (encodeKV K full)) ids fulls
     \<and> (\<forall>p \<in> set (map fst (files s)). prefix base p \<longrightarrow> p = base \<or> p \<in> segmentLogPath base ` set ids)
     \<and> map_wf K valid ids fulls cur"

definition freshMap :: "string \<Rightarrow> nat \<Rightarrow> bool \<Rightarrow> 'e PersistentMonoMap" where
  "freshMap base mx pre = \<lparr>pm_max_size = mx, pm_preallocate = pre, pm_segs = [],
     pm_log_file = \<lparr>filename = base, read_only = False, fd = base\<rparr>, pm_log_size = 0, pm_loaded = False, pm_cache = []\<rparr>"

section \<open>Names\<close>

lemma is_digit_not_slash: "is_digit c \<Longrightarrow> c \<noteq> CHR ''/''"
  by (auto simp: is_digit_def)

lemma parent_path_segmentLogPath [simp]: "parent_path (segmentLogPath base i) = parent_path base"
proof -
  have "\<forall>c \<in> set (rev (nat_to_dec i)). c \<noteq> CHR ''/''"
    using nat_to_dec_digits [of i] is_digit_not_slash by (auto simp: list_all_iff)
  then have "dropWhile (\<lambda>c. c \<noteq> CHR ''/'') (rev (nat_to_dec i) @ CHR ''.'' # rev base)
      = dropWhile (\<lambda>c. c \<noteq> CHR ''/'') (CHR ''.'' # rev base)" by (intro dropWhile_append2) auto
  then show ?thesis by (simp add: parent_path_def segmentLogPath_def)
qed

lemma prefix_segmentLogPath [simp]: "prefix base (segmentLogPath base i)"
  by (simp add: segmentLogPath_def)

lemma drop_segmentLogPath [simp]: "drop (Suc (length base)) (segmentLogPath base i) = nat_to_dec i"
  by (simp add: segmentLogPath_def)

section \<open>Collecting the segments\<close>

definition firstOnly :: "nat \<Rightarrow> nat \<times> 'e list \<Rightarrow> nat \<times> 'e EntryContainer" where
  "firstOnly sz x = (fst x, withOffsets sz 0 [hd (snd x)])"

lemma fst_firstOnly [simp]: "fst (firstOnly sz x) = fst x"
  by (simp add: firstOnly_def)

lemma segs_emplace_front: "\<forall>x \<in> set xs. i < fst x \<Longrightarrow> segs_emplace i c xs = (i, c) # xs"
  by (cases xs) auto

lemma segs_emplace_filter:
  assumes "sorted_wrt (<) (map fst pairs)" "(i, full) \<in> set pairs" "\<not> P i"
  shows "segs_emplace i (withOffsets sz 0 [hd full]) (map (firstOnly sz) (filter (\<lambda>x. P (fst x)) pairs))
    = map (firstOnly sz) (filter (\<lambda>x. P (fst x) \<or> fst x = i) pairs)"
  using assms
proof (induction pairs)
  case (Cons x xs)
  have gt: "\<forall>y \<in> set xs. fst x < fst y" using Cons.prems(1) by auto
  show ?case
  proof (cases "fst x = i")
    case True
    then have "x = (i, full)" using Cons.prems(2) gt by fastforce
    moreover have "filter (\<lambda>y. P (fst y) \<or> fst y = i) xs = filter (\<lambda>y. P (fst y)) xs"
      using gt True by (intro filter_cong) auto
    moreover have "segs_emplace i c (map (firstOnly sz) (filter (\<lambda>y. P (fst y)) xs))
        = (i, c) # map (firstOnly sz) (filter (\<lambda>y. P (fst y)) xs)" for c
      using gt True by (intro segs_emplace_front) auto
    ultimately show ?thesis using Cons.prems(3) by (simp add: firstOnly_def [of _ "(i, full)"])
  next
    case False
    then have "(i, full) \<in> set xs" using Cons.prems(2) by auto
    then have "fst x < i" using gt by fastforce
    then show ?thesis using Cons False \<open>(i, full) \<in> set xs\<close> by (auto simp: firstOnly_def)
  qed
qed simp

context mono_key_value
begin

lemma loadRolledLogSegment_file:
  assumes lf: "pm_log_file m = \<lparr>filename = base, read_only = False, fd = base\<rparr>" and q: "outcomes s = []"
    and c: "content s (segmentLogPath base i) = Some (encodeKV K full)" and f: "full \<noteq> []" "valid (hd full)"
    and i: "0 < i" "i < 2 ^ 64"
  shows "loadRolledLogSegment K (segmentLogPath base i) (m, s)
    = (Ret OK, (m\<lparr>pm_segs := segs_emplace i (withOffsets (kv_size K) 0 [hd full]) (pm_segs m)\<rparr>, s))"
proof -
  let ?p = "segmentLogPath base i"
  let ?f = "\<lparr>filename = ?p, read_only = True, fd = ?p\<rparr>"
  obtain e es where full: "full = e # es" using f(1) by (cases full) auto
  have rd: "read_file ?f (kv_size K) 0 s = (okR (kv_serialize K e), s)"
    using read_file_quiet [OF q, of ?f _ "kv_size K" 0] c full length_serialize [of e] by simp
  have "kv_deserialize K (kv_serialize K e @ []) = (Ret e, [])" using f(2) full by (intro deserialize_serialize) simp
  then show ?thesis
    using lf i rd openFile_quiet [OF q, of ?p True] size_file_quiet [OF q, of ?f] c full length_serialize
    by (simp add: loadRolledLogSegment_def zeros_def Let_def)
qed

definition rec_inv ::
  "string \<Rightarrow> nat \<Rightarrow> filesys \<Rightarrow> (nat \<times> 'e list) list \<Rightarrow> 'e list \<Rightarrow> string set \<Rightarrow> 'e PersistentMonoMap \<Rightarrow> filesys \<Rightarrow> bool" where
  "rec_inv base mx s0 pairs cur D m s \<longleftrightarrow> pm_max_size m = mx \<and>
     pm_log_file m = \<lparr>filename = base, read_only = False, fd = base\<rparr> \<and> outcomes s = [] \<and> sameNames s0 s
     \<and> pm_segs m = map (firstOnly (kv_size K)) (filter (\<lambda>x. segmentLogPath base (fst x) \<in> D) pairs)
     \<and> (if base \<in> D then pm_loaded m \<and> pm_cache m = withOffsets (kv_size K) 0 cur
          \<and> pm_log_size m = length cur * kv_size K \<and> content s = (content s0)(base \<mapsto> encodeKV K cur)
        else pm_cache m = [] \<and> content s = content s0)"

lemma recover_files_rec:
  assumes disk: "disk_rel K valid base s0 ids fulls cur torn" and pairs: "pairs = zip ids fulls"
  shows "rec_inv base mx s0 pairs cur D m s \<Longrightarrow> distinct ps \<Longrightarrow> set ps \<inter> D = {} \<Longrightarrow> set ps \<subseteq> set (map fst (files s0)) \<Longrightarrow>
    \<exists>m' s'. recover_files K base ps (m, s) = (Ret OK, (m', s')) \<and> rec_inv base mx s0 pairs cur (D \<union> set ps) m' s'"
proof (induction ps arbitrary: D m s)
  case Nil
  then show ?case by simp
next
  case (Cons p ps)
  have wf: "map_wf K valid ids fulls cur" and len: "length ids = length fulls"
    using disk by (auto simp: disk_rel_def list_all2_lengthD)
  then have sorted: "sorted_wrt (<) (map fst pairs)" by (simp add: pairs map_wf_def)
  have step: "\<exists>m' s'. recover_files K base (p # ps) (m, s) = (Ret OK, (m', s')) \<and> rec_inv base mx s0 pairs cur (D \<union> set (p # ps)) m' s'"
    if "recover_files K base (p # ps) (m, s) = recover_files K base ps (m1, s1)" "rec_inv base mx s0 pairs cur (insert p D) m1 s1" for m1 s1
    using Cons.IH [OF that(2)] Cons.prems(2-4) that(1) by auto
  consider (other) "\<not> prefix base p" | (cur) "p = base" | (rolled) i where "p = segmentLogPath base i" "i \<in> set ids"
    using disk Cons.prems(4) by (auto simp: disk_rel_def)
  then show ?case
  proof cases
    case other
    then have "base \<noteq> p" "segmentLogPath base i \<noteq> p" for i by auto
    then have "rec_inv base mx s0 pairs cur (insert p D) m s" using Cons.prems(1) by (auto simp: rec_inv_def)
    then show ?thesis using other by (intro step) auto
  next
    case cur
    then have nd: "base \<notin> D" using Cons.prems(3) by auto
    let ?f = "pm_log_file m" and ?s = "if torn = [] then s else setContent base (encodeKV K cur) s"
    let ?m = "m\<lparr>pm_cache := withOffsets (kv_size K) 0 cur, pm_log_size := length cur * kv_size K, pm_loaded := True\<rparr>"
    have I: "?f = \<lparr>filename = base, read_only = False, fd = base\<rparr>" "outcomes s = []" "pm_cache m = []" "content s = content s0"
      using Cons.prems(1) nd by (auto simp: rec_inv_def)
    have d: "content s (fd ?f) = Some (encodeKV K cur @ torn)" "length torn < kv_size K"
      using disk I by (auto simp: disk_rel_def)
    have "\<forall>e \<in> set cur. valid e" "keys_ascend (kv_key K) cur" using wf by (auto simp: map_wf_def keys_ascend_append)
    from loadLogSegment_encode [OF I(2) d _ this]
    have ld: "loadLogSegment K ?f [] s = (Ret (okR (length cur * kv_size K), withOffsets (kv_size K) 0 cur), ?s)"
      using I(1) by simp
    have "recover_files K base (p # ps) (m, s) = recover_files K base ps (?m, ?s)"
      using cur ld I by (simp add: loadCurrentLogSegment_def)
    moreover have "rec_inv base mx s0 pairs cur (insert p D) ?m ?s"
      using Cons.prems(1) cur nd I d sameNames_trans [OF _ sameNames_setContent [of s base "encodeKV K cur"]]
      by (auto simp: rec_inv_def fun_eq_iff)
    ultimately show ?thesis by (rule step)
  next
    case rolled
    then obtain n where n: "n < length ids" "ids ! n = i" by (auto simp: in_set_conv_nth)
    define full where "full = fulls ! n"
    have la: "list_all2 (\<lambda>i full. full \<noteq> [] \<and> content s0 (segmentLogPath base i) = Some (encodeKV K full)) ids fulls"
      using disk by (simp add: disk_rel_def)
    have pr: "(i, full) \<in> set pairs" "full \<noteq> []" "content s0 p = Some (encodeKV K full)" "full \<in> set fulls"
      using list_all2_nthD [OF la n(1)] n len rolled(1) nth_mem [of n pairs] by (simp_all add: full_def pairs)
    have I: "pm_log_file m = \<lparr>filename = base, read_only = False, fd = base\<rparr>" "outcomes s = []"
      "content s p = content s0 p" using Cons.prems(1) rolled by (auto simp: rec_inv_def split: if_splits)
    have v: "valid (hd full)" "0 < i" "i < 2 ^ 64"
      using wf pr(2,4) rolled(2) hd_in_set [OF pr(2)] by (auto simp: map_wf_def simp del: hd_in_set)
    let ?m = "m\<lparr>pm_segs := segs_emplace i (withOffsets (kv_size K) 0 [hd full]) (pm_segs m)\<rparr>"
    have "loadRolledLogSegment K p (m, s) = (Ret OK, (?m, s))"
      using loadRolledLogSegment_file [OF I(1,2) _ pr(2) v] I(3) pr(3) rolled(1) by simp
    then have "recover_files K base (p # ps) (m, s) = recover_files K base ps (?m, s)" using rolled by simp
    moreover have "rec_inv base mx s0 pairs cur (insert p D) ?m s"
      using Cons.prems(1,3) rolled(1) segs_emplace_filter [OF sorted pr(1), of "\<lambda>j. segmentLogPath base j \<in> D"]
      by (auto simp: rec_inv_def disj_commute)
    ultimately show ?thesis by (rule step)
  qed
qed

text \<open>The sanity check accepts what the loop has collected.\<close>

lemma segs_in_order_firstOnly:
  assumes "keys_ascend (kv_key K) (map (hd \<circ> snd) pairs)"
  shows "segs_in_order K (map (firstOnly sz) pairs)"
  using assms
proof (induction pairs)
  case (Cons x xs)
  then show ?case
    by (cases xs) (auto simp: firstOnly_def keys_ascend_Cons intro: key_less)
qed simp

lemma keys_ascend_heads:
  assumes "keys_ascend f (concat fulls)" "\<forall>full \<in> set fulls. full \<noteq> []"
  shows "keys_ascend f (map hd fulls)"
  using assms
proof (induction fulls)
  case (Cons full fulls)
  have "\<forall>g \<in> set fulls. f (hd full) < f (hd g)"
  proof
    fix g
    assume g: "g \<in> set fulls"
    then have "hd full \<in> set full" "hd g \<in> set (concat fulls)" using Cons.prems(2) by (auto intro!: bexI [of _ g])
    then show "f (hd full) < f (hd g)" using Cons.prems(1) by (auto simp: keys_ascend_append)
  qed
  then show ?case using Cons by (auto simp: keys_ascend_Cons keys_ascend_append)
qed simp

text \<open>Recovery of a fresh map gives the map the files stand for.\<close>

lemma recover_rel:
  assumes disk: "disk_rel K valid base s ids fulls cur torn" and q: "outcomes s = []"
  shows "\<exists>m' s'. recover K (freshMap base mx pre, s) = (Ret OK, (m', s')) \<and> outcomes s' = []
    \<and> map_rel K valid base m' s' fulls cur \<and> pm_max_size m' = mx \<and> map fst (pm_segs m') = ids
    \<and> content s' = (content s)(base \<mapsto> encodeKV K cur) \<and> sameNames s s'"
proof -
  let ?pairs = "zip ids fulls" and ?ps = "directory_files s (parent_path base)" and ?m = "freshMap base mx pre :: 'e PersistentMonoMap"
  have la: "list_all2 (\<lambda>i full. full \<noteq> [] \<and> content s (segmentLogPath base i) = Some (encodeKV K full)) ids fulls"
    and wf: "map_wf K valid ids fulls cur" using disk by (simp_all add: disk_rel_def)
  have len: "length ids = length fulls" using la by (rule list_all2_lengthD)
  have keys: "content s p \<noteq> None \<longleftrightarrow> p \<in> set (map fst (files s))" for p
    by (simp add: content_def map_of_eq_None_iff)
  have "rec_inv base mx s ?pairs cur {} ?m s" using q by (simp add: rec_inv_def freshMap_def)
  moreover have "distinct ?ps" "set ?ps \<subseteq> set (map fst (files s))"
    using disk by (auto simp: disk_rel_def directory_files_def)
  ultimately obtain m' s' where rec: "recover_files K base ?ps (?m, s) = (Ret OK, (m', s'))"
    and inv: "rec_inv base mx s ?pairs cur (set ?ps) m' s'"
    using recover_files_rec [OF disk refl, of mx "{}" ?m s ?ps] by auto
  have base_in: "base \<in> set ?ps" using disk keys [of base] by (auto simp: disk_rel_def directory_files_def)
  have seg_in: "segmentLogPath base i \<in> set ?ps" if "i \<in> set ids" for i
  proof -
    from that obtain n where n: "n < length ids" "ids ! n = i" by (auto simp: in_set_conv_nth)
    then have "segmentLogPath base i \<in> set (map fst (files s))"
      using list_all2_nthD [OF la n(1)] keys by (metis option.distinct(1))
    moreover have "CHR ''/'' \<in> set (segmentLogPath base i)" using disk by (simp add: disk_rel_def segmentLogPath_def)
    ultimately show ?thesis by (simp add: directory_files_def)
  qed
  have "filter (\<lambda>x. segmentLogPath base (fst x) \<in> set ?ps) ?pairs = ?pairs"
    using seg_in by (intro filter_True) (auto dest: set_zip_leftD)
  then have segs: "pm_segs m' = map (firstOnly (kv_size K)) ?pairs" using inv by (simp add: rec_inv_def)
  have I: "pm_log_file m' = \<lparr>filename = base, read_only = False, fd = base\<rparr>" "outcomes s' = []" "pm_loaded m'"
    "pm_cache m' = withOffsets (kv_size K) 0 cur" "pm_log_size m' = length cur * kv_size K"
    "content s' = (content s)(base \<mapsto> encodeKV K cur)" using inv base_in by (auto simp: rec_inv_def)
  have "list_all2 (seg_rel K s' base) (pm_segs m') fulls"
    using la unfolding segs list_all2_conv_all_nth by (auto simp: seg_rel_def firstOnly_def I(6))
  moreover have ids: "map fst (pm_segs m') = ids" using len by (simp add: segs comp_def)
  ultimately have rel: "map_rel K valid base m' s' fulls cur" using I wf by (simp add: map_rel_def)
  have "keys_ascend (kv_key K) (map hd fulls)"
    using wf la by (intro keys_ascend_heads)
      (auto simp: map_wf_def keys_ascend_append list_all2_conv_all_nth in_set_conv_nth)
  then have "segs_in_order K (pm_segs m')" unfolding segs using len
    by (intro segs_in_order_firstOnly) (simp flip: map_map)
  moreover have "pm_max_size m' = mx" "sameNames s s'" using inv by (simp_all add: rec_inv_def)
  ultimately show ?thesis
    using rec rel I(2,6) ids disk by (auto simp: recover_def Let_def disk_rel_def exists_path_def freshMap_def)
qed

end

end
