(* ===== verification/Nlog_Indexes.thy ===== *)
theory Nlog_Indexes
  imports Nlog_MonoMap_Recover
begin

text \<open>
  The three indexes of a log segment, \<^verbatim>\<open>SequencePositionIndex\<close>, \<^verbatim>\<open>TimestampSequenceIndex\<close> and
  \<^verbatim>\<open>EpochSequenceIndex\<close> of \<^verbatim>\<open>src/src/Cluster/LocalLog/Indexes\<close>: each is a persistent monotonic map
  behind a lock. The properties of the map are stated here for these instances, the ones the
  program runs.
\<close>

section \<open>SequencePositionIndex\<close>

definition newSequencePositionIndex ::
  "string \<Rightarrow> nat \<Rightarrow> bool \<Rightarrow> (filesys, SequencePosition PersistentMonoMap) prog" where
  "newSequencePositionIndex ckpt_dir mx pre = newPersistentMonoMap (ckpt_dir @ ''/sn-pos.idx'') mx pre"

definition SequencePositionIndex_maybeIndex ::
  "SequencePosition \<Rightarrow> bool \<Rightarrow> (SequencePosition, bool CallResult) mapProg" where
  "SequencePositionIndex_maybeIndex = maybeIndex SequencePosition_ops"

definition lastIndexedSequencePosition :: "(SequencePosition, SequencePosition option CallResult) mapProg" where
  "lastIndexedSequencePosition = last_entry SequencePosition_ops"

definition firstIndexedSequencePosition :: "(SequencePosition, SequencePosition option CallResult) mapProg" where
  "firstIndexedSequencePosition = first_entry SequencePosition_ops"

definition leftLowerBoundPositionForSequence ::
  "int \<Rightarrow> (SequencePosition, SequencePosition option CallResult) mapProg" where
  "leftLowerBoundPositionForSequence sn = leftLowerBound SequencePosition_ops sn"

definition leftLowerBoundSequenceForPosition ::
  "int \<Rightarrow> (SequencePosition, SequencePosition option CallResult) mapProg" where
  "leftLowerBoundSequenceForPosition position = leftLowerBoundByValue SequencePosition_ops position"

definition lowerBoundSequenceForPosition ::
  "int \<Rightarrow> (SequencePosition, SequencePosition option CallResult) mapProg" where
  "lowerBoundSequenceForPosition position = lowerBoundByValue SequencePosition_ops position"

definition SequencePositionIndex_trim :: "int \<Rightarrow> (SequencePosition, ErrorCode) mapProg" where
  "SequencePositionIndex_trim sn = trim SequencePosition_ops sn"

definition SequencePositionIndex_trimHead :: "int \<Rightarrow> (SequencePosition, ErrorCode) mapProg" where
  "SequencePositionIndex_trimHead sn = trimHead SequencePosition_ops sn"

definition SequencePositionIndex_remove :: "(SequencePosition, ErrorCode) mapProg" where
  "SequencePositionIndex_remove = remove_all SequencePosition_ops"

definition SequencePositionIndex_close :: "(SequencePosition, int) mapProg" where
  "SequencePositionIndex_close = close_map"

section \<open>TimestampSequenceIndex\<close>

definition newTimestampSequenceIndex ::
  "string \<Rightarrow> nat \<Rightarrow> bool \<Rightarrow> (filesys, TimestampSequence PersistentMonoMap) prog" where
  "newTimestampSequenceIndex ckpt_dir mx pre = newPersistentMonoMap (ckpt_dir @ ''/ts-sn.idx'') mx pre"

definition TimestampSequenceIndex_maybeIndex ::
  "TimestampSequence \<Rightarrow> bool \<Rightarrow> (TimestampSequence, bool CallResult) mapProg" where
  "TimestampSequenceIndex_maybeIndex = maybeIndex TimestampSequence_ops"

definition lastIndexedTimestampSequence :: "(TimestampSequence, TimestampSequence option CallResult) mapProg" where
  "lastIndexedTimestampSequence = last_entry TimestampSequence_ops"

definition leftLowerBoundSequenceForTimestamp ::
  "int \<Rightarrow> (TimestampSequence, TimestampSequence option CallResult) mapProg" where
  "leftLowerBoundSequenceForTimestamp ts = leftLowerBound TimestampSequence_ops ts"

definition TimestampSequenceIndex_trim :: "int \<Rightarrow> (TimestampSequence, ErrorCode) mapProg" where
  "TimestampSequenceIndex_trim sn = trimByValue TimestampSequence_ops sn"

definition TimestampSequenceIndex_trimHead :: "int \<Rightarrow> (TimestampSequence, ErrorCode) mapProg" where
  "TimestampSequenceIndex_trimHead sn = trimHeadByValue TimestampSequence_ops sn"

definition TimestampSequenceIndex_remove :: "(TimestampSequence, ErrorCode) mapProg" where
  "TimestampSequenceIndex_remove = remove_all TimestampSequence_ops"

definition TimestampSequenceIndex_close :: "(TimestampSequence, int) mapProg" where
  "TimestampSequenceIndex_close = close_map"

section \<open>EpochSequenceIndex\<close>

definition newEpochSequenceIndex ::
  "string \<Rightarrow> nat \<Rightarrow> bool \<Rightarrow> (filesys, EpochSequence PersistentMonoMap) prog" where
  "newEpochSequenceIndex ckpt_dir mx pre = newPersistentMonoMap (ckpt_dir @ ''/epoch-sn.idx'') mx pre"

definition maybeIndexEpochStartSequence ::
  "EpochSequence \<Rightarrow> bool \<Rightarrow> (EpochSequence, bool CallResult) mapProg" where
  "maybeIndexEpochStartSequence = maybeIndex EpochSequence_ops"

definition leaderEpochSequenceFor :: "int \<Rightarrow> (EpochSequence, EpochSequence option CallResult) mapProg" where
  "leaderEpochSequenceFor sn = leftLowerBoundByValue EpochSequence_ops sn"

definition latestLeaderEpochSequence :: "(EpochSequence, EpochSequence option CallResult) mapProg" where
  "latestLeaderEpochSequence = last_entry EpochSequence_ops"

definition previousLeaderEpochSequence :: "(EpochSequence, EpochSequence option CallResult) mapProg" where
  "previousLeaderEpochSequence = prevLast EpochSequence_ops"

definition EpochIndex_latestLeaderEpoch :: "(EpochSequence, int option CallResult) mapProg" where
  "EpochIndex_latestLeaderEpoch = lastKey EpochSequence_ops"

definition previousLeaderEpoch :: "(EpochSequence, int option CallResult) mapProg" where
  "previousLeaderEpoch = prevLastKey EpochSequence_ops"

definition earliestLeaderEpochSequence :: "(EpochSequence, EpochSequence option CallResult) mapProg" where
  "earliestLeaderEpochSequence = first_entry EpochSequence_ops"

definition EpochSequenceIndex_trim :: "int \<Rightarrow> (EpochSequence, ErrorCode) mapProg" where
  "EpochSequenceIndex_trim sn = trimByValue EpochSequence_ops sn"

definition EpochSequenceIndex_trimHead :: "int \<Rightarrow> (EpochSequence, ErrorCode) mapProg" where
  "EpochSequenceIndex_trimHead sn = trimHeadByValue EpochSequence_ops sn"

definition EpochSequenceIndex_remove :: "(EpochSequence, ErrorCode) mapProg" where
  "EpochSequenceIndex_remove = remove_all EpochSequence_ops"

definition EpochSequenceIndex_close :: "(EpochSequence, int) mapProg" where
  "EpochSequenceIndex_close = close_map"

section \<open>A map in use\<close>

text \<open>
  A sequence index with one rolled segment and two entries in the current one: the state in which
  the properties below are tried out.
\<close>

definition demoBase :: string where
  "demoBase = ''d/sn-pos.idx''"

definition demoRolled :: "SequencePosition list" where
  "demoRolled = [\<lparr>sp_sn = 1, sp_file_position = 0\<rparr>, \<lparr>sp_sn = 5, sp_file_position = 40\<rparr>]"

definition demoCurrent :: "SequencePosition list" where
  "demoCurrent = [\<lparr>sp_sn = 9, sp_file_position = 80\<rparr>]"

definition demoFs :: "bytes \<Rightarrow> filesys" where
  "demoFs torn = \<lparr>files = [(segmentLogPath demoBase 1, encodeKV SequencePosition_ops demoRolled),
       (demoBase, encodeKV SequencePosition_ops demoCurrent @ torn)],
     dirs = [''d''], mtimes = (\<lambda>_. 0), clock = 0, outcomes = []\<rparr>"

definition demoMap :: "SequencePosition PersistentMonoMap" where
  "demoMap = \<lparr>pm_max_size = 32, pm_preallocate = False,
     pm_segs = [(1, withOffsets 16 0 [hd demoRolled])],
     pm_log_file = \<lparr>filename = demoBase, read_only = False, fd = demoBase\<rparr>,
     pm_log_size = 16, pm_loaded = True, pm_cache = withOffsets 16 0 demoCurrent\<rparr>"

lemmas demo_defs = demoRolled_def demoCurrent_def valid_SequencePosition_def int64_def

lemma demo_wf: "map_wf SequencePosition_ops valid_SequencePosition [1] [demoRolled] demoCurrent"
  by (simp add: map_wf_def demo_defs keys_ascend_def)

lemma demo_rel: "map_rel SequencePosition_ops valid_SequencePosition demoBase demoMap (demoFs []) [demoRolled] demoCurrent"
proof -
  have "length demoCurrent = 1" "demoRolled \<noteq> []" by (simp_all add: demo_defs)
  then show ?thesis
    using demo_wf by (simp add: map_rel_def seg_rel_def demoMap_def demoFs_def content_def)
qed

lemma demo_asc: "keys_ascend (kv_key SequencePosition_ops) (concat [demoRolled] @ demoCurrent)"
  using demo_wf by (simp add: map_wf_def)

lemma demo_disk: "disk_rel SequencePosition_ops valid_SequencePosition demoBase (demoFs [7]) [1] [demoRolled] demoCurrent [7]"
proof -
  have "demoRolled \<noteq> []" by (simp add: demo_defs)
  then show ?thesis
    using demo_wf
    by (simp add: disk_rel_def demoFs_def content_def parent_path_def) (simp add: demoBase_def)
qed

lemma demo_quiet [simp]: "outcomes (demoFs torn) = []"
  by (simp add: demoFs_def)

section \<open>Where the source leaves the map in trouble\<close>

context mono_key_value
begin

text \<open>
  With rolled segments below \<open>x\<close> and an empty current segment the search for the first entry
  \<open>\<ge> x\<close> takes the front of the empty cache.
\<close>

lemma find_ge_empty_cache:
  assumes rel: "map_rel K valid base m s fulls []" and q: "outcomes s = []"
    and asc: "keys_ascend proj (concat fulls)" and ne: "fulls \<noteq> []"
    and below: "\<forall>e \<in> set (concat fulls). proj e < x"
  shows "\<exists>m'. find_ge K proj x (m, s) = (Undef, (m', s))"
proof -
  note D = map_relD [OF rel]
  let ?n = "length fulls - 1"
  have n: "?n < length fulls" using ne by simp
  note S = map_rel_seg [OF rel n] and A = keys_ascend_nth [of proj fulls "[]", OF _ n]
  obtain i c where ic: "pm_segs m ! ?n = (i, c)" by fastforce
  obtain r where tk: "rev (pm_segs m) = (i, c) # r"
    using n D(7) ic by (cases "pm_segs m" rule: rev_cases) auto
  obtain m' where ld: "loadRolledLogSegmentFully K i (m, s) = (Ret OK, (m', s))"
    and rel': "map_rel K valid base m' s fulls []" and same: "same_but_segs m m'"
    and full: "snd (pm_segs m' ! ?n) = withOffsets (kv_size K) 0 (fulls ! ?n)"
    using loadRolledLogSegmentFully_rel [OF rel q n] ic by auto
  have len': "length (pm_segs m') = length fulls" using map_relD(7) [OF rel'] by simp
  have "fst (pm_segs m' ! ?n) = i"
    using same_but_segsD(6) [OF same] D(7) len' n ic by (metis fst_conv nth_map)
  then have mi: "map_of (pm_segs m') i = Some (withOffsets (kv_size K) 0 (fulls ! ?n))"
    using map_of_segs_nth [OF map_relD(10) [OF rel'], of ?n] n len' full by simp
  have all: "\<forall>e \<in> set (fulls ! ?n). proj e < x" using below nth_mem [OF n] by auto
  then have "length (takeWhile (\<lambda>e. proj e < x) (fulls ! ?n)) = length (fulls ! ?n)"
    by (simp add: takeWhile_eq_all_conv [THEN iffD2])
  then have lb: "lower_bound (\<lambda>kvo. proj (kvo_entry kvo) < x) (withOffsets (kv_size K) 0 (fulls ! ?n)) = length (fulls ! ?n)"
    using lower_bound_withOffsets [OF A(1), of x "kv_size K" 0] asc by simp
  have lt: "proj (hd (fulls ! ?n)) < x" using all S(2) by simp
  then show ?thesis
    using tk S(3,4) ic ld mi lb D(3) map_relD(3) [OF rel'] by (auto simp: find_ge_def Let_def)
qed

text \<open>With an empty current segment any entry is taken, whatever the rolled segments hold.\<close>

lemma maybeIndex_empty_cache:
  assumes rel: "map_rel K valid base m s fulls []" and q: "outcomes s = []" and mx: "0 < pm_max_size m"
  shows "maybeIndex K e sync (m, s) = (Ret (okR True),
    (m\<lparr>pm_cache := [\<lparr>kvo_entry = e, kvo_offset = 0\<rparr>], pm_log_size := kv_size K\<rparr>,
     setContent base (kv_serialize K e) s))"
proof -
  note D = map_relD [OF rel]
  have "kv_serialize K e \<noteq> []" using length_serialize [of e] size_pos by auto
  then have "append_file (pm_log_file m) (kv_serialize K e) s
      = (okR (kv_size K), setContent base (kv_serialize K e) s)"
    using append_file_quiet [OF q, of "pm_log_file m" "[]"] D(1,2) by (simp add: length_serialize)
  then show ?thesis
    using D q mx by (cases sync) (simp_all add: maybeIndex_def syncTail_file_def Let_def length_serialize)
qed

end

section \<open>Properties\<close>



text \<open>
  Property C15: \<^verbatim>\<open>leftLowerBoundPositionForSequence\<close> returns the last indexed entry whose sequence
  number is at most the one asked for, over the rolled files and the current one, and nothing when
  there is none.
\<close>

theorem sequence_index_leftLowerBound:
  assumes "map_rel SequencePosition_ops valid_SequencePosition base m s fulls cur" "outcomes s = []"
  shows "\<exists>m'. leftLowerBoundPositionForSequence sn (m, s)
      = (Ret (okR (find (\<lambda>e. sp_sn e \<le> sn) (rev (concat fulls @ cur)))), (m', s))
    \<and> map_rel SequencePosition_ops valid_SequencePosition base m' s fulls cur"
  using sp.bound_result_le [OF assms, of "kv_key SequencePosition_ops" sn] map_relD(8) [OF assms(1)]
  by (auto simp: leftLowerBoundPositionForSequence_def leftLowerBound_def findFirstEntryByKey_LessThanOrEqualTo_def
      map_wf_def)

theorem sequence_index_leftLowerBound_witness:
  "\<exists>m'. leftLowerBoundPositionForSequence 7 (demoMap, demoFs [])
      = (Ret (okR (Some \<lparr>sp_sn = 5, sp_file_position = 40\<rparr>)), (m', demoFs []))"
  using sequence_index_leftLowerBound [OF demo_rel demo_quiet, of 7] by (auto simp: demo_defs)

text \<open>
  \<^verbatim>\<open>lowerBoundSequenceForPosition\<close> returns the first indexed entry whose file position
  is at least the one asked for, when positions grow with sequence numbers and the current file is
  not the only empty one.
\<close>

lemma sequence_index_lowerBound:
  assumes "map_rel SequencePosition_ops valid_SequencePosition base m s fulls cur" "outcomes s = []"
    and "keys_ascend (\<lambda>e. int (sp_file_position e)) (concat fulls @ cur)" "cur \<noteq> [] \<or> fulls = []"
  shows "\<exists>m'. lowerBoundSequenceForPosition position (m, s)
      = (Ret (okR (find (\<lambda>e. position \<le> int (sp_file_position e)) (concat fulls @ cur))), (m', s))
    \<and> map_rel SequencePosition_ops valid_SequencePosition base m' s fulls cur"
  using sp.bound_result_ge [OF assms(1,2), of "kv_value SequencePosition_ops" position] assms(3,4)
  by (auto simp: lowerBoundSequenceForPosition_def lowerBoundByValue_def
      findFirstEntryByValue_EqualToOrGreaterThan_def)

lemma sequence_index_lowerBound_witness:
  "\<exists>m'. lowerBoundSequenceForPosition 50 (demoMap, demoFs [])
      = (Ret (okR (Some \<lparr>sp_sn = 9, sp_file_position = 80\<rparr>)), (m', demoFs []))"
  using sequence_index_lowerBound [OF demo_rel demo_quiet, of 50] by (auto simp: demo_defs keys_ascend_def)

text \<open>
  Property C17: \<^verbatim>\<open>SequencePositionIndex::trim\<close> keeps exactly the entries below the given sequence
  number, in memory and in the files, which are cut, removed and renamed accordingly. When the cut
  is in a rolled segment, \<^verbatim>\<open>log_size\<close> keeps the value it had for the removed current file.
\<close>

theorem sequence_index_trim:
  assumes "map_rel SequencePosition_ops valid_SequencePosition base m s fulls cur" "outcomes s = []"
    and "cur \<noteq> [] \<or> fulls = []"
  shows "\<exists>m' s' fulls' cur'. SequencePositionIndex_trim sn (m, s) = (Ret OK, (m', s'))
    \<and> map_rel SequencePosition_ops valid_SequencePosition base (m'\<lparr>pm_log_size := length cur' * 16\<rparr>) s' fulls' cur'
    \<and> concat fulls' @ cur' = takeWhile (\<lambda>e. sp_sn e < sn) (concat fulls @ cur)
    \<and> pm_log_size m' = (if \<forall>e \<in> set (concat fulls). sp_sn e < sn then length cur' * 16 else pm_log_size m)"
proof -
  have "keys_ascend sp_sn (concat fulls @ cur)" using map_relD(8) [OF assms(1)] by (simp add: map_wf_def)
  then have asc: "keys_ascend (kv_key SequencePosition_ops) (concat fulls @ cur)" by simp
  show ?thesis
    using sp.trim_tail_rel [OF assms(1,2) asc assms(3), of sn]
    unfolding SequencePositionIndex_trim_def trim_def findFirstEntryByKey_EqualToOrGreaterThan_def SequencePosition_ops_sel
    by blast
qed

theorem sequence_index_trim_witness:
  "\<exists>m' s' fulls' cur'. SequencePositionIndex_trim 5 (demoMap, demoFs []) = (Ret OK, (m', s'))
    \<and> map_rel SequencePosition_ops valid_SequencePosition demoBase (m'\<lparr>pm_log_size := length cur' * 16\<rparr>) s' fulls' cur'
    \<and> concat fulls' @ cur' = [\<lparr>sp_sn = 1, sp_file_position = 0\<rparr>]"
proof -
  have "takeWhile (\<lambda>e. sp_sn e < 5) (concat [demoRolled] @ demoCurrent) = [\<lparr>sp_sn = 1, sp_file_position = 0\<rparr>]"
    "demoCurrent \<noteq> []" by (simp_all add: demo_defs)
  then show ?thesis using sequence_index_trim [OF demo_rel demo_quiet, of 5] by auto
qed

text \<open>
  Property C19: in an index with rolled files, trimming at the first sequence number of the current file
  and then at the same place again reads the front of an empty cache: the second call has no defined
  behaviour.
\<close>

theorem sequence_index_trim_twice:
  assumes "map_rel SequencePosition_ops valid_SequencePosition base m s fulls cur" "outcomes s = []"
    and "cur \<noteq> []" "fulls \<noteq> []" "sn = sp_sn (hd cur)"
  shows "\<exists>m' s'. bindE (SequencePositionIndex_trim sn) (\<lambda>_. SequencePositionIndex_trim sn) (m, s) = (Undef, (m', s'))"
proof -
  let ?K = SequencePosition_ops and ?v = valid_SequencePosition
  have asc: "keys_ascend sp_sn (concat fulls @ cur)" using map_relD(8) [OF assms(1)] by (simp add: map_wf_def)
  then have below: "\<forall>e \<in> set (concat fulls). sp_sn e < sn" using assms(3,5) by (simp add: keys_ascend_append)
  have tw: "takeWhile (\<lambda>e. sp_sn e < sn) (concat fulls @ cur) = concat fulls"
    using takeWhile_split [OF below, of cur "[]"] takeWhile_none [OF assms(3), of "\<lambda>e. sp_sn e < sn"] assms(3,5) by simp
  obtain m1 s1 where one: "trim_tail ?K (find_ge ?K sp_sn sn) (m, s) = (Ret OK, (m1, s1))" "outcomes s1 = []"
    "map_rel ?K ?v base m1 s1 fulls []"
  proof -
    obtain m1 s1 cur1 where r: "trim_tail ?K (find_ge ?K sp_sn sn) (m, s) = (Ret OK, (m1, s1))" "outcomes s1 = []"
      "map_rel ?K ?v base (m1\<lparr>pm_log_size := length cur1 * 16\<rparr>) s1 fulls cur1" "concat fulls @ cur1 = concat fulls"
      "pm_log_size m1 = length cur1 * 16"
      using sp.trim_tail_rel [OF assms(1,2) asc _, of sn] below assms(3) unfolding tw SequencePosition_ops_sel by auto
    then have "map_rel ?K ?v base m1 s1 fulls []" by (simp add: map_rel_def)
    then show ?thesis using r(1,2) that by blast
  qed
  obtain m2 where "find_ge ?K sp_sn sn (m1, s1) = (Undef, (m2, s1))"
    using sp.find_ge_empty_cache [OF one(3,2) _ assms(4) below] asc by (auto simp: keys_ascend_append)
  then have "trim_tail ?K (find_ge ?K sp_sn sn) (m1, s1) = (Undef, (m2, s1))"
    using map_relD(5) [OF one(3)] by (simp add: trim_tail_def bindE_def)
  then show ?thesis
    using one(1) by (simp add: SequencePositionIndex_trim_def trim_def findFirstEntryByKey_EqualToOrGreaterThan_def)
qed

theorem sequence_index_trim_twice_witness:
  "\<exists>m' s'. bindE (SequencePositionIndex_trim 9) (\<lambda>_. SequencePositionIndex_trim 9) (demoMap, demoFs []) = (Undef, (m', s'))"
  by (rule sequence_index_trim_twice [OF demo_rel demo_quiet]) (simp_all add: demo_defs)

text \<open>
  Property C18: \<^verbatim>\<open>SequencePositionIndex::trimHead\<close> removes whole rolled files from the front, only
  ones all of whose sequence numbers are at most the target, and leaves no rolled file that ends
  below the target; the entries that stay are unchanged.
\<close>

theorem sequence_index_trimHead:
  assumes "map_rel SequencePosition_ops valid_SequencePosition base m s fulls cur" "outcomes s = []"
  shows "\<exists>m' s' k. SequencePositionIndex_trimHead sn (m, s) = (Ret OK, (m', s'))
    \<and> map_rel SequencePosition_ops valid_SequencePosition base m' s' (drop k fulls) cur
    \<and> (\<forall>e \<in> set (concat (take k fulls)). sp_sn e \<le> sn)
    \<and> (\<forall>full \<in> set (drop k fulls). sn \<le> sp_sn (last full))"
proof -
  have "keys_ascend sp_sn (concat fulls @ cur)" using map_relD(8) [OF assms(1)] by (simp add: map_wf_def)
  from sp.trim_head_rel [OF assms this, of sn] show ?thesis
    unfolding SequencePositionIndex_trimHead_def trimHead_def sp.head_trimmed_def SequencePosition_ops_sel by blast
qed

theorem sequence_index_trimHead_witness:
  "\<exists>m' s' k. SequencePositionIndex_trimHead 6 (demoMap, demoFs []) = (Ret OK, (m', s'))
    \<and> map_rel SequencePosition_ops valid_SequencePosition demoBase m' s' (drop k [demoRolled]) demoCurrent
    \<and> (\<forall>full \<in> set (drop k [demoRolled]). 6 \<le> sp_sn (last full))"
  using sequence_index_trimHead [OF demo_rel demo_quiet, of 6] by blast

text \<open>
  Property C14: opening an index on the files it left behind and recovering gives the same entries,
  for every order in which the directory lists the files; a torn entry at the end of the current
  file is cut off.
\<close>

theorem sequence_index_recover:
  assumes "disk_rel SequencePosition_ops valid_SequencePosition (ckpt_dir @ ''/sn-pos.idx'') s ids fulls cur torn"
    and "outcomes s = []"
  shows "\<exists>m m' s'. newSequencePositionIndex ckpt_dir mx pre s = (Ret m, s)
    \<and> recover SequencePosition_ops (m, s) = (Ret OK, (m', s'))
    \<and> map_rel SequencePosition_ops valid_SequencePosition (ckpt_dir @ ''/sn-pos.idx'') m' s' fulls cur"
proof -
  let ?b = "ckpt_dir @ ''/sn-pos.idx''"
  have "content s ?b \<noteq> None" using assms(1) by (auto simp: disk_rel_def)
  then have "newSequencePositionIndex ckpt_dir mx pre s = (Ret (freshMap ?b mx pre), s)"
    using openFile_quiet [OF assms(2), of ?b False]
    by (auto simp: newSequencePositionIndex_def newPersistentMonoMap_def AppendOnlyFile_open_def exists_file_def freshMap_def)
  then show ?thesis using sp.recover_rel [OF assms, of mx pre] by blast
qed

theorem sequence_index_recover_witness:
  "\<exists>m m' s'. newSequencePositionIndex ''d'' 32 False (demoFs [7]) = (Ret m, demoFs [7])
    \<and> recover SequencePosition_ops (m, demoFs [7]) = (Ret OK, (m', s'))
    \<and> map_rel SequencePosition_ops valid_SequencePosition ''d/sn-pos.idx'' m' s' [demoRolled] demoCurrent"
  using sequence_index_recover [of "''d''" "demoFs [7]"] demo_disk by (simp add: demoBase_def)

end
