(* ===== verification/Nlog_LogSegment.thy ===== *)
theory Nlog_LogSegment
  imports Nlog_FileLogEntries Nlog_Indexes
begin

text \<open>
  \<^verbatim>\<open>LogSegment\<close> of \<^verbatim>\<open>src/src/Cluster/LocalLog/Log/LogSegment.{h,cpp}\<close>: one file of the log with its
  base sequence. It holds every operation of the class, with the names of segment files that
  \<^verbatim>\<open>Loglet\<close> builds, and shows what an append leaves behind under faults and what recovery makes of
  a segment with a torn tail.
\<close>

section \<open>Names of segment files\<close>

text \<open>\<^verbatim>\<open>fmt::format("{:0wd}", n)\<close>; the sign counts towards the width.\<close>

definition pad0 :: "nat \<Rightarrow> string \<Rightarrow> string" where
  "pad0 w ds = replicate (w - length ds) CHR ''0'' @ ds"

definition format_int :: "nat \<Rightarrow> int \<Rightarrow> string" where
  "format_int w n = (if n < 0 then CHR ''-'' # pad0 (w - 1) (nat_to_dec (nat (- n))) else pad0 w (nat_to_dec (nat n)))"

definition filenamePrefixFrom :: "nat \<Rightarrow> int \<Rightarrow> string" where
  "filenamePrefixFrom segment_id sn = pad0 8 (nat_to_dec segment_id) @ ''-'' @ format_int 20 sn"

definition LOG_FILE_SUFFIX :: string where "LOG_FILE_SUFFIX = ''.log''"

definition DELETED_FILE_SUFFIX :: string where "DELETED_FILE_SUFFIX = ''.deleted''"

definition logFile :: "string \<Rightarrow> nat \<Rightarrow> int \<Rightarrow> string \<Rightarrow> string" where
  "logFile dir segment_id sn sfx = dir @ ''/'' @ filenamePrefixFrom segment_id sn @ LOG_FILE_SUFFIX @ sfx"

text \<open>\<^verbatim>\<open>fs::path::filename\<close> and \<^verbatim>\<open>fs::path::extension\<close>.\<close>

definition path_filename :: "string \<Rightarrow> string" where
  "path_filename p = rev (takeWhile (\<lambda>c. c \<noteq> CHR ''/'') (rev p))"

definition path_extension :: "string \<Rightarrow> string" where
  "path_extension p =
    (let f = path_filename p; e = takeWhile (\<lambda>c. c \<noteq> CHR ''.'') (rev f)
     in if length f \<le> length e + 1 then [] else CHR ''.'' # rev e)"

section \<open>Model\<close>

record LogSegment =
  seg_id :: nat
  base_sn :: int
  last_sync_offset :: nat
  seg_log :: FileLogEntries

definition newLogSegment :: "string \<Rightarrow> nat \<Rightarrow> int \<Rightarrow> bool \<Rightarrow> string \<Rightarrow> (filesys, LogSegment) prog" where
  "newLogSegment log_dir segment_id sn file_already_exists file_suffix =
     bindE (open_entries (logFile log_dir segment_id sn file_suffix) file_already_exists False) (\<lambda>l.
     retE \<lparr>seg_id = segment_id, base_sn = sn, last_sync_offset = 0, seg_log = l\<rparr>)"

definition seg_size :: "LogSegment \<Rightarrow> nat" where
  "seg_size g = fle_bytes (seg_log g)"

definition seg_filename :: "LogSegment \<Rightarrow> string" where
  "seg_filename g = filename (fle_file (seg_log g))"

text \<open>The error a file operation reports is replaced by the log's own code.\<close>

definition recode :: "ErrorCode \<Rightarrow> 'a CallResult \<Rightarrow> 'a CallResult" where
  "recode c r = (if hasError r then r\<lparr>error_code := c\<rparr> else r)"

definition seg_append_batch ::
  "LogSegment \<Rightarrow> bytes list \<Rightarrow> nat \<Rightarrow> (filesys, nat CallResult \<times> LogSegment) prog" where
  "seg_append_batch g entry_data total_bytes =
     bindE (append_entries (seg_log g) entry_data total_bytes) (\<lambda>(res, l).
     retE (recode CANNOT_WRITE_TO_FILE_DESCRIPTOR res, g\<lparr>seg_log := l\<rparr>))"

definition seg_append ::
  "LogSegment \<Rightarrow> bytes \<Rightarrow> filesys \<Rightarrow> (nat CallResult \<times> LogSegment) \<times> filesys" where
  "seg_append g entry_data s = (case append_entry (seg_log g) entry_data s of ((res, l), s') \<Rightarrow>
     ((recode CANNOT_WRITE_TO_FILE_DESCRIPTOR res, g\<lparr>seg_log := l\<rparr>), s'))"

definition seg_fetch :: "LogSegment \<Rightarrow> nat \<Rightarrow> nat \<Rightarrow> (filesys, FileLogEntries) prog" where
  "seg_fetch g position sz = slice (seg_log g) position sz"

definition seg_trim :: "LogSegment \<Rightarrow> nat \<Rightarrow> filesys \<Rightarrow> (nat CallResult \<times> LogSegment) \<times> filesys" where
  "seg_trim g position s = (case trim_entries (seg_log g) position s of ((res, l), s') \<Rightarrow>
     ((recode CANNOT_TRUNCATE_FILE res,
       g\<lparr>seg_log := l, last_sync_offset := min (last_sync_offset g) position\<rparr>), s'))"

definition seg_flush :: "LogSegment \<Rightarrow> bool \<Rightarrow> filesys \<Rightarrow> (ErrorCode \<times> LogSegment) \<times> filesys" where
  "seg_flush g incremental s =
    (case (if incremental then syncTail_file (fle_file (seg_log g)) (last_sync_offset g) s
           else sync_file (fle_file (seg_log g)) True s) of (err, s') \<Rightarrow>
       if err = 0 then ((OK, g\<lparr>last_sync_offset := seg_size g\<rparr>), s') else ((CANNOT_FLUSH_FILE, g), s'))"

definition seg_fsize :: "LogSegment \<Rightarrow> filesys \<Rightarrow> nat CallResult \<times> filesys" where
  "seg_fsize g s = (case size_file (fle_file (seg_log g)) s of (r, s') \<Rightarrow> (recode CANNOT_FSTAT r, s'))"

definition seg_lastModified :: "LogSegment \<Rightarrow> filesys \<Rightarrow> int CallResult \<times> filesys" where
  "seg_lastModified g s = (case lastModified_file (fle_file (seg_log g)) s of (r, s') \<Rightarrow> (recode CANNOT_FSTAT r, s'))"

text \<open>\<^verbatim>\<open>append_size\<close> is a \<^verbatim>\<open>uint32_t\<close>.\<close>

definition shouldRoll :: "LogSegment \<Rightarrow> LogConfig \<Rightarrow> u32 \<Rightarrow> bool" where
  "shouldRoll g config append_size \<longleftrightarrow> segment_size config < seg_size g + unat append_size"

definition seg_translateSequence :: "LogSegment \<Rightarrow> int \<Rightarrow> nat \<Rightarrow> (filesys, LogSequencePosition option) prog" where
  "seg_translateSequence g sn start_position = searchForSequenceWithSize (seg_log g) sn start_position"

text \<open>
  The callback of \<^verbatim>\<open>readNextSequenceAndCheckCorruption\<close> keeps \<^verbatim>\<open>last_sn\<close>, \<^verbatim>\<open>last_entry_start_offset\<close>
  and \<^verbatim>\<open>last_entry_size\<close> and never stops. A \<^verbatim>\<open>DB::Exception\<close> of the walk is caught. The result is
  \<^verbatim>\<open>({next_sn, last_entry_offset}, corrupted)\<close>.
\<close>

definition last_callback :: "int \<times> nat \<times> nat \<Rightarrow> Entry \<Rightarrow> nat \<Rightarrow> bool \<times> (int \<times> nat \<times> nat)" where
  "last_callback c entry entry_start_offset = (False, (e_sn entry, entry_start_offset, serializedSize entry))"

definition readNextSequenceAndCheckCorruption ::
  "LogSegment \<Rightarrow> nat \<Rightarrow> int \<Rightarrow> (filesys, (int \<times> nat) \<times> bool) prog" where
  "readNextSequenceAndCheckCorruption g start_position start_sn s =
    (let log_size = seg_size g in
     if log_size = 0 then (Ret ((base_sn g, 0), False), s)
     else bindE (seg_fetch g start_position log_size) (\<lambda>l s1.
       case applyLogEntryMetadata l last_callback None (start_sn, start_position, 0) s1 of
         (res, (last_sn, last_entry_start_offset, last_entry_size), s2) \<Rightarrow>
           (case res of
              Undef \<Rightarrow> (Undef, s2)
            | Diverge \<Rightarrow> (Diverge, s2)
            | _ \<Rightarrow>
              let corrupted = last_entry_start_offset + last_entry_size \<noteq> log_size
              in (Ret (if corrupted then ((last_sn, last_entry_start_offset), True)
                       else ((last_sn + 1, last_entry_start_offset), False)), s2))) s)"

definition readNextSequence :: "LogSegment \<Rightarrow> nat \<Rightarrow> int \<Rightarrow> (filesys, int) prog" where
  "readNextSequence g start_position start_sn =
     bindE (readNextSequenceAndCheckCorruption g start_position start_sn) (\<lambda>r. retE (fst (fst r)))"

definition seg_recover ::
  "LogSegment \<Rightarrow> SequencePosition \<Rightarrow> (filesys, (int \<times> nat) CallResult \<times> LogSegment) prog" where
  "seg_recover g last_sn_pos =
     bindE (readNextSequenceAndCheckCorruption g (sp_file_position last_sn_pos) (sp_sn last_sn_pos))
       (\<lambda>((next_sn, last_entry_offset), corrupted) s.
          if \<not> corrupted then (Ret (okR (next_sn, 0), g), s)
          else (case trim_entries (seg_log g) last_entry_offset s of ((res, l), s') \<Rightarrow>
                  if \<not> hasError res then (Ret (okR (next_sn, result res), g\<lparr>seg_log := l\<rparr>), s')
                  else (Ret (errR (0, 0) CANNOT_TRUNCATE_FILE, g\<lparr>seg_log := l\<rparr>), s')))"

definition seg_remove :: "LogSegment \<Rightarrow> filesys \<Rightarrow> (ErrorCode \<times> LogSegment) \<times> filesys" where
  "seg_remove g s =
    (let segment_file = seg_filename g in
     case close_entries (seg_log g) s of ((_, l), s1) \<Rightarrow>
     case sys_remove segment_file s1 of (ec, s2) \<Rightarrow>
       ((if ec \<noteq> 0 then CANNOT_DELETE_FILE else OK, g\<lparr>seg_log := l\<rparr>), s2))"

definition changeFileSuffix :: "LogSegment \<Rightarrow> string \<Rightarrow> filesys \<Rightarrow> (ErrorCode \<times> LogSegment) \<times> filesys" where
  "changeFileSuffix g new_suffix s =
    (if path_extension (seg_filename g) \<noteq> new_suffix then
       case renameTo (fle_file (seg_log g)) (seg_filename g @ new_suffix) s of (err, a, s') \<Rightarrow>
         let g' = g\<lparr>seg_log := (seg_log g)\<lparr>fle_file := a\<rparr>\<rparr> in
         if err \<noteq> 0 then ((if err = ENOENT then FILE_DOESNT_EXIST else ATOMIC_RENAME_FAIL, g'), s')
         else ((OK, g'), s')
     else ((OK, g), s))"

definition seg_updateParentDir :: "string \<Rightarrow> LogSegment \<Rightarrow> LogSegment" where
  "seg_updateParentDir parent_dir g =
     g\<lparr>seg_log := (seg_log g)\<lparr>fle_file := updateParentDir_file parent_dir (fle_file (seg_log g))\<rparr>\<rparr>"

section \<open>Recovery\<close>

text \<open>A segment whose byte count is the size of its file.\<close>

definition segOf :: "LogSegment \<Rightarrow> bytes \<Rightarrow> filesys \<Rightarrow> bool" where
  "segOf g bs s \<longleftrightarrow> entriesOf (seg_log g) bs s"

lemma segOfD:
  assumes "segOf g bs s"
  shows "content s (fd (fle_file (seg_log g))) = Some bs" "seg_size g = length bs" "length bs < 2 ^ 64"
    "start_pos (seg_log g) = 0" "\<not> read_only (fle_file (seg_log g))" "\<not> is_slice (seg_log g)"
  using assms by (simp_all add: segOf_def entriesOf_def seg_size_def)

lemma walk_last:
  assumes "\<forall>e \<in> set es. wfEntry e"
  shows "walk last_callback c off es = (False,
    (if es = [] then c else (e_sn (last es), off + length (logBytes (butlast es)), length (entryBytes (last es)))),
    off + length (logBytes es))"
  using assms
proof (induction es arbitrary: c off)
  case (Cons e es)
  then show ?case by (cases "es = []") (simp_all add: last_callback_def del: length_entryBytes)
qed simp

text \<open>The walk over whole entries and a torn one, from the end of the whole entries on.\<close>

lemma apply_loop_torn:
  assumes "outcomes s = []" "content s (fd a) = Some (pre @ take k (entryBytes t))" "off = length pre"
    and "wfEntry t" "metaFits t" "k < length (entryBytes t)" "en = length pre + k"
  shows "\<exists>x. apply_loop a en last_callback off c s =
      (x, if length (metaBytes t) \<le> k then (e_sn t, off, length (entryBytes t)) else c, s)
    \<and> x \<noteq> Undef \<and> x \<noteq> Diverge"
proof (cases "k = 0")
  case True
  have "0 < length (metaBytes t)" by (simp add: metaBytes_def)
  then show ?thesis using True assms(3,7) by (simp add: apply_loop_end)
next
  case False
  let ?m = approximateSerializedMetadataSize
  define b where "b = take (min ?m k) (entryBytes t)"
  have r: "read_file a ?m off s = (okR b, s)"
    using read_file_quiet [OF assms(1,2), of ?m off] assms(3) by (simp add: b_def)
  have "entryBytes t \<noteq> []" by (simp add: entryBytes_eq)
  then have ne: "b \<noteq> []" using False by (simp add: b_def approximateSerializedMetadataSize_def)
  have lt: "off < en" using False assms(3,7) by simp
  show ?thesis
  proof (cases "length (metaBytes t) \<le> k")
    case True
    then have p: "fst (parseEntry True b) = Ret (storedMeta t)"
      using parseEntry_meta_buffer [OF assms(4), of "min ?m k" "[]"] assms(5) by (simp add: b_def metaFits_def)
    have "apply_loop a en last_callback (off + length (entryBytes t)) c' s = (Ret (), c', s)" for c'
      using assms(3,6,7) by (intro apply_loop_end) simp
    then show ?thesis
      using True p ne lt r assms(4)
      by (subst apply_loop.simps) (simp add: last_callback_def del: length_entryBytes)
  next
    case f: False
    then have "min ?m k < length (metaBytes t)" by (simp add: min_less_iff_disj)
    from parseEntry_meta_short [OF assms(4) this, of "[]"] obtain x where "fst (parseEntry True b) = Throw x"
      unfolding b_def append_Nil2 by blast
    then show ?thesis using f ne lt r by (subst apply_loop.simps) simp
  qed
qed

definition tornLog :: "bytes \<Rightarrow> Entry list \<Rightarrow> nat \<Rightarrow> Entry \<Rightarrow> bytes" where
  "tornLog pre es k t = pre @ logBytes es @ take k (entryBytes t)"

lemma length_tornLog: "k \<le> length (entryBytes t) \<Longrightarrow> length (tornLog pre es k t) = length pre + length (logBytes es) + k"
  by (simp add: tornLog_def)

text \<open>What the tail check comes to: \<^verbatim>\<open>(last_sn, last_entry_start_offset, last_entry_size)\<close>.\<close>

definition lastSeen :: "int \<Rightarrow> nat \<Rightarrow> Entry list \<Rightarrow> nat \<Rightarrow> Entry \<Rightarrow> int \<times> nat \<times> nat" where
  "lastSeen sn p es k t =
    (if length (metaBytes t) \<le> k then (e_sn t, p + length (logBytes es), length (entryBytes t))
     else if es = [] then (sn, p, 0)
     else (e_sn (last es), p + length (logBytes (butlast es)), length (entryBytes (last es))))"

lemma readNextSequence_torn:
  assumes "outcomes s = []" "segOf g (tornLog pre es k t) s" "tornLog pre es k t \<noteq> []"
    and "\<forall>e \<in> set (t # es). wfEntry e \<and> metaFits e" "k < length (entryBytes t)"
    and "length pre + length (tornLog pre es k t) < 2 ^ 64" "lastSeen sn (length pre) es k t = (l, p, n)"
  shows "readNextSequenceAndCheckCorruption g (length pre) sn s =
    (Ret (if p + n \<noteq> length (tornLog pre es k t) then ((l, p), True) else ((l + 1, p), False)), s)"
proof -
  let ?b = "tornLog pre es k t" and ?a = "fle_file (seg_log g)"
  note g = segOfD [OF assms(2)]
  have c: "content s (fd ?a) = Some (pre @ logBytes es @ take k (entryBytes t))" using g(1) by (simp add: tornLog_def)
  have len: "length ?b = length pre + length (logBytes es) + k" using assms(5) by (simp add: length_tornLog)
  have sl: "seg_fetch g (length pre) (length ?b) s = (Ret \<lparr>fle_file = ?a, start_pos = length pre, end_pos = length ?b,
      is_slice = True, fle_eof = False, fle_bytes = length ?b\<rparr>, s)"
    using slice_quiet [OF assms(1) assms(2) [unfolded segOf_def], of "length pre" "length ?b"] assms(3,6) len
    by (auto simp: seg_fetch_def)
  let ?c = "if es = [] then (sn, length pre, 0)
    else (e_sn (last es), length pre + length (logBytes (butlast es)), length (entryBytes (last es)))"
  have "\<forall>e \<in> set es. wfEntry e \<and> metaFits e" "\<forall>e \<in> set es. wfEntry e" using assms(4) by simp_all
  from apply_loop_walk [OF assms(1) c this(1) refl _ walk_last [OF this(2)], of "length ?b"]
  have "apply_loop ?a (length ?b) last_callback (length pre) (sn, length pre, 0) s
      = apply_loop ?a (length ?b) last_callback (length (pre @ logBytes es)) ?c s"
    using len by simp
  moreover obtain x where "apply_loop ?a (length ?b) last_callback (length (pre @ logBytes es)) ?c s = (x, (l, p, n), s)"
    "x \<noteq> Undef" "x \<noteq> Diverge"
    using apply_loop_torn [OF assms(1), of ?a "pre @ logBytes es" k t _ "length ?b" ?c] c assms(4,5,7) len
    by (auto simp: lastSeen_def split: if_splits)
  ultimately have "applyLogEntryMetadata \<lparr>fle_file = ?a, start_pos = length pre, end_pos = length ?b,
      is_slice = True, fle_eof = False, fle_bytes = length ?b\<rparr> last_callback None (sn, length pre, 0) s = (x, (l, p, n), s)"
    by (simp add: applyLogEntryMetadata_def)
  with sl show ?thesis
    using assms(3) g(2) \<open>x \<noteq> Undef\<close> \<open>x \<noteq> Diverge\<close>
    by (cases x) (simp_all add: readNextSequenceAndCheckCorruption_def Let_def)
qed

lemma trim_entries_quiet:
  assumes "outcomes s = []" "entriesOf l bs s" "n \<le> length bs"
  shows "\<exists>s'. trim_entries l n s = ((okR (length bs - n), l\<lparr>fle_bytes := n\<rparr>), s') \<and> outcomes s' = []
    \<and> content s' = (content s)(fd (fle_file l) \<mapsto> take n bs) \<and> entriesOf (l\<lparr>fle_bytes := n\<rparr>) (take n bs) s' \<and> sameNames s s'"
  using assms truncate_file_quiet [OF assms(1), of "fle_file l" bs n]
  by (simp add: trim_entries_def entriesOf_def sameNames_setContent)

lemma seg_recover_torn:
  assumes "outcomes s = []" "segOf g (tornLog pre es k t) s" "tornLog pre es k t \<noteq> []"
    and "\<forall>e \<in> set (t # es). wfEntry e \<and> metaFits e" "k < length (entryBytes t)"
    and "length pre + length (tornLog pre es k t) < 2 ^ 64" "lastSeen sn (length pre) es k t = (l, p, n)"
    and "p + n \<noteq> length (tornLog pre es k t)" "p \<le> length (tornLog pre es k t)"
  shows "\<exists>s'. seg_recover g \<lparr>sp_sn = sn, sp_file_position = length pre\<rparr> s
      = (Ret (okR (l, length (tornLog pre es k t) - p), g\<lparr>seg_log := (seg_log g)\<lparr>fle_bytes := p\<rparr>\<rparr>), s') \<and> outcomes s' = [] \<and> sameNames s s'
    \<and> content s' = (content s)(fd (fle_file (seg_log g)) \<mapsto> take p (tornLog pre es k t))
    \<and> segOf (g\<lparr>seg_log := (seg_log g)\<lparr>fle_bytes := p\<rparr>\<rparr>) (take p (tornLog pre es k t)) s'"
proof -
  note r = readNextSequence_torn [OF assms(1-7)]
  obtain s' where s': "trim_entries (seg_log g) p s
      = ((okR (length (tornLog pre es k t) - p), (seg_log g)\<lparr>fle_bytes := p\<rparr>), s')" "outcomes s' = []" "sameNames s s'"
    "content s' = (content s)(fd (fle_file (seg_log g)) \<mapsto> take p (tornLog pre es k t))"
    "entriesOf ((seg_log g)\<lparr>fle_bytes := p\<rparr>) (take p (tornLog pre es k t)) s'"
    using trim_entries_quiet [OF assms(1) assms(2) [unfolded segOf_def] assms(9)] by blast
  show ?thesis
    using r s' assms(8) by (auto simp: seg_recover_def segOf_def bindE_def)
qed

section \<open>Properties\<close>

lemma readNextSequence_whole:
  assumes "outcomes s = []" "segOf g (pre @ logBytes es) s" "es \<noteq> []" "contiguous sn es"
    and "\<forall>e \<in> set es. wfEntry e \<and> metaFits e" "length pre + length (pre @ logBytes es) < 2 ^ 64"
  shows "readNextSequenceAndCheckCorruption g (length pre) sn s
    = (Ret ((sn + int (length es), length pre + length (logBytes (butlast es))), False), s)"
proof -
  let ?t = "last es"
  have log: "tornLog pre es 0 ?t = pre @ logBytes es" by (simp add: tornLog_def)
  have ne: "pre @ logBytes es \<noteq> []" using assms(3) by (cases es) (auto simp: entryBytes_eq)
  have "0 < length (metaBytes ?t)" by (simp add: metaBytes_def)
  then have ls: "lastSeen sn (length pre) es 0 ?t
      = (e_sn (last es), length pre + length (logBytes (butlast es)), length (entryBytes (last es)))"
    using assms(3) by (simp add: lastSeen_def)
  have "logBytes es = logBytes (butlast es) @ entryBytes (last es)"
    using assms(3) by (metis append_butlast_last_id append_Nil2 logBytes_simps)
  moreover have "\<forall>e \<in> set (?t # es). wfEntry e \<and> metaFits e" "0 < length (entryBytes ?t)" using assms(3,5) by (auto simp: entryBytes_eq)
  moreover have "e_sn (last es) + 1 = sn + int (length es)" using contiguous_last [of sn es] assms(3,4) by simp
  ultimately show ?thesis
    using readNextSequence_torn [of s g pre es 0 ?t sn, unfolded log, OF assms(1,2) ne _ _ assms(6) ls]
    by (simp del: length_entryBytes)
qed

lemma seg_recover_ok:
  assumes "outcomes s = []" "segOf g (tornLog pre es k t) s" "es \<noteq> [] \<or> k \<noteq> 0" "contiguous sn (es @ [t])"
    and "\<forall>e \<in> set (t # es). wfEntry e \<and> metaFits e" "k < length (entryBytes t)"
    and "length pre + length (tornLog pre es k t) < 2 ^ 64" "k = 0 \<or> length (metaBytes t) \<le> k"
  shows "\<exists>s'. seg_recover g \<lparr>sp_sn = sn, sp_file_position = length pre\<rparr> s
      = (Ret (okR (sn + int (length es), k), g\<lparr>seg_log := (seg_log g)\<lparr>fle_bytes := length (pre @ logBytes es)\<rparr>\<rparr>), s')
    \<and> outcomes s' = [] \<and> sameNames s s' \<and> content s' = (content s)(fd (fle_file (seg_log g)) \<mapsto> pre @ logBytes es)
    \<and> segOf (g\<lparr>seg_log := (seg_log g)\<lparr>fle_bytes := length (pre @ logBytes es)\<rparr>\<rparr>) (pre @ logBytes es) s'"
proof (cases "k = 0")
  case True
  then have log: "tornLog pre es k t = pre @ logBytes es" by (simp add: tornLog_def)
  have "contiguous sn es" "es \<noteq> []" "\<forall>e \<in> set es. wfEntry e \<and> metaFits e" using assms(3,4,5) True by (simp_all add: contiguous_append)
  from readNextSequence_whole [OF assms(1) assms(2) [unfolded log] this(2,1,3) assms(7) [unfolded log]]
  have "seg_recover g \<lparr>sp_sn = sn, sp_file_position = length pre\<rparr> s = (Ret (okR (sn + int (length es), 0), g), s)"
    by (simp add: seg_recover_def)
  moreover have "g\<lparr>seg_log := (seg_log g)\<lparr>fle_bytes := length (pre @ logBytes es)\<rparr>\<rparr> = g"
    using segOfD(2) [OF assms(2)] log by (simp add: seg_size_def)
  ultimately show ?thesis using assms(1,2) segOfD(1) [OF assms(2)] log True by (intro exI [of _ s]) (simp add: fun_upd_idem)
next
  case False
  then have m: "length (metaBytes t) \<le> k" using assms(8) by simp
  have len: "length (tornLog pre es k t) = length pre + length (logBytes es) + k" using assms(6) by (simp add: length_tornLog)
  then have ne: "tornLog pre es k t \<noteq> []" using False by auto
  have ls: "lastSeen sn (length pre) es k t = (e_sn t, length pre + length (logBytes es), length (entryBytes t))"
    using m by (simp add: lastSeen_def)
  moreover have "take (length pre + length (logBytes es)) (tornLog pre es k t) = pre @ logBytes es" by (simp add: tornLog_def)
  moreover have "e_sn t = sn + int (length es)" using assms(4) by simp
  ultimately show ?thesis using seg_recover_torn [OF assms(1,2) ne assms(5,6,7) ls] len assms(6) by simp
qed

text \<open>
  Property C29: recovery of a segment from an indexed entry on, when the last entry is torn behind its
  metadata: the whole entries stay, the torn one is cut off, and the next sequence follows the last
  whole entry. A segment that ends with a whole entry is left as it is.
\<close>

theorem segment_recover:
  assumes "outcomes s = []" "segOf g (tornLog pre es k t) s" "es \<noteq> []" "contiguous sn (es @ [t])"
    and "\<forall>e \<in> set (t # es). wfEntry e \<and> metaFits e" "k < length (entryBytes t)"
    and "length pre + length (tornLog pre es k t) < 2 ^ 64" "k = 0 \<or> length (metaBytes t) \<le> k"
  shows "\<exists>g' s'. seg_recover g \<lparr>sp_sn = sn, sp_file_position = length pre\<rparr> s
      = (Ret (okR (sn + int (length es), k), g'), s')
    \<and> content s' = (content s)(fd (fle_file (seg_log g)) \<mapsto> pre @ logBytes es)
    \<and> segOf g' (pre @ logBytes es) s'"
  using seg_recover_ok [OF assms(1,2) _ assms(4-8)] assms(3) by blast

definition demoSegment :: "bytes \<Rightarrow> LogSegment" where
  "demoSegment bs = \<lparr>seg_id = 1, base_sn = 1, last_sync_offset = 0,
     seg_log = \<lparr>fle_file = demoFile, start_pos = 0, end_pos = uint64_max, is_slice = False, fle_eof = False,
       fle_bytes = length bs\<rparr>\<rparr>"

lemma demoSegment_segOf: "length bs < 2 ^ 64 \<Longrightarrow> segOf (demoSegment bs) bs (demoDisk bs cs)"
  by (simp add: segOf_def entriesOf_def demoSegment_def demoFile_def demoDisk_def content_def)

definition demoTorn :: "nat \<Rightarrow> bytes" where
  "demoTorn k = tornLog [] (butlast demoLog) k (last demoLog)"

lemma demoTorn_facts:
  "length (demoTorn k) < 1000" "\<forall>e \<in> set (last demoLog # butlast demoLog). wfEntry e \<and> metaFits e"
  "contiguous 1 (butlast demoLog @ [last demoLog])" "length (metaBytes (last demoLog)) \<le> 18" "18 < length (entryBytes (last demoLog))"
proof -
  show "\<forall>e \<in> set (last demoLog # butlast demoLog). wfEntry e \<and> metaFits e"
    using demoLog_facts(1) demoLog_metaFits by (auto simp: demoLog_def)
  show "contiguous 1 (butlast demoLog @ [last demoLog])" using demoLog_facts(2,3) by simp
  show "length (metaBytes (last demoLog)) \<le> 18" "18 < length (entryBytes (last demoLog))" by code_simp+
  have "length (demoTorn k) \<le> length (logBytes demoLog)" by (simp add: demoTorn_def tornLog_def demoLog_def)
  then show "length (demoTorn k) < 1000"
    using length_entryBytes_le [of "demoEntry 1 [5]"] length_entryBytes_le [of "demoEntry 2 []"]
      length_entryBytes_le [of "demoEntry 3 [8, 9]"]
    by (simp add: demoLog_def) (simp add: demoEntry_def)
qed

lemma demoTorn_segOf:
  "segOf (demoSegment (demoTorn k)) (tornLog [] (butlast demoLog) k (last demoLog)) (demoDisk (demoTorn k) cs)"
  "outcomes (demoDisk bs []) = []" "length ([] :: bytes) + length (tornLog [] (butlast demoLog) k (last demoLog)) < 2 ^ 64"
  using demoSegment_segOf [of "demoTorn k"] demoTorn_facts(1) [of k] by (simp_all add: demoTorn_def demoDisk_def)

lemma butlast_demoLog: "butlast demoLog \<noteq> []" "length (butlast demoLog) = 2"
  by (simp_all add: demoLog_def)

lemma demoSegment_fd: "fd (fle_file (seg_log (demoSegment bs))) = ''a''"
  by (simp add: demoSegment_def demoFile_def)

theorem segment_recover_witness:
  "\<exists>g' s'. seg_recover (demoSegment (demoTorn 18)) \<lparr>sp_sn = 1, sp_file_position = 0\<rparr> (demoDisk (demoTorn 18) [])
    = (Ret (okR (3, 18), g'), s')
    \<and> content s' ''a'' = Some (logBytes (butlast demoLog))"
proof -
  have "18 = (0 :: nat) \<or> length (metaBytes (last demoLog)) \<le> 18" using demoTorn_facts(4) by blast
  from segment_recover [OF demoTorn_segOf(2,1) butlast_demoLog(1) demoTorn_facts(3,2,5) demoTorn_segOf(3) this]
  show ?thesis unfolding demoSegment_fd butlast_demoLog(2) by auto
qed

text \<open>
  Property C37: when the tail is torn inside the metadata of its last entry, recovery also cuts off the
  last whole entry and hands out its sequence again: the exception of the tail leaves the variables of
  the walk at the whole entry in front of it.
\<close>

theorem segment_recover_loses_entry:
  assumes "outcomes s = []" "segOf g (tornLog pre es k t) s" "es \<noteq> []" "contiguous sn (es @ [t])"
    and "\<forall>e \<in> set (t # es). wfEntry e \<and> metaFits e" "0 < k" "k < length (metaBytes t)"
    and "length pre + length (tornLog pre es k t) < 2 ^ 64"
  shows "\<exists>g' s'. seg_recover g \<lparr>sp_sn = sn, sp_file_position = length pre\<rparr> s
      = (Ret (okR (sn + int (length es) - 1, length (entryBytes (last es)) + k), g'), s')
    \<and> content s' = (content s)(fd (fle_file (seg_log g)) \<mapsto> pre @ logBytes (butlast es))"
proof -
  have ne: "tornLog pre es k t \<noteq> []" using assms(3) by (cases es) (auto simp: tornLog_def entryBytes_eq)
  have k: "k < length (entryBytes t)" using assms(7) length_metaBytes [of t] by simp
  have ls: "lastSeen sn (length pre) es k t
      = (e_sn (last es), length pre + length (logBytes (butlast es)), length (entryBytes (last es)))"
    using assms(3,7) by (simp add: lastSeen_def)
  have split: "logBytes es = logBytes (butlast es) @ entryBytes (last es)"
    using assms(3) by (metis append_butlast_last_id append_Nil2 logBytes_simps)
  have "length (tornLog pre es k t) = length pre + length (logBytes (butlast es)) + length (entryBytes (last es)) + k"
    using k by (simp add: length_tornLog split)
  moreover have "take (length pre + length (logBytes (butlast es))) (tornLog pre es k t) = pre @ logBytes (butlast es)"
    by (simp add: tornLog_def split)
  moreover have "e_sn (last es) = sn + int (length es) - 1" using contiguous_last [of sn es] assms(3,4) by simp
  ultimately show ?thesis
    using seg_recover_torn [OF assms(1,2) ne assms(5) k assms(8) ls] assms(6) by (auto simp del: length_entryBytes)
qed

theorem segment_recover_loses_entry_witness:
  "\<exists>n g' s'. seg_recover (demoSegment (demoTorn 5)) \<lparr>sp_sn = 1, sp_file_position = 0\<rparr> (demoDisk (demoTorn 5) [])
    = (Ret (okR (2, n), g'), s') \<and> content s' ''a'' = Some (entryBytes (demoEntry 1 [5]))"
proof -
  have k: "0 < (5 :: nat)" "5 < length (metaBytes (last demoLog))" by (simp, code_simp)
  from segment_recover_loses_entry [OF demoTorn_segOf(2,1) butlast_demoLog(1) demoTorn_facts(3,2) k demoTorn_segOf(3)]
  show ?thesis unfolding demoSegment_fd butlast_demoLog(2) by (auto simp: demoLog_def)
qed

text \<open>The walk when each read gets what it asks for in one call, and what is left of the outcomes.\<close>

lemma read_file_whole:
  assumes "content s (fd a) = Some bs" "outcomes s = Done m # cs" "n \<le> m" "off + n \<le> length bs" "0 < n"
  shows "read_file a n off s = (okR (take n (drop off bs)), s\<lparr>outcomes := cs\<rparr>)"
proof -
  have "sys_pread (fd a) n off s = (Inr (take n (drop off bs)), s\<lparr>outcomes := cs\<rparr>)"
    using assms by (simp add: sys_pread_def nextOutcome_def granted_def content_def max_def min_def)
  then show ?thesis
    using assms(4,5) by (simp add: read_file_def read_loop.simps [of _ n] read_loop.simps [of _ 0] min_def)
qed

lemma apply_loop_reads:
  assumes "content s (fd a) = Some (pre @ logBytes es @ rest)" "outcomes s = map Done ns @ cs" "length ns = length es"
    and "\<forall>m \<in> set ns. approximateSerializedMetadataSize \<le> m" "\<forall>e \<in> set es. wfEntry e \<and> metaFits e"
    and "es \<noteq> [] \<Longrightarrow> approximateSerializedMetadataSize \<le> length (entryBytes (last es)) + length rest"
    and "length pre + length (logBytes es) \<le> en" "walk cb c (length pre) es = (False, c', off')"
  shows "apply_loop a en cb (length pre) c s = apply_loop a en cb off' c' (s\<lparr>outcomes := cs\<rparr>)"
  using assms
proof (induction es arbitrary: pre c ns s)
  case (Cons e es)
  let ?m = approximateSerializedMetadataSize
  obtain m ms where ns: "ns = m # ms" using Cons.prems(3) by (cases ns) auto
  let ?s = "s\<lparr>outcomes := map Done ms @ cs\<rparr>" and ?b = "take ?m (entryBytes e @ logBytes es @ rest)"
  obtain c1 where cb: "cb c (storedMeta e) (length pre) = (False, c1)"
    "walk cb c1 (length (pre @ entryBytes e)) es = (False, c', off')"
    using Cons.prems(8) by (auto split: prod.splits if_splits simp del: length_entryBytes)
  have "length (entryBytes (last (e # es))) \<le> length (logBytes (e # es))"
    using append_butlast_last_id [of "e # es"] logBytes_simps(3) [of "butlast (e # es)" "[last (e # es)]"]
    by (metis le_add2 length_append list.distinct(1) logBytes_simps(1,2) append_Nil2)
  then have "length pre + ?m \<le> length (pre @ logBytes (e # es) @ rest)" using Cons.prems(6) by (simp del: length_entryBytes)
  then have r: "read_file a ?m (length pre) s = (okR ?b, ?s)"
    using read_file_whole [OF Cons.prems(1), of m "map Done ms @ cs" ?m "length pre"] Cons.prems(2,4) ns
    by (simp add: approximateSerializedMetadataSize_def del: length_entryBytes)
  have p: "fst (parseEntry True ?b) = Ret (storedMeta e)"
    using parseEntry_meta_buffer [of e ?m "logBytes es @ rest"] Cons.prems(5) unfolding metaFits_def by auto
  have ne: "?b \<noteq> []" by (simp add: approximateSerializedMetadataSize_def entryBytes_eq)
  have "length pre < en" using Cons.prems(7) by simp
  then have "apply_loop a en cb (length pre) c s = apply_loop a en cb (length (pre @ entryBytes e)) c1 ?s"
    using Cons.prems(5) p ne cb(1) by (subst apply_loop.simps) (simp add: r)
  also have "\<dots> = apply_loop a en cb off' c' (?s\<lparr>outcomes := cs\<rparr>)"
    using Cons.prems ns cb(2) by (intro Cons.IH [of _ _ ms]) (auto simp: content_def simp del: length_entryBytes)
  finally show ?case by simp
next
  case Nil
  then have same: "s\<lparr>outcomes := cs\<rparr> = s" by auto
  show ?case unfolding same using Nil.prems(8) by simp
qed



text \<open>
  Property C39: an index whose last record is ahead of the segment file, as after a crash that kept the
  index but not the log, is not detected. With the record past the end of the file, recovery
  \<^emph>\<open>extends\<close> the file with zeros up to it, reports success, and the sequences in between are gone.
  With the record exactly at the end, the next sequence is one too high.
\<close>

theorem segment_recover_index_ahead:
  assumes "outcomes s = []" "segOf g bs s" "bs \<noteq> []" "length bs \<le> p" "p + length bs < 2 ^ 64"
  shows "\<exists>r g' s'. seg_recover g \<lparr>sp_sn = sn, sp_file_position = p\<rparr> s = (Ret (okR r, g'), s')
    \<and> (if p = length bs then r = (sn + 1, 0) \<and> s' = s
       else fst r = sn \<and> content s' = (content s)(fd (fle_file (seg_log g)) \<mapsto> bs @ zeros (p - length bs)))"
proof -
  let ?a = "fle_file (seg_log g)" and ?n = "sub64 (length bs) p"
  note g = segOfD [OF assms(2)]
  have e: "add64 p ?n = length bs"
    using assms(4,5) by (cases "p = length bs") (simp_all add: add64_def sub64_def mod_add_right_eq)
  have "availableBytes (seg_log g) p (length bs) = ?n"
    using g assms(3,4,5) by (auto simp: availableBytes_def Let_def seg_size_def)
  then have sl: "seg_fetch g p (length bs) s = (Ret \<lparr>fle_file = ?a, start_pos = p, end_pos = length bs,
      is_slice = True, fle_eof = False, fle_bytes = length bs\<rparr>, s)"
    using g e size_file_quiet [OF assms(1) g(1)] by (simp add: seg_fetch_def slice_def newFileLogEntries_def)
  have "apply_loop ?a (length bs) last_callback p (sn, p, 0) s = (Ret (), (sn, p, 0), s)"
    using assms(4) by (rule apply_loop_end)
  then have r: "readNextSequenceAndCheckCorruption g p sn s
      = (Ret (if p \<noteq> length bs then ((sn, p), True) else ((sn + 1, p), False)), s)"
    using sl g(2) assms(3) by (simp add: readNextSequenceAndCheckCorruption_def applyLogEntryMetadata_def Let_def)
  have t: "truncate_file ?a p s = (0, setContent (fd ?a) (bs @ zeros (p - length bs)) s)"
    using g(1,5) assms(1,4) by (simp add: truncate_file_def sys_ftruncate_def Let_def)
  show ?thesis
  proof (cases "p = length bs")
    case True
    then show ?thesis using r by (auto simp: seg_recover_def)
  next
    case False
    then show ?thesis using r t by (auto simp: seg_recover_def trim_entries_def)
  qed
qed

theorem segment_recover_index_ahead_witness:
  "\<exists>r g' s'. seg_recover (demoSegment [7]) \<lparr>sp_sn = 9, sp_file_position = 3\<rparr> (demoDisk [7] []) = (Ret (okR r, g'), s')
    \<and> fst r = 9 \<and> content s' ''a'' = Some [7, 0, 0]"
proof -
  have s: "outcomes (demoDisk [7] []) = []" "segOf (demoSegment [7]) [7] (demoDisk [7] [])"
    using demoSegment_segOf [of "[7]"] by (simp_all add: demoDisk_def)
  have z: "[7] @ zeros (3 - length [7 :: byte]) = [7, 0, 0]" by (simp add: zeros_def numeral_eq_Suc)
  have p: "[7 :: byte] \<noteq> []" "length [7 :: byte] \<le> 3" "3 + length [7 :: byte] < 2 ^ 64" "3 \<noteq> length [7 :: byte]" by simp_all
  from segment_recover_index_ahead [OF s p(1-3), of 9] show ?thesis
    unfolding if_not_P [OF p(4)] demoSegment_fd z by auto
qed

text \<open>
  Property C36: whatever faults occur, an append to a segment returns and the size the segment reports
  stays the size of its file; without an error the batch is behind the old contents.
\<close>

theorem segment_append_size:
  assumes "segOf g bs s" "batch \<noteq> []" "length bs + length (concat batch) < 2 ^ 64"
  shows "\<exists>r g' s' bs'. seg_append_batch g batch (length (concat batch)) s = (Ret (r, g'), s')
    \<and> segOf g' bs' s' \<and> (hasError r \<longrightarrow> error_code r = CANNOT_WRITE_TO_FILE_DESCRIPTOR)
    \<and> (\<not> hasError r \<longrightarrow> bs' = bs @ concat batch \<and> result r = length (concat batch))"
proof -
  note g = segOfD [OF assms(1)]
  from append_batch_content [OF g(1) assms(2)] obtain r s' where
    r: "append_batch (fle_file (seg_log g)) batch (length (concat batch)) s = (Ret r, s')"
    "content s' = (content s)(fd (fle_file (seg_log g)) \<mapsto> bs @ take (result r) (concat batch))"
    "result r \<le> length (concat batch)" "\<not> hasError r \<longrightarrow> result r = length (concat batch)" .
  let ?l = "(seg_log g)\<lparr>fle_bytes := fle_bytes (seg_log g) + result r\<rparr>"
  have "seg_append_batch g batch (length (concat batch)) s
      = (Ret (recode CANNOT_WRITE_TO_FILE_DESCRIPTOR r, g\<lparr>seg_log := ?l\<rparr>), s')"
    using r(1) by (simp add: seg_append_batch_def append_entries_def)
  moreover have "segOf (g\<lparr>seg_log := ?l\<rparr>) (bs @ take (result r) (concat batch)) s'"
    using r(2,3) g assms(3) by (simp add: segOf_def entriesOf_def seg_size_def)
  moreover have "hasError (recode CANNOT_WRITE_TO_FILE_DESCRIPTOR r) \<longleftrightarrow> hasError r"
    "hasError r \<longrightarrow> error_code (recode CANNOT_WRITE_TO_FILE_DESCRIPTOR r) = CANNOT_WRITE_TO_FILE_DESCRIPTOR"
    "result (recode CANNOT_WRITE_TO_FILE_DESCRIPTOR r) = result r"
    by (simp_all add: recode_def hasError_def)
  ultimately show ?thesis using r(4) by fastforce
qed

theorem segment_append_size_witness:
  "\<exists>r g' s' bs'. seg_append_batch (demoSegment [7]) [[1, 2], [3]] 3 (demoDisk [7] [Done 1, Fail 28]) = (Ret (r, g'), s')
    \<and> segOf g' bs' s'"
proof -
  have l: "length (concat [[1, 2], [3]] :: bytes) = 3" by simp
  have p: "length [7 :: byte] < 2 ^ 64" "[[1, 2], [3]] \<noteq> ([] :: bytes list)"
    "length [7 :: byte] + length (concat [[1, 2], [3]] :: bytes) < 2 ^ 64" by simp_all
  show ?thesis using segment_append_size [OF demoSegment_segOf [OF p(1)] p(2,3)] unfolding l by blast
qed

end
