(* ===== verification/Nlog_LogSegments.thy ===== *)
theory Nlog_LogSegments
  imports Nlog_LogSegment
begin

text \<open>
  \<^verbatim>\<open>LogSegments\<close> of \<^verbatim>\<open>src/src/Cluster/LocalLog/Log/LogSegments.{h,cpp}\<close>: the segments of a log by base
  sequence, a \<^verbatim>\<open>std::map<int64_t, LogSegmentPtr>\<close>. The map is the list of its items in key order, an
  iterator is an index into it and \<^verbatim>\<open>end()\<close> its length. The contract of the table, an ordered map
  with neighbour queries, is the locale \<open>segment_table\<close>; \<open>tbl\<close> interprets it on the operations here.
\<close>

section \<open>std::map\<close>

type_synonym LogSegments = "(int \<times> LogSegment) list"

fun map_insert :: "int \<Rightarrow> 'v \<Rightarrow> (int \<times> 'v) list \<Rightarrow> (int \<times> 'v) list" where
  "map_insert k v [] = [(k, v)]"
| "map_insert k v (x # xs) =
    (if k < fst x then (k, v) # x # xs else if k = fst x then (k, v) # xs else x # map_insert k v xs)"

definition map_erase :: "int \<Rightarrow> (int \<times> 'v) list \<Rightarrow> (int \<times> 'v) list" where
  "map_erase k xs = filter (\<lambda>x. fst x \<noteq> k) xs"

text \<open>\<^verbatim>\<open>lower_bound\<close>: the first item whose key is not below; \<^verbatim>\<open>upper_bound\<close>: the first above.\<close>

definition map_lower_bound :: "int \<Rightarrow> (int \<times> 'v) list \<Rightarrow> nat" where
  "map_lower_bound k xs = length (takeWhile (\<lambda>x. fst x < k) xs)"

definition map_upper_bound :: "int \<Rightarrow> (int \<times> 'v) list \<Rightarrow> nat" where
  "map_upper_bound k xs = length (takeWhile (\<lambda>x. fst x \<le> k) xs)"

section \<open>Model\<close>

definition segs_add :: "LogSegment \<Rightarrow> LogSegments \<Rightarrow> LogSegments" where
  "segs_add g = map_insert (base_sn g) g"

definition segs_remove :: "int \<Rightarrow> LogSegments \<Rightarrow> LogSegments" where
  "segs_remove sn = map_erase sn"

definition segs_get :: "int \<Rightarrow> LogSegments \<Rightarrow> LogSegment option" where
  "segs_get sn xs = map_of xs sn"

definition segs_contains :: "int \<Rightarrow> LogSegments \<Rightarrow> bool" where
  "segs_contains sn xs \<longleftrightarrow> map_of xs sn \<noteq> None"

definition firstSegment :: "LogSegments \<Rightarrow> LogSegment option" where
  "firstSegment xs = (if xs = [] then None else Some (snd (hd xs)))"

definition lastSegment :: "LogSegments \<Rightarrow> LogSegment option" where
  "lastSegment xs = (if xs = [] then None else Some (snd (last xs)))"

definition activeSegment :: "LogSegments \<Rightarrow> LogSegment option" where
  "activeSegment xs = lastSegment xs"

definition higherSegment :: "int \<Rightarrow> LogSegments \<Rightarrow> LogSegment option" where
  "higherSegment sn xs =
    (let iter = map_upper_bound sn xs in if iter \<noteq> length xs then Some (snd (xs ! iter)) else None)"

definition lowerSegment :: "int \<Rightarrow> LogSegments \<Rightarrow> LogSegment option" where
  "lowerSegment sn xs =
    (let iter = map_lower_bound sn xs
     in if iter = length xs then None
        else if iter \<noteq> 0 then Some (snd (xs ! (iter - 1)))
        else None)"

definition floorSegment :: "int \<Rightarrow> LogSegments \<Rightarrow> LogSegment option" where
  "floorSegment sn xs =
    (if xs = [] then None
     else let iter = map_lower_bound sn xs
          in if iter = length xs then Some (snd (last xs))
             else if fst (xs ! iter) = sn then Some (snd (xs ! iter))
             else if iter \<noteq> 0 then Some (snd (xs ! (iter - 1)))
             else None)"

definition lowerEqualSegments :: "int \<Rightarrow> LogSegments \<Rightarrow> LogSegment list" where
  "lowerEqualSegments sn xs =
    (let iter_end = map_lower_bound sn xs
     in if iter_end \<noteq> length xs then
          if fst (xs ! iter_end) = sn then map snd (take (iter_end + 1) xs)
          else if iter_end = 0 then []
          else map snd (take iter_end xs)
        else map snd (take iter_end xs))"

definition upperSegments :: "int \<Rightarrow> LogSegments \<Rightarrow> LogSegment list" where
  "upperSegments sn xs = map snd (drop (map_upper_bound sn xs) xs)"

definition baseSequences :: "LogSegments \<Rightarrow> int list" where
  "baseSequences xs = map (\<lambda>x. base_sn (snd x)) xs"

definition sequenceRange :: "LogSegments \<Rightarrow> int \<times> int" where
  "sequenceRange xs = (if xs = [] then (- 1, - 1) else (base_sn (snd (hd xs)), base_sn (snd (last xs))))"

definition segmentsBetween :: "int \<Rightarrow> int \<Rightarrow> LogSegments \<Rightarrow> LogSegment list" where
  "segmentsBetween from_sn to xs =
    (if to \<le> from_sn then []
     else let iter = map_lower_bound from_sn xs
          in if iter = length xs \<or> to \<le> fst (xs ! iter) then []
             else let high_iter = map_lower_bound to xs
                  in map snd (drop iter (take high_iter xs)))"

definition allSegments :: "LogSegments \<Rightarrow> LogSegment list" where
  "allSegments xs = map snd xs"

text \<open>\<^verbatim>\<open>apply\<close> with a function that may change the segments it is given and what it captures.\<close>

fun segs_apply :: "('c \<Rightarrow> LogSegment \<Rightarrow> bool \<times> LogSegment \<times> 'c) \<Rightarrow> 'c \<Rightarrow> LogSegments \<Rightarrow> LogSegments \<times> 'c" where
  "segs_apply func c [] = ([], c)"
| "segs_apply func c ((k, g) # xs) =
    (case func c g of (stop, g', c') \<Rightarrow>
       if stop then ((k, g') # xs, c')
       else (case segs_apply func c' xs of (xs', c'') \<Rightarrow> ((k, g') # xs', c'')))"

definition segs_updateParentDir :: "string \<Rightarrow> LogSegments \<Rightarrow> LogSegments" where
  "segs_updateParentDir parent_dir xs =
     fst (segs_apply (\<lambda>c g. (False, seg_updateParentDir parent_dir g, c)) () xs)"

definition segs_clear :: "LogSegments \<Rightarrow> LogSegments" where
  "segs_clear xs = []"

definition segs_empty :: "LogSegments \<Rightarrow> bool" where
  "segs_empty xs \<longleftrightarrow> xs = []"

definition segs_size :: "LogSegments \<Rightarrow> nat" where
  "segs_size xs = length xs"

text \<open>A change made through the pointer the table holds for a base sequence.\<close>

definition segs_put :: "LogSegment \<Rightarrow> LogSegments \<Rightarrow> LogSegments" where
  "segs_put g xs = map (\<lambda>x. if fst x = base_sn g then (fst x, g) else x) xs"

section \<open>Sorted tables\<close>

text \<open>Keys ascend and each is the base sequence of its segment.\<close>

definition segs_wf :: "LogSegments \<Rightarrow> bool" where
  "segs_wf xs \<longleftrightarrow> sorted_wrt (<) (map fst xs) \<and> (\<forall>x \<in> set xs. base_sn (snd x) = fst x)"

lemma segs_wf_Cons:
  "segs_wf (x # xs) \<longleftrightarrow> segs_wf xs \<and> base_sn (snd x) = fst x \<and> (\<forall>y \<in> set xs. fst x < fst y)"
  by (auto simp: segs_wf_def)

lemma segs_wf_append:
  "segs_wf (xs @ ys) \<longleftrightarrow> segs_wf xs \<and> segs_wf ys \<and> (\<forall>x \<in> set xs. \<forall>y \<in> set ys. fst x < fst y)"
  by (auto simp: segs_wf_def sorted_wrt_append)

lemma segs_wf_Nil [simp]: "segs_wf []"
  by (simp add: segs_wf_def)

lemma set_map_insert: "set (map_insert k v xs) \<subseteq> {(k, v)} \<union> set xs"
  by (induction xs) auto

lemma segs_wf_add: "segs_wf xs \<Longrightarrow> segs_wf (segs_add g xs)"
  unfolding segs_add_def
proof (induction xs)
  case (Cons x xs)
  then show ?case using set_map_insert [of "base_sn g" g xs] by (fastforce simp: segs_wf_Cons)
qed (simp add: segs_wf_Cons)

lemma segs_wf_filter: "segs_wf xs \<Longrightarrow> segs_wf (filter P xs)"
  by (induction xs) (auto simp: segs_wf_Cons)

lemma segs_wf_remove: "segs_wf xs \<Longrightarrow> segs_wf (segs_remove sn xs)"
  by (simp add: segs_remove_def map_erase_def segs_wf_filter)

lemma segs_wf_put: "segs_wf xs \<Longrightarrow> segs_wf (segs_put g xs)"
  by (induction xs) (auto simp: segs_wf_Cons segs_put_def)

lemma segs_wf_distinct: "segs_wf xs \<Longrightarrow> distinct (map fst xs)"
  by (auto simp: segs_wf_def dest: strict_sorted_iff [THEN iffD1])

text \<open>The iterators split the table into the items below and not below a key.\<close>

lemma segs_split:
  assumes "segs_wf xs"
  shows "xs = filter (\<lambda>x. fst x < k) xs @ filter (\<lambda>x. k \<le> fst x) xs"
    and "xs = filter (\<lambda>x. fst x \<le> k) xs @ filter (\<lambda>x. k < fst x) xs"
proof -
  have e: "filter (\<lambda>x. fst x < k) ys = [] \<and> filter (\<lambda>x. k \<le> fst x) ys = ys"
    "filter (\<lambda>x. fst x \<le> k) ys = [] \<and> filter (\<lambda>x. k < fst x) ys = ys"
    if "\<forall>y \<in> set ys. k < fst y" for ys :: LogSegments
    using that by (auto simp: filter_empty_conv filter_id_conv)
  from assms show "xs = filter (\<lambda>x. fst x < k) xs @ filter (\<lambda>x. k \<le> fst x) xs"
  proof (induction xs)
    case (Cons x xs)
    then have x: "segs_wf xs" "\<forall>y \<in> set xs. fst x < fst y" by (simp_all add: segs_wf_Cons)
    show ?case
    proof (cases "fst x < k")
      case True
      then show ?thesis using Cons.IH [OF x(1)] by simp
    next
      case False
      then have "\<forall>y \<in> set xs. k < fst y" using x(2) by fastforce
      then show ?thesis using e(1) [of xs] False by simp
    qed
  qed simp
  from assms show "xs = filter (\<lambda>x. fst x \<le> k) xs @ filter (\<lambda>x. k < fst x) xs"
  proof (induction xs)
    case (Cons x xs)
    then have x: "segs_wf xs" "\<forall>y \<in> set xs. fst x < fst y" by (simp_all add: segs_wf_Cons)
    show ?case
    proof (cases "fst x \<le> k")
      case True
      then show ?thesis using Cons.IH [OF x(1)] by simp
    next
      case False
      then have "\<forall>y \<in> set xs. k < fst y" using x(2) by fastforce
      then show ?thesis using e(2) [of xs] False by simp
    qed
  qed simp
qed

lemma takeWhile_below:
  "\<forall>x \<in> set as. P x \<Longrightarrow> \<forall>x \<in> set bs. \<not> P x \<Longrightarrow> takeWhile P (as @ bs) = as"
  by (cases bs) auto

lemma bounds_split:
  assumes "segs_wf xs"
  shows "map_lower_bound k xs = length (filter (\<lambda>x. fst x < k) xs)"
    and "map_upper_bound k xs = length (filter (\<lambda>x. fst x \<le> k) xs)"
proof -
  have "takeWhile (\<lambda>x. fst x < k) xs = filter (\<lambda>x. fst x < k) xs"
    by (subst segs_split(1) [OF assms, of k], rule takeWhile_below) auto
  then show "map_lower_bound k xs = length (filter (\<lambda>x. fst x < k) xs)" by (simp add: map_lower_bound_def)
  have "takeWhile (\<lambda>x. fst x \<le> k) xs = filter (\<lambda>x. fst x \<le> k) xs"
    by (subst segs_split(2) [OF assms, of k], rule takeWhile_below) auto
  then show "map_upper_bound k xs = length (filter (\<lambda>x. fst x \<le> k) xs)" by (simp add: map_upper_bound_def)
qed

lemma split_lower:
  assumes "segs_wf xs"
  obtains as bs where "xs = as @ bs" "map_lower_bound k xs = length as"
    "\<forall>x \<in> set as. fst x < k" "\<forall>x \<in> set bs. k \<le> fst x"
  by (rule that [OF segs_split(1) [OF assms] bounds_split(1) [OF assms]]) auto

lemma split_upper:
  assumes "segs_wf xs"
  obtains as bs where "xs = as @ bs" "map_upper_bound k xs = length as"
    "\<forall>x \<in> set as. fst x \<le> k" "\<forall>x \<in> set bs. k < fst x"
  by (rule that [OF segs_split(2) [OF assms] bounds_split(2) [OF assms]]) auto

lemma segs_wf_last: "segs_wf xs \<Longrightarrow> x \<in> set xs \<Longrightarrow> fst x \<le> fst (last xs)"
proof (induction xs)
  case (Cons y ys)
  then show ?case by (cases "ys = []") (auto simp: segs_wf_Cons intro: less_imp_le)
qed simp

lemma segs_wf_hd: "segs_wf xs \<Longrightarrow> x \<in> set xs \<Longrightarrow> fst (hd xs) \<le> fst x"
  by (cases xs) (auto simp: segs_wf_Cons)

section \<open>The queries as list functions\<close>

lemma floorSegment_eq:
  assumes "segs_wf xs"
  shows "floorSegment sn xs =
    (let as = filter (\<lambda>x. fst x \<le> sn) xs in if as = [] then None else Some (snd (last as)))"
proof -
  obtain as bs where s: "xs = as @ bs" "map_lower_bound sn xs = length as"
    "\<forall>x \<in> set as. fst x < sn" "\<forall>x \<in> set bs. sn \<le> fst x" by (rule split_lower [OF assms])
  have as: "filter (\<lambda>x. fst x \<le> sn) as = as" using s(3) by (auto simp: filter_id_conv)
  show ?thesis
  proof (cases bs)
    case Nil
    then show ?thesis using s as by (simp add: floorSegment_def)
  next
    case (Cons b bs')
    have "filter (\<lambda>x. fst x \<le> sn) bs' = []"
      using assms s(1,4) Cons by (auto simp: segs_wf_append segs_wf_Cons filter_empty_conv)
    then show ?thesis
      using s as Cons by (auto simp: floorSegment_def Let_def last_conv_nth nth_append)
  qed
qed

lemma higherSegment_eq:
  assumes "segs_wf xs"
  shows "higherSegment sn xs =
    (let bs = filter (\<lambda>x. sn < fst x) xs in if bs = [] then None else Some (snd (hd bs)))"
proof -
  obtain as bs where s: "xs = as @ bs" "map_upper_bound sn xs = length as"
    "\<forall>x \<in> set as. fst x \<le> sn" "\<forall>x \<in> set bs. sn < fst x" by (rule split_upper [OF assms])
  have "filter (\<lambda>x. sn < fst x) as = []" "filter (\<lambda>x. sn < fst x) bs = bs"
    using s(3,4) by (auto simp: filter_empty_conv filter_id_conv)
  then show ?thesis using s by (cases bs) (simp_all add: higherSegment_def Let_def nth_append)
qed

lemma upperSegments_eq:
  assumes "segs_wf xs"
  shows "upperSegments sn xs = map snd (filter (\<lambda>x. sn < fst x) xs)"
proof -
  obtain as bs where s: "xs = as @ bs" "map_upper_bound sn xs = length as"
    "\<forall>x \<in> set as. fst x \<le> sn" "\<forall>x \<in> set bs. sn < fst x" by (rule split_upper [OF assms])
  have "filter (\<lambda>x. sn < fst x) as = []" "filter (\<lambda>x. sn < fst x) bs = bs"
    using s(3,4) by (auto simp: filter_empty_conv filter_id_conv)
  then show ?thesis using s by (simp add: upperSegments_def)
qed

lemma lowerEqualSegments_eq:
  assumes "segs_wf xs"
  shows "lowerEqualSegments sn xs = map snd (filter (\<lambda>x. fst x \<le> sn) xs)"
proof -
  obtain as bs where s: "xs = as @ bs" "map_lower_bound sn xs = length as"
    "\<forall>x \<in> set as. fst x < sn" "\<forall>x \<in> set bs. sn \<le> fst x" by (rule split_lower [OF assms])
  have as: "filter (\<lambda>x. fst x \<le> sn) as = as" using s(3) by (auto simp: filter_id_conv)
  show ?thesis
  proof (cases bs)
    case Nil
    then show ?thesis using s as by (simp add: lowerEqualSegments_def)
  next
    case (Cons b bs')
    have "filter (\<lambda>x. fst x \<le> sn) bs' = []"
      using assms s(1,4) Cons by (auto simp: segs_wf_append segs_wf_Cons filter_empty_conv)
    then show ?thesis using s as Cons by (auto simp: lowerEqualSegments_def Let_def nth_append)
  qed
qed

section \<open>The contract of the table\<close>

locale segment_table =
  fixes lookup :: "'t \<Rightarrow> int \<Rightarrow> 's option"
    and add :: "'s \<Rightarrow> 't \<Rightarrow> 't"
    and erase :: "int \<Rightarrow> 't \<Rightarrow> 't"
    and floor :: "int \<Rightarrow> 't \<Rightarrow> 's option"
    and higher :: "int \<Rightarrow> 't \<Rightarrow> 's option"
    and base :: "'s \<Rightarrow> int"
    and inv :: "'t \<Rightarrow> bool"
  assumes lookup_base: "inv t \<Longrightarrow> lookup t k = Some g \<Longrightarrow> base g = k"
    and lookup_add: "inv t \<Longrightarrow> lookup (add g t) = (lookup t)(base g \<mapsto> g)"
    and lookup_erase: "inv t \<Longrightarrow> lookup (erase k t) = (lookup t)(k := None)"
    and inv_add: "inv t \<Longrightarrow> inv (add g t)"
    and inv_erase: "inv t \<Longrightarrow> inv (erase k t)"
    and floor_Some: "inv t \<Longrightarrow> floor k t = Some g \<longleftrightarrow>
      lookup t (base g) = Some g \<and> base g \<le> k \<and> (\<forall>b \<in> dom (lookup t). b \<le> k \<longrightarrow> b \<le> base g)"
    and higher_Some: "inv t \<Longrightarrow> higher k t = Some g \<longleftrightarrow>
      lookup t (base g) = Some g \<and> k < base g \<and> (\<forall>b \<in> dom (lookup t). k < b \<longrightarrow> base g \<le> b)"
begin

text \<open>The range of sequences a segment is responsible for ends where the next one begins.\<close>

definition covers :: "'t \<Rightarrow> 's \<Rightarrow> int \<Rightarrow> bool" where
  "covers t g sn \<longleftrightarrow> lookup t (base g) = Some g \<and> base g \<le> sn
     \<and> (\<forall>n. higher (base g) t = Some n \<longrightarrow> sn < base n)"

text \<open>Between a segment and its successor there is none.\<close>

lemma higher_gap:
  assumes "inv t" "higher k t = Some n" "b \<in> dom (lookup t)"
  shows "b \<le> k \<or> base n \<le> b"
proof (cases "b \<le> k")
  case False
  then show ?thesis using assms higher_Some [OF assms(1), of k n] by auto
qed simp

text \<open>The table answers with the one segment that covers a sequence.\<close>

lemma covers_unique:
  assumes "inv t" "covers t g sn" "covers t h sn"
    and total: "\<And>k b. b \<in> dom (lookup t) \<Longrightarrow> k < b \<Longrightarrow> \<exists>n. higher k t = Some n"
  shows "g = h"
proof -
  have le: "base y \<le> base x" if "covers t x sn" "covers t y sn" for x y
  proof (rule ccontr)
    assume "\<not> base y \<le> base x"
    moreover have "base y \<in> dom (lookup t)" using that by (auto simp: covers_def)
    ultimately obtain n where n: "higher (base x) t = Some n" using total [of "base y" "base x"] by auto
    then have "base n \<le> base y"
      using higher_gap [OF assms(1) n \<open>base y \<in> dom (lookup t)\<close>] \<open>\<not> base y \<le> base x\<close> by simp
    moreover have "sn < base n" using that(1) n by (simp add: covers_def)
    ultimately show False using that(2) by (simp add: covers_def)
  qed
  have "base g = base h" using le [OF assms(2,3)] le [OF assms(3,2)] by simp
  then show ?thesis using assms(2,3) by (simp add: covers_def)
qed

lemma floor_covers:
  assumes "inv t" "floor sn t = Some g"
  shows "covers t g sn"
proof -
  have g: "lookup t (base g) = Some g" "base g \<le> sn" "\<forall>b \<in> dom (lookup t). b \<le> sn \<longrightarrow> b \<le> base g"
    using floor_Some [OF assms(1)] assms(2) by auto
  have "sn < base n" if n: "higher (base g) t = Some n" for n
  proof -
    have "lookup t (base n) = Some n" "base g < base n" using higher_Some [OF assms(1)] n by auto
    then show ?thesis using g(3) by (metis domI not_le)
  qed
  then show ?thesis using g by (simp add: covers_def)
qed

text \<open>Adding a segment above all others makes it the answer from its base on and changes nothing below.\<close>

lemma floor_add_top:
  assumes "inv t" "\<forall>b \<in> dom (lookup t). b < base g"
  shows "base g \<le> sn \<Longrightarrow> floor sn (add g t) = Some g"
    and "sn < base g \<Longrightarrow> floor sn (add g t) = Some h \<longleftrightarrow> floor sn t = Some h"
proof -
  note i = inv_add [OF assms(1), of g]
  have l: "lookup (add g t) = (lookup t)(base g \<mapsto> g)" by (rule lookup_add [OF assms(1)])
  show "base g \<le> sn \<Longrightarrow> floor sn (add g t) = Some g"
    using assms(2) by (auto simp: floor_Some [OF i] l intro: less_imp_le)
  show "sn < base g \<Longrightarrow> floor sn (add g t) = Some h \<longleftrightarrow> floor sn t = Some h"
    by (auto simp: floor_Some [OF i] floor_Some [OF assms(1)] l)
qed

end

lemma lookup_segs:
  assumes "segs_wf xs"
  shows "map_of xs k = Some g \<longleftrightarrow> (k, g) \<in> set xs"
  using map_of_eq_Some_iff [OF segs_wf_distinct [OF assms]] by simp

lemma segs_wf_base: "segs_wf xs \<Longrightarrow> (k, g) \<in> set xs \<Longrightarrow> base_sn g = k"
  by (force simp: segs_wf_def)

lemma map_of_map_insert: "map_of (map_insert k v xs) = (map_of xs)(k \<mapsto> v)"
  by (induction xs) (auto simp: fun_eq_iff)

lemma map_of_map_erase: "map_of (map_erase k xs) = (map_of xs)(k := None)"
  by (induction xs) (auto simp: map_erase_def fun_eq_iff)

lemma sorted_last_unique:
  assumes "segs_wf xs" "xs \<noteq> []"
  shows "snd (last xs) = g \<longleftrightarrow> (base_sn g, g) \<in> set xs \<and> (\<forall>x \<in> set xs. fst x \<le> base_sn g)"
proof
  assume "snd (last xs) = g"
  moreover have "last xs \<in> set xs" using assms(2) by simp
  ultimately show "(base_sn g, g) \<in> set xs \<and> (\<forall>x \<in> set xs. fst x \<le> base_sn g)"
    using assms(1) segs_wf_last [OF assms(1)] segs_wf_base [OF assms(1), of "fst (last xs)"] by (metis prod.collapse)
next
  assume r: "(base_sn g, g) \<in> set xs \<and> (\<forall>x \<in> set xs. fst x \<le> base_sn g)"
  have "last xs \<in> set xs" using assms(2) by simp
  then have "fst (last xs) = base_sn g" using r segs_wf_last [OF assms(1), of "(base_sn g, g)"] by force
  then show "snd (last xs) = g"
    using r \<open>last xs \<in> set xs\<close> lookup_segs [OF assms(1)] by (metis option.inject prod.collapse)
qed

lemma sorted_hd_unique:
  assumes "segs_wf xs" "xs \<noteq> []"
  shows "snd (hd xs) = g \<longleftrightarrow> (base_sn g, g) \<in> set xs \<and> (\<forall>x \<in> set xs. base_sn g \<le> fst x)"
proof
  assume "snd (hd xs) = g"
  moreover have "hd xs \<in> set xs" using assms(2) by simp
  ultimately show "(base_sn g, g) \<in> set xs \<and> (\<forall>x \<in> set xs. base_sn g \<le> fst x)"
    using assms(1) segs_wf_hd [OF assms(1)] segs_wf_base [OF assms(1), of "fst (hd xs)"] by (metis prod.collapse)
next
  assume r: "(base_sn g, g) \<in> set xs \<and> (\<forall>x \<in> set xs. base_sn g \<le> fst x)"
  have "hd xs \<in> set xs" using assms(2) by simp
  then have "fst (hd xs) = base_sn g" using r segs_wf_hd [OF assms(1), of "(base_sn g, g)"] by force
  then show "snd (hd xs) = g"
    using r \<open>hd xs \<in> set xs\<close> lookup_segs [OF assms(1)] by (metis option.inject prod.collapse)
qed

lemma floorSegment_Some:
  assumes "segs_wf xs"
  shows "floorSegment k xs = Some g \<longleftrightarrow> map_of xs (base_sn g) = Some g \<and> base_sn g \<le> k
    \<and> (\<forall>b \<in> dom (map_of xs). b \<le> k \<longrightarrow> b \<le> base_sn g)"
proof (cases "filter (\<lambda>x. fst x \<le> k) xs = []")
  case True
  then show ?thesis using floorSegment_eq [OF assms, of k] lookup_segs [OF assms, of "base_sn g" g]
    by (auto simp: filter_empty_conv)
next
  case False
  have "dom (map_of xs) = fst ` set xs" by (simp add: dom_map_of_conv_image_fst)
  with False show ?thesis
    using floorSegment_eq [OF assms, of k] lookup_segs [OF assms, of "base_sn g" g]
      sorted_last_unique [OF segs_wf_filter [OF assms] False, of g] by auto
qed

lemma higherSegment_Some:
  assumes "segs_wf xs"
  shows "higherSegment k xs = Some g \<longleftrightarrow> map_of xs (base_sn g) = Some g \<and> k < base_sn g
    \<and> (\<forall>b \<in> dom (map_of xs). k < b \<longrightarrow> base_sn g \<le> b)"
proof (cases "filter (\<lambda>x. k < fst x) xs = []")
  case True
  then show ?thesis using higherSegment_eq [OF assms, of k] lookup_segs [OF assms, of "base_sn g" g]
    by (auto simp: filter_empty_conv)
next
  case False
  have "dom (map_of xs) = fst ` set xs" by (simp add: dom_map_of_conv_image_fst)
  with False show ?thesis
    using higherSegment_eq [OF assms, of k] lookup_segs [OF assms, of "base_sn g" g]
      sorted_hd_unique [OF segs_wf_filter [OF assms] False, of g] by auto
qed

interpretation tbl: segment_table "\<lambda>t k. segs_get k t" segs_add segs_remove floorSegment higherSegment base_sn segs_wf
proof (unfold_locales, goal_cases)
  case (1 t k g)
  then show ?case using lookup_segs segs_wf_base by (auto simp: segs_get_def)
next
  case (2 t g)
  then show ?case by (simp add: segs_get_def segs_add_def map_of_map_insert fun_eq_iff)
next
  case (3 t k)
  then show ?case by (simp add: segs_get_def segs_remove_def map_of_map_erase fun_eq_iff)
next
  case (4 t g)
  then show ?case by (rule segs_wf_add)
next
  case (5 t k)
  then show ?case by (rule segs_wf_remove)
next
  case (6 t k g)
  then show ?case using floorSegment_Some [of t k g] by (simp add: segs_get_def)
next
  case (7 t k g)
  then show ?case using higherSegment_Some [of t k g] by (simp add: segs_get_def)
qed

section \<open>Properties\<close>

text \<open>
  Property C34: \<^verbatim>\<open>floorSegment\<close> returns a segment exactly when it covers the sequence: its base is not above
  it and the segment after it, if there is one, begins above it. At most one segment does.
\<close>

theorem floorSegment_covers:
  assumes "segs_wf xs"
  shows "floorSegment sn xs = Some g \<longleftrightarrow> segs_get (base_sn g) xs = Some g \<and> base_sn g \<le> sn
    \<and> (\<forall>n. higherSegment (base_sn g) xs = Some n \<longrightarrow> sn < base_sn n)"
proof -
  have higher: "\<exists>n. higherSegment k xs = Some n" if "b \<in> dom (\<lambda>k. segs_get k xs)" "k < b" for k b
    using that higherSegment_eq [OF assms, of k] lookup_segs [OF assms]
    by (force simp: segs_get_def filter_empty_conv Let_def)
  have "floorSegment sn xs \<noteq> None" if "tbl.covers xs g sn"
  proof -
    have "(base_sn g, g) \<in> set xs" "base_sn g \<le> sn"
      using that [unfolded tbl.covers_def] lookup_segs [OF assms] by (simp_all add: segs_get_def)
    then show ?thesis using floorSegment_eq [OF assms, of sn] by (force simp: filter_empty_conv Let_def)
  qed
  then obtain h where h: "tbl.covers xs g sn \<longrightarrow> floorSegment sn xs = Some h" by blast
  have "floorSegment sn xs = Some g \<longleftrightarrow> tbl.covers xs g sn"
  proof
    assume "tbl.covers xs g sn"
    moreover from this have "tbl.covers xs h sn" using h tbl.floor_covers [OF assms] by blast
    ultimately have "g = h" by (rule tbl.covers_unique [OF assms]) (rule higher)
    moreover note \<open>tbl.covers xs g sn\<close>
    ultimately show "floorSegment sn xs = Some g" using h by simp
  qed (rule tbl.floor_covers [OF assms])
  then show ?thesis unfolding tbl.covers_def .
qed

definition demoSegs :: LogSegments where
  "demoSegs = segs_add ((demoSegment [])\<lparr>seg_id := 3, base_sn := 20\<rparr>)
     (segs_add (demoSegment []) (segs_add ((demoSegment [])\<lparr>seg_id := 2, base_sn := 10\<rparr>) []))"

lemma demoSegs_wf: "segs_wf demoSegs"
  by (simp add: demoSegs_def segs_wf_add)

theorem floorSegment_covers_witness:
  "floorSegment 15 demoSegs = Some ((demoSegment [])\<lparr>seg_id := 2, base_sn := 10\<rparr>)"
  by (subst floorSegment_covers [OF demoSegs_wf])
    (simp add: demoSegs_def segs_add_def segs_get_def demoSegment_def higherSegment_def map_upper_bound_def)

text \<open>
  Property C35: the segments up to a sequence and those above it are a partition of the table in order,
  and the table stays sorted under \<^verbatim>\<open>add\<close> and \<^verbatim>\<open>remove\<close>, which change the one item they name.
\<close>

theorem segments_partition:
  assumes "segs_wf xs"
  shows "lowerEqualSegments sn xs @ upperSegments sn xs = allSegments xs
    \<and> (\<forall>g. g \<in> set (lowerEqualSegments sn xs) \<longleftrightarrow> g \<in> set (allSegments xs) \<and> base_sn g \<le> sn)
    \<and> segs_wf (segs_add h xs) \<and> segs_wf (segs_remove k xs)
    \<and> (\<forall>j. segs_get j (segs_add h xs) = (if j = base_sn h then Some h else segs_get j xs))
    \<and> (\<forall>j. segs_get j (segs_remove k xs) = (if j = k then None else segs_get j xs))"
proof (intro conjI)
  have "map snd (filter (\<lambda>x. fst x \<le> sn) xs @ filter (\<lambda>x. sn < fst x) xs) = map snd xs"
    by (simp only: segs_split(2) [OF assms, of sn, symmetric])
  then show "lowerEqualSegments sn xs @ upperSegments sn xs = allSegments xs"
    by (simp add: lowerEqualSegments_eq [OF assms] upperSegments_eq [OF assms] allSegments_def)
  show "\<forall>g. g \<in> set (lowerEqualSegments sn xs) \<longleftrightarrow> g \<in> set (allSegments xs) \<and> base_sn g \<le> sn"
    using assms by (force simp: lowerEqualSegments_eq allSegments_def segs_wf_def)
  show "\<forall>j. segs_get j (segs_add h xs) = (if j = base_sn h then Some h else segs_get j xs)"
    "\<forall>j. segs_get j (segs_remove k xs) = (if j = k then None else segs_get j xs)"
    by (simp_all add: segs_get_def segs_add_def segs_remove_def map_of_map_insert map_of_map_erase)
qed (rule segs_wf_add [OF assms] segs_wf_remove [OF assms])+

theorem segments_partition_witness:
  "lowerEqualSegments 12 demoSegs @ upperSegments 12 demoSegs = allSegments demoSegs"
  using segments_partition [OF demoSegs_wf] by blast

text \<open>
  \<^verbatim>\<open>lowerSegment\<close>, documented to return the segment with the greatest base below a sequence,
  returns none when the sequence is above every base, although the last segment is that segment; and
  \<^verbatim>\<open>segmentsBetween\<close>, documented to begin with the segment that includes its lower bound, never
  returns that segment unless the bound is its base.
\<close>

lemma neighbour_queries_diverge:
  assumes "segs_wf xs" "xs \<noteq> []"
  shows "(fst (last xs) < sn \<longrightarrow> lowerSegment sn xs = None)
    \<and> (\<forall>g. floorSegment a xs = Some g \<and> base_sn g < a \<longrightarrow> g \<notin> set (segmentsBetween a b xs))"
proof (intro conjI impI allI)
  assume "fst (last xs) < sn"
  then have "\<forall>x \<in> set xs. fst x < sn" using segs_wf_last [OF assms(1)] by fastforce
  then have "length (takeWhile (\<lambda>x. fst x < sn) xs) = length xs" using takeWhile_eq_all_conv by metis
  then show "lowerSegment sn xs = None" by (simp only: lowerSegment_def map_lower_bound_def Let_def refl if_True)
next
  fix g
  assume "floorSegment a xs = Some g \<and> base_sn g < a"
  moreover obtain as bs where s: "xs = as @ bs" "map_lower_bound a xs = length as"
    "\<forall>x \<in> set as. fst x < a" "\<forall>x \<in> set bs. a \<le> fst x" by (rule split_lower [OF assms(1)])
  have "set (drop (length as) (take n xs)) \<subseteq> set bs" for n
    by (subst drop_take) (simp add: s(1) set_take_subset)
  then have "set (segmentsBetween a b xs) \<subseteq> snd ` set bs"
    by (simp add: segmentsBetween_def Let_def s(2) image_mono)
  moreover have "\<forall>h \<in> snd ` set bs. a \<le> base_sn h" using s(1,4) assms(1) by (auto simp: segs_wf_def)
  ultimately show "g \<notin> set (segmentsBetween a b xs)" by force
qed

lemma neighbour_queries_diverge_witness:
  "lowerSegment 25 demoSegs = None \<and> (demoSegment [])\<lparr>seg_id := 2, base_sn := 10\<rparr> \<notin> set (segmentsBetween 15 30 demoSegs)"
proof -
  have "demoSegs \<noteq> []" "fst (last demoSegs) < 25" "floorSegment 15 demoSegs = Some ((demoSegment [])\<lparr>seg_id := 2, base_sn := 10\<rparr>)"
    by (simp_all add: demoSegs_def segs_add_def demoSegment_def floorSegment_def map_lower_bound_def Let_def)
  then show ?thesis using neighbour_queries_diverge [OF demoSegs_wf, of 25 15 30] by simp
qed

end
