(* ===== verification/Nlog_Loglet.thy ===== *)
theory Nlog_Loglet
  imports Nlog_LogSegments
begin

unbundle bit_operations_syntax

text \<open>
  \<^verbatim>\<open>Loglet\<close> of \<^verbatim>\<open>src/src/Cluster/LocalLog/Log/Loglet.{h,cpp}\<close>: the log of one shard on disk, a table of
  segments with the index from sequences to positions and the index from timestamps to sequences.
  Every operation that reads or changes the state is a definition here; \<^verbatim>\<open>streamShardFrom\<close>, which is
  one call of RE2, is left out. A segment is held by value in the table, and a change made through a
  \<^verbatim>\<open>LogSegmentPtr\<close> is written back with \<open>segs_put\<close>. The task that removes the files of dropped
  segments is the list \<open>deletions\<close>, which \<open>runDeletions\<close> carries out. The theory closes with the
  names of segment files and the packing of segment positions.
\<close>

section \<open>Names\<close>

definition INDEX_FILE_SUFFIX :: string where "INDEX_FILE_SUFFIX = ''.indexes''"

definition ends_with :: "string \<Rightarrow> string \<Rightarrow> bool" where
  "ends_with s e \<longleftrightarrow> length e \<le> length s \<and> drop (length s - length e) s = e"

definition isIndexFile :: "string \<Rightarrow> bool" where
  "isIndexFile f \<longleftrightarrow> ends_with f INDEX_FILE_SUFFIX"

definition isLogFile :: "string \<Rightarrow> bool" where
  "isLogFile f \<longleftrightarrow> ends_with f LOG_FILE_SUFFIX"

text \<open>\<^verbatim>\<open>std::string::find\<close> of a character.\<close>

definition find_char :: "char \<Rightarrow> string \<Rightarrow> nat option" where
  "find_char c s = (if c \<in> set s then Some (length (takeWhile (\<lambda>x. x \<noteq> c) s)) else None)"

text \<open>\<^verbatim>\<open>from_chars\<close> for \<^verbatim>\<open>int64_t\<close>: an optional minus sign and digits.\<close>

definition from_chars_i64 :: "string \<Rightarrow> (int \<times> string) option" where
  "from_chars_i64 s =
    (let neg = (s \<noteq> [] \<and> hd s = CHR ''-''); t = (if neg then tl s else s); ds = takeWhile is_digit t in
     if ds = [] then None
     else if neg \<and> dec_value ds \<le> 2 ^ 63 then Some (- int (dec_value ds), dropWhile is_digit t)
     else if \<not> neg \<and> dec_value ds < 2 ^ 63 then Some (int (dec_value ds), dropWhile is_digit t)
     else None)"

definition parseInt :: "(string \<Rightarrow> ('n \<times> string) option) \<Rightarrow> 'n \<Rightarrow> string \<Rightarrow> nat \<Rightarrow> nat \<Rightarrow> 'n CallResult" where
  "parseInt from_chars zero s lpos rpos =
    (if rpos \<le> lpos \<or> length s < rpos then errR zero INVALID_INTEGER_STRING
     else case from_chars (take (rpos - lpos) (drop lpos s)) of
       None \<Rightarrow> errR zero INVALID_INTEGER_STRING
     | Some (n, p) \<Rightarrow> if p \<noteq> [] then errR zero INVALID_INTEGER_STRING else okR n)"

definition segmentIDAndSequenceFromFileName :: "string \<Rightarrow> (nat \<times> int) CallResult" where
  "segmentIDAndSequenceFromFileName f =
    (case find_char CHR ''-'' f of
       None \<Rightarrow> errR (0, 0) BAD_FILE_NAME
     | Some segment_id_pos \<Rightarrow>
       (case find_char CHR ''.'' f of
          None \<Rightarrow> errR (0, 0) BAD_FILE_NAME
        | Some sn_pos \<Rightarrow>
          if sn_pos \<le> segment_id_pos then errR (0, 0) BAD_FILE_NAME
          else
            let seg_id' = parseInt from_chars_u64 0 f 0 segment_id_pos in
            if hasError seg_id' then errR (0, 0) BAD_FILE_NAME
            else
              let seq = parseInt from_chars_i64 0 f (segment_id_pos + 1) sn_pos in
              if hasError seq then errR (0, 0) BAD_FILE_NAME
              else okR (result seg_id', result seq)))"

section \<open>Positions over all segments\<close>

definition SEGMENT_NUMBER_MASK :: u64 where "SEGMENT_NUMBER_MASK = 0xfffffff000000000"

definition SEGMENT_FILE_POSITION_MASK :: u64 where "SEGMENT_FILE_POSITION_MASK = 0x0000000fffffffff"

definition globalSegmentFilePosition :: "u64 \<Rightarrow> u64 \<Rightarrow> u64" where
  "globalSegmentFilePosition segment_id position = push_bit 36 segment_id OR position"

definition segmentIDAndFilePosition :: "u64 \<Rightarrow> u64 \<times> u64" where
  "segmentIDAndFilePosition global_file_position =
    (drop_bit 36 (global_file_position AND SEGMENT_NUMBER_MASK), global_file_position AND SEGMENT_FILE_POSITION_MASK)"

section \<open>State\<close>

record Loglet =
  log_dir :: string
  parent_dir :: string
  log_config :: LogConfig
  segments :: LogSegments
  next_sn_meta :: LogSequenceMetadata
  last_flushed_sn :: int
  unflushed_bytes :: int
  last_flushed_ms :: int
  max_etimestamp_and_sn_so_far :: TimestampSequence
  bytes_since_last_index_entry :: nat
  event_ts_sn_index :: "TimestampSequence PersistentMonoMap"
  sn_pos_index :: "SequencePosition PersistentMonoMap"
  deletions :: "LogSegment list"

type_synonym 'a logletProg = "(Loglet \<times> filesys, 'a) prog"

text \<open>The two indexes run on their part of the state.\<close>

definition onTs :: "(TimestampSequence, 'a) mapProg \<Rightarrow> 'a logletProg" where
  "onTs = onPart (\<lambda>(l, s). (event_ts_sn_index l, s)) (\<lambda>(m, s) (l, _). (l\<lparr>event_ts_sn_index := m\<rparr>, s))"

definition onSnPos :: "(SequencePosition, 'a) mapProg \<Rightarrow> 'a logletProg" where
  "onSnPos = onPart (\<lambda>(l, s). (sn_pos_index l, s)) (\<lambda>(m, s) (l, _). (l\<lparr>sn_pos_index := m\<rparr>, s))"

text \<open>\<^verbatim>\<open>segments->activeSegment()\<close>, which every caller dereferences.\<close>

definition getActive :: "LogSegment logletProg" where
  "getActive = bindE getM (\<lambda>l. case activeSegment (segments l) of None \<Rightarrow> undefE | Some g \<Rightarrow> retE g)"

definition putSegment :: "LogSegment \<Rightarrow> unit logletProg" where
  "putSegment g = modM (\<lambda>l. l\<lparr>segments := segs_put g (segments l)\<rparr>)"

definition nextLogSequence :: "Loglet \<Rightarrow> int" where
  "nextLogSequence l = entry_sn (next_sn_meta l)"

definition nextLogSequenceMetadata :: "Loglet \<Rightarrow> LogSequenceMetadata" where
  "nextLogSequenceMetadata l = next_sn_meta l"

definition updateNextLogSequence :: "int \<Rightarrow> int \<Rightarrow> nat \<Rightarrow> Loglet \<Rightarrow> Loglet" where
  "updateNextLogSequence next_sn segment_base segment_pos l =
     l\<lparr>next_sn_meta := \<lparr>entry_sn = next_sn, segment_base_sn = Some segment_base, file_position = Some segment_pos\<rparr>,
       last_flushed_sn := min (last_flushed_sn l) (next_sn - 1)\<rparr>"

definition newLoglet ::
  "string \<Rightarrow> LogConfig \<Rightarrow> LogSequenceMetadata \<Rightarrow> LogSegments \<Rightarrow> TimestampSequence PersistentMonoMap
    \<Rightarrow> SequencePosition PersistentMonoMap \<Rightarrow> (filesys, Loglet) prog" where
  "newLoglet log_dir' config next_meta segs ts_index pos_index s =
    (let l = \<lparr>log_dir = log_dir', parent_dir = parent_path log_dir', log_config = config, segments = segs,
              next_sn_meta = next_meta, last_flushed_sn = entry_sn next_meta - 1, unflushed_bytes = 0,
              last_flushed_ms = clock s, max_etimestamp_and_sn_so_far = \<lparr>ts_timestamp = 0, ts_sn = 0\<rparr>,
              bytes_since_last_index_entry = 0, event_ts_sn_index = ts_index, sn_pos_index = pos_index,
              deletions = []\<rparr>
     in case onTs lastIndexedTimestampSequence (l, s) of
          (Ret res, (l', s')) \<Rightarrow>
            if hasError res then (Throw (error_code res), s')
            else (Ret (case result res of None \<Rightarrow> l' | Some t \<Rightarrow> l'\<lparr>max_etimestamp_and_sn_so_far := t\<rparr>), s')
        | (Throw x, (_, s')) \<Rightarrow> (Throw x, s')
        | (Undef, (_, s')) \<Rightarrow> (Undef, s')
        | (Diverge, (_, s')) \<Rightarrow> (Diverge, s'))"

section \<open>Appending\<close>

text \<open>
  The end of both \<^verbatim>\<open>append\<close>s: what the write reported is accounted for, the indexes get their entries
  when it is time to (\<open>due\<close>), where errors are only logged, and the next sequence moves on.
\<close>

definition index_position :: "LogSegment \<Rightarrow> nat \<Rightarrow> int \<Rightarrow> unit logletProg" where
  "index_position active physical_position sn =
     bindE getM (\<lambda>l.
     bindE (onTs (TimestampSequenceIndex_maybeIndex (max_etimestamp_and_sn_so_far l) True)) (\<lambda>_.
     bindE (onSnPos (SequencePositionIndex_maybeIndex
       \<lparr>sp_sn = sn, sp_file_position =
          unat (globalSegmentFilePosition (of_nat (seg_id active)) (of_nat physical_position))\<rparr> True)) (\<lambda>_.
     modM (\<lambda>l. l\<lparr>bytes_since_last_index_entry := 0\<rparr>))))"

definition account_append ::
  "LogSegment \<Rightarrow> nat \<Rightarrow> nat \<Rightarrow> bool \<Rightarrow> int \<Rightarrow> int \<Rightarrow> TimestampSequence \<Rightarrow> unit logletProg" where
  "account_append active physical_position written start_of_log first_sn last_sn max_event_ts =
     bindE (modM (\<lambda>l. l\<lparr>
       max_etimestamp_and_sn_so_far :=
         (if ts_timestamp (max_etimestamp_and_sn_so_far l) < ts_timestamp max_event_ts then max_event_ts
          else max_etimestamp_and_sn_so_far l),
       unflushed_bytes := unflushed_bytes l + int written,
       bytes_since_last_index_entry := add64 (bytes_since_last_index_entry l) written\<rparr>)) (\<lambda>_.
     bindE getM (\<lambda>l.
     bindE (if index_interval_bytes (log_config l) \<le> bytes_since_last_index_entry l \<or> start_of_log
            then index_position active physical_position first_sn else retE ()) (\<lambda>_.
     modM (updateNextLogSequence (last_sn + 1) (base_sn active) (seg_size active)))))"

definition loglet_append_batch ::
  "Entry list \<Rightarrow> bytes list \<Rightarrow> nat \<Rightarrow> TimestampSequence \<Rightarrow> nat CallResult logletProg" where
  "loglet_append_batch batch batch_data total_bytes max_event_ts =
     bindE getActive (\<lambda>active.
     let physical_position = seg_size active in
     bindE (liftP (seg_append_batch active batch_data total_bytes)) (\<lambda>(written, active').
     bindE (putSegment active') (\<lambda>_.
     if hasError written then retE written
     else if batch = [] then undefE
     else
       bindE (account_append active' physical_position (result written) (physical_position = 0)
         (e_sn (hd batch)) (e_sn (last batch)) max_event_ts) (\<lambda>_.
       retE written))))"

definition loglet_append :: "bytes \<Rightarrow> Entry \<Rightarrow> nat CallResult logletProg" where
  "loglet_append entry_data entry =
     bindE getActive (\<lambda>active.
     let physical_position = seg_size active in
     bindE (liftF (seg_append active entry_data)) (\<lambda>(written, active').
     bindE (putSegment active') (\<lambda>_.
     if hasError written then retE written
     else
       bindE (account_append active' physical_position (result written) (e_sn entry = LogStartSN)
         (e_sn entry) (e_sn entry) \<lparr>ts_timestamp = e_max_event_timestamp entry, ts_sn = e_sn entry\<rparr>) (\<lambda>_.
       retE written))))"

section \<open>Fetching\<close>

definition validateFetchHint :: "LogSegment \<Rightarrow> int \<Rightarrow> FetchHint option \<Rightarrow> nat option" where
  "validateFetchHint segment sn hint =
    (case hint of
       None \<Rightarrow> None
     | Some h \<Rightarrow>
       if FetchHint_empty h then None
       else if fh_sn h = sn then
         if \<not> hasFilePosition h then None
         else if fh_segment_base_sn h \<noteq> base_sn segment then None
         else if seg_size segment \<le> fh_file_position h then None
         else Some (fh_file_position h)
       else None)"

definition translateSequence :: "LogSegment \<Rightarrow> int \<Rightarrow> LogSequencePosition option logletProg" where
  "translateSequence segment sn =
     bindE (onSnPos (leftLowerBoundPositionForSequence sn)) (\<lambda>res.
     if hasError res then liftP (seg_translateSequence segment sn 0)
     else case result res of
       None \<Rightarrow> liftP (seg_translateSequence segment sn 0)
     | Some r \<Rightarrow>
       (case segmentIDAndFilePosition (of_nat (sp_file_position r)) of (segment_id, position) \<Rightarrow>
          if unat segment_id = seg_id segment then
            if sp_sn r = sn then
              retE (Some \<lparr>lsp_sn = sn, lsp_file_position = unat position, lsp_entry_size = 0\<rparr>)
            else liftP (seg_translateSequence segment sn (unat position))
          else liftP (seg_translateSequence segment sn 0)))"

text \<open>The last part of \<^verbatim>\<open>doFetch\<close>, from the position of the first entry on.\<close>

definition fetch_from ::
  "LogSegment \<Rightarrow> nat \<Rightarrow> nat \<Rightarrow> LogSequencePosition \<Rightarrow> FileLogEntries option logletProg" where
  "fetch_from segment max_size max_position lsn =
    (let start_position = lsp_file_position lsn;
         adjusted_max_size = max max_size (lsp_entry_size lsn);
         max_to_fetch = sub64 max_position start_position;
         fetch_slice = (\<lambda>n. bindE (liftP (seg_fetch segment start_position n)) (\<lambda>f. retE (Some f))) in
     if max_to_fetch \<le> adjusted_max_size then
       if max_to_fetch < lsp_entry_size lsn then retE None else fetch_slice max_to_fetch
     else
       bindE (onSnPos (lowerBoundSequenceForPosition (int (unat (globalSegmentFilePosition (of_nat (seg_id segment))
         (of_nat (add64 start_position adjusted_max_size))))))) (\<lambda>sn_pos.
       if hasError sn_pos then retE None
       else case result sn_pos of
         None \<Rightarrow> fetch_slice max_to_fetch
       | Some r \<Rightarrow>
         (case segmentIDAndFilePosition (of_nat (sp_file_position r)) of (segment_id, position) \<Rightarrow>
            if unat segment_id = seg_id segment then fetch_slice (sub64 (unat position) start_position)
            else fetch_slice max_to_fetch)))"

definition doFetch ::
  "LogSegment \<Rightarrow> int \<Rightarrow> nat \<Rightarrow> nat \<Rightarrow> nat option \<Rightarrow> FileLogEntries option logletProg" where
  "doFetch segment start_sn max_size max_position sn_file_position =
    (case sn_file_position of
       Some p \<Rightarrow> fetch_from segment max_size max_position \<lparr>lsp_sn = start_sn, lsp_file_position = p, lsp_entry_size = 1\<rparr>
     | None \<Rightarrow>
       bindE (translateSequence segment start_sn) (\<lambda>translated_lsn.
       case translated_lsn of None \<Rightarrow> retE None | Some lsn \<Rightarrow> fetch_from segment max_size max_position lsn))"

text \<open>The result of a fetch that got the entries \<open>es\<close>, \<open>n\<close> bytes from \<open>start_position\<close> on.\<close>

definition fetched :: "int \<Rightarrow> nat \<Rightarrow> nat \<Rightarrow> Entry list \<Rightarrow> FetchResult" where
  "fetched base start_position n es = emptyFetchResult\<lparr>
     fetch_entries := es,
     fetched_log_sn_metadata := \<lparr>entry_sn = e_sn (hd es), segment_base_sn = Some base, file_position = Some start_position\<rparr>,
     fetch_hint := \<lparr>fh_sn = e_sn (last es) + 1, fh_segment_base_sn = base,
                    fh_file_position = add64 start_position n\<rparr>\<rparr>"

text \<open>What \<^verbatim>\<open>fetch\<close> makes of the parsed entries. \<open>active_base\<close> is dereferenced with \<^verbatim>\<open>value()\<close>.\<close>

definition fetch_parsed ::
  "int \<Rightarrow> LogSegment \<Rightarrow> int option \<Rightarrow> FetchHint option \<Rightarrow> FileLogEntries \<Rightarrow> parsedEntries \<Rightarrow> FetchResult CallResult logletProg" where
  "fetch_parsed sn segment active_base hint file_log_entries parsed =
    (let es = snd (result parsed); n = fst (result parsed); start_position = start_pos file_log_entries;
         res = fetched (base_sn segment) start_position n es in
     if hasError parsed then
       if es \<noteq> [] then retE (errR res (error_code parsed))
       else if error_code parsed = CANNOT_READ_ALL_DATA \<and> hint \<noteq> None then retE (okR emptyFetchResult)
       else retE (errR emptyFetchResult (error_code parsed))
     else if es = [] \<or> e_sn (hd es) \<noteq> sn then retE (okR emptyFetchResult)
     else case active_base of
       None \<Rightarrow> throwE STD_EXCEPTION
     | Some b \<Rightarrow>
       if base_sn segment \<noteq> b \<and> add64 start_position n = seg_size segment then
         retE (okR (res\<lparr>fetch_hint := \<lparr>fh_sn = e_sn (last es) + 1, fh_segment_base_sn = e_sn (last es) + 1,
                                     fh_file_position = 0\<rparr>\<rparr>))
       else retE (okR res))"

definition loglet_fetch ::
  "int \<Rightarrow> nat \<Rightarrow> LogSequenceMetadata \<Rightarrow> FetchHint option \<Rightarrow> FetchResult CallResult logletProg" where
  "loglet_fetch sn max_size max_sn_meta hint =
     bindE getM (\<lambda>l.
     case floorSegment sn (segments l) of
       None \<Rightarrow> retE (errR emptyFetchResult SEQUENCE_OUT_OF_RANGE)
     | Some segment \<Rightarrow>
       let active_base = segment_base_sn (nextLogSequenceMetadata l);
           max_position = (case (segment_base_sn max_sn_meta, file_position max_sn_meta) of
               (Some b, Some p) \<Rightarrow> if b = base_sn segment then p else seg_size segment
             | _ \<Rightarrow> seg_size segment);
           sn_file_position = (if sn = base_sn segment then Some 0 else validateFetchHint segment sn hint) in
       bindE (doFetch segment sn max_size max_position sn_file_position) (\<lambda>file_log_entries.
       case file_log_entries of
         None \<Rightarrow> retE (okR emptyFetchResult)
       | Some f \<Rightarrow>
         bindE (liftP (deserialize_entries f (entry_sn max_sn_meta) max_size defaultMaxBufferSize)) (\<lambda>parsed.
         fetch_parsed sn segment active_base hint f parsed)))"

definition sequenceForTimestamp :: "int \<Rightarrow> int option CallResult logletProg" where
  "sequenceForTimestamp ts =
     bindE (onTs (leftLowerBoundSequenceForTimestamp ts)) (\<lambda>ts_sn'.
     if hasError ts_sn' then retE (errR None (error_code ts_sn'))
     else retE (okR (map_option ts_sn (result ts_sn'))))"

section \<open>Rolling and flushing\<close>

definition flushActiveSegment :: "ErrorCode logletProg" where
  "flushActiveSegment =
     bindE getM (\<lambda>l.
     bindE getActive (\<lambda>active.
     bindE (liftF (seg_flush active (incremental_flush (log_config l)))) (\<lambda>(err, active').
     bindE (putSegment active') (\<lambda>_.
     if err \<noteq> OK then retE err
     else (\<lambda>(l', s). (Ret OK, (l'\<lparr>last_flushed_sn := nextLogSequence l, unflushed_bytes := 0,
                                last_flushed_ms := clock s\<rparr>, s)))))))"

text \<open>The comparison is of \<^verbatim>\<open>uint64_t\<close>.\<close>

definition needFlush :: "Loglet \<Rightarrow> bool" where
  "needFlush l \<longleftrightarrow> 0 < flush_bytes (log_config l) \<and> flush_bytes (log_config l) \<le> unflushed_bytes l
     \<or> 0 < flush_interval_entries (log_config l)
       \<and> flush_interval_entries (log_config l) \<le> nat ((nextLogSequence l - last_flushed_sn l) mod 2 ^ 64)"

text \<open>The result of \<^verbatim>\<open>roll\<close> is a null pointer on errors.\<close>

definition loglet_roll :: "int option \<Rightarrow> LogSegment option CallResult logletProg" where
  "loglet_roll expected_next_sn =
     bindE flushActiveSegment (\<lambda>err.
     if err \<noteq> OK then retE (errR None err)
     else
       bindE getM (\<lambda>l.
       bindE getActive (\<lambda>active.
       let new_sn = max (case expected_next_sn of None \<Rightarrow> 0 | Some n \<Rightarrow> n) (nextLogSequence l) in
       bindE (onTs (TimestampSequenceIndex_maybeIndex (max_etimestamp_and_sn_so_far l) True)) (\<lambda>_.
       bindE (liftP (newLogSegment (log_dir l) (seg_id active + 1) new_sn False [])) (\<lambda>new_segment.
       bindE (modM (\<lambda>l. updateNextLogSequence (nextLogSequence l) (base_sn new_segment) (seg_size new_segment)
         (l\<lparr>segments := segs_add new_segment (segments l)\<rparr>))) (\<lambda>_.
       retE (okR (Some new_segment))))))))"

text \<open>
  The settings come in the order the \<^verbatim>\<open>unordered_map\<close> yields them. \<^verbatim>\<open>flush_interval_entries\<close> and
  \<^verbatim>\<open>retention_size\<close> are unsigned, so that a negative setting wraps around.
\<close>

definition updateConfig :: "(string \<times> int) list \<Rightarrow> (string \<times> int) list \<Rightarrow> Loglet \<Rightarrow> Loglet" where
  "updateConfig flush_settings retention_settings l =
    (let c = fold (\<lambda>(k, v) c.
           if k = ''flush_messages'' then c\<lparr>flush_interval_entries := nat (v mod 2 ^ 64)\<rparr>
           else if k = ''flush_bytes'' then c\<lparr>flush_bytes := v\<rparr> else c) flush_settings (log_config l);
         c' = fold (\<lambda>(k, v) c.
           if k = ''retention_bytes'' then c\<lparr>retention_size := nat (v mod 2 ^ 64)\<rparr>
           else if k = ''retention_ms'' then c\<lparr>retention_ms := v\<rparr> else c) retention_settings c
     in l\<lparr>log_config := c'\<rparr>)"

section \<open>Trimming and removing\<close>

definition removeSegmentFilesAsync :: "LogSegment list \<Rightarrow> int \<Rightarrow> unit logletProg" where
  "removeSegmentFilesAsync segments_to_delete new_start_sn =
     bindE (onTs (TimestampSequenceIndex_trimHead new_start_sn)) (\<lambda>_.
     bindE (onSnPos (SequencePositionIndex_trimHead new_start_sn)) (\<lambda>_.
     modM (\<lambda>l. l\<lparr>deletions := deletions l @ segments_to_delete\<rparr>)))"

fun remove_files :: "LogSegment list \<Rightarrow> filesys \<Rightarrow> filesys" where
  "remove_files [] s = s"
| "remove_files (g # gs) s = remove_files gs (snd (seg_remove g s))"

text \<open>The scheduled task.\<close>

definition runDeletions :: "unit logletProg" where
  "runDeletions = (\<lambda>(l, s). (Ret (), (l\<lparr>deletions := []\<rparr>, remove_files (deletions l) s)))"

definition removeSegmentFilesSync :: "LogSegment list \<Rightarrow> int \<Rightarrow> unit logletProg" where
  "removeSegmentFilesSync segments_to_delete new_start_sn =
     bindE (onTs (TimestampSequenceIndex_trimHead new_start_sn)) (\<lambda>_.
     bindE (onSnPos (SequencePositionIndex_trimHead new_start_sn)) (\<lambda>_.
     liftF (\<lambda>s. ((), remove_files segments_to_delete s))))"

text \<open>The renaming loop of \<^verbatim>\<open>removeSegments\<close> and the segments it leaves.\<close>

fun mark_deleted :: "LogSegment list \<Rightarrow> filesys \<Rightarrow> (ErrorCode \<times> LogSegment list) \<times> filesys" where
  "mark_deleted [] s = ((OK, []), s)"
| "mark_deleted (g # gs) s =
    (case changeFileSuffix g DELETED_FILE_SUFFIX s of ((err, g'), s') \<Rightarrow>
       if err \<noteq> OK \<and> err \<noteq> FILE_DOESNT_EXIST then ((err, g' # gs), s')
       else (case mark_deleted gs s' of ((err', gs'), s'') \<Rightarrow> ((err', g' # gs'), s'')))"

definition removeSegments :: "LogSegment list \<Rightarrow> int option \<Rightarrow> ErrorCode logletProg" where
  "removeSegments segments_to_delete new_start_sn =
    (if segments_to_delete = [] then retE OK
     else
       bindE (modM (\<lambda>l. l\<lparr>segments := fold (\<lambda>g. segs_remove (base_sn g)) segments_to_delete (segments l)\<rparr>)) (\<lambda>_.
       bindE (liftF (mark_deleted segments_to_delete)) (\<lambda>(err, marked).
       if err \<noteq> OK then retE err
       else bindE getM (\<lambda>l.
         case (case new_start_sn of Some n \<Rightarrow> Some n | None \<Rightarrow> map_option base_sn (firstSegment (segments l))) of
           None \<Rightarrow> undefE
         | Some n \<Rightarrow> bindE (removeSegmentFilesAsync marked n) (\<lambda>_. retE OK)))))"

definition loglet_trim :: "int \<Rightarrow> ErrorCode logletProg" where
  "loglet_trim target_sn =
     bindE getM (\<lambda>l.
     case floorSegment target_sn (segments l) of
       None \<Rightarrow> if segments l = [] then undefE else retE RECORD_NOT_FOUND
     | Some target_segment \<Rightarrow>
       bindE (translateSequence target_segment target_sn) (\<lambda>lsn.
       case lsn of None \<Rightarrow> retE RECORD_NOT_FOUND
       | Some p \<Rightarrow>
         bindE (onSnPos (SequencePositionIndex_trim target_sn)) (\<lambda>err.
         if err \<noteq> OK then retE err
         else bindE (onTs (TimestampSequenceIndex_trim target_sn)) (\<lambda>err.
         if err \<noteq> OK then retE err
         else bindE (onTs lastIndexedTimestampSequence) (\<lambda>res.
         if hasError res then retE (error_code res)
         else
           bindE (modM (\<lambda>l. l\<lparr>max_etimestamp_and_sn_so_far :=
             (case result res of Some t \<Rightarrow> t | None \<Rightarrow> \<lparr>ts_timestamp = 0, ts_sn = 0\<rparr>)\<rparr>)) (\<lambda>_.
           bindE getM (\<lambda>l.
           bindE (removeSegments (upperSegments target_sn (segments l)) None) (\<lambda>err.
           if err \<noteq> OK then retE err
           else bindE (liftF (seg_trim target_segment (lsp_file_position p))) (\<lambda>(res, target').
             bindE (putSegment target') (\<lambda>_.
             if hasError res then retE (error_code res)
             else bindE (modM (updateNextLogSequence target_sn (base_sn target') (seg_size target'))) (\<lambda>_.
               retE OK)))))))))))"

definition trimFullyAndStartAt :: "int \<Rightarrow> ErrorCode logletProg" where
  "trimFullyAndStartAt new_sn =
     bindE getM (\<lambda>l.
     if allSegments (segments l) = [] then undefE
     else
       let active = last (allSegments (segments l)) in
       bindE (removeSegments (butlast (allSegments (segments l))) (Some new_sn)) (\<lambda>err.
       if err \<noteq> OK then retE err
       else
         bindE (if new_sn = base_sn active then liftF (changeFileSuffix active DELETED_FILE_SUFFIX) else retE (OK, active))
           (\<lambda>(err, active').
         bindE (putSegment active') (\<lambda>_.
         if err \<noteq> OK then retE err
         else
           bindE (liftP (newLogSegment (log_dir l) (seg_id active + 1) new_sn False [])) (\<lambda>new_segment.
           bindE (modM (\<lambda>l. l\<lparr>segments :=
             (if new_sn \<noteq> base_sn active then segs_remove (base_sn active) else id)
               (segs_add new_segment (segments l))\<rparr>)) (\<lambda>_.
           bindE (removeSegmentFilesAsync [active'] new_sn) (\<lambda>_.
           bindE (modM (\<lambda>l. l\<lparr>next_sn_meta := \<lparr>entry_sn = new_sn, segment_base_sn = Some new_sn,
                                              file_position = Some 0\<rparr>\<rparr>)) (\<lambda>_.
           retE OK))))))))"

text \<open>
  \<^verbatim>\<open>deletableSegments\<close>: the walk keeps the previous segment and the deletable ones, and hands both to
  the caller's predicate, which may stat the files and change what it has captured, \<open>c\<close>.
\<close>

fun deletable_loop ::
  "('c \<Rightarrow> LogSegment \<Rightarrow> LogSegment \<Rightarrow> filesys \<Rightarrow> (bool \<times> 'c) \<times> filesys) \<Rightarrow> 'c \<Rightarrow> int \<Rightarrow> LogSegment option
    \<Rightarrow> LogSegment list \<Rightarrow> LogSegment list \<Rightarrow> filesys \<Rightarrow> LogSegment list \<times> filesys" where
  "deletable_loop should_delete c applied_sn prev deletable [] s = (deletable, s)"
| "deletable_loop should_delete c applied_sn None deletable (g # gs) s =
     deletable_loop should_delete c applied_sn (Some g) deletable gs s"
| "deletable_loop should_delete c applied_sn (Some prev) deletable (g # gs) s =
    (if base_sn g < applied_sn then
       case should_delete c prev g s of ((d, c'), s') \<Rightarrow>
         if d then deletable_loop should_delete c' applied_sn (Some g) (deletable @ [prev]) gs s'
         else (deletable, s')
     else (deletable, s))"

definition deletableSegments ::
  "('c \<Rightarrow> LogSegment \<Rightarrow> LogSegment \<Rightarrow> filesys \<Rightarrow> (bool \<times> 'c) \<times> filesys) \<Rightarrow> 'c \<Rightarrow> int \<Rightarrow> LogSegment list logletProg" where
  "deletableSegments should_delete c applied_sn =
     bindE getM (\<lambda>l. liftF (deletable_loop should_delete c applied_sn None [] (allSegments (segments l))))"

definition loglet_size :: "Loglet \<Rightarrow> nat" where
  "loglet_size l = snd (segs_apply (\<lambda>c g. (False, g, add64 c (seg_size g))) 0 (segments l))"

definition removeAllSegments :: "ErrorCode logletProg" where
  "removeAllSegments =
     bindE getM (\<lambda>l. removeSegments (allSegments (segments l)) (Some (nextLogSequence l)))"

text \<open>\<^verbatim>\<open>fs::remove_all\<close> and \<^verbatim>\<open>fs::rename\<close> of a directory.\<close>

definition below :: "string \<Rightarrow> string \<Rightarrow> bool" where
  "below d p \<longleftrightarrow> take (length d + 1) p = d @ ''/''"

definition sys_remove_all :: "string \<Rightarrow> filesys \<Rightarrow> int \<times> filesys" where
  "sys_remove_all d s = (case nextOutcome s of (c, s') \<Rightarrow>
     case c of
       Some (Fail e) \<Rightarrow> (e, s')
     | _ \<Rightarrow> (0, s'\<lparr>files := filter (\<lambda>x. \<not> below d (fst x)) (files s'),
                    dirs := filter (\<lambda>p. p \<noteq> d \<and> \<not> below d p) (dirs s')\<rparr>))"

definition rebase :: "string \<Rightarrow> string \<Rightarrow> string \<Rightarrow> string" where
  "rebase d d' p = (if p = d \<or> below d p then d' @ drop (length d) p else p)"

definition sys_rename_dir :: "string \<Rightarrow> string \<Rightarrow> filesys \<Rightarrow> int \<times> filesys" where
  "sys_rename_dir d d' s = (case nextOutcome s of (c, s') \<Rightarrow>
     if d \<notin> set (dirs s') then (ENOENT, s')
     else case c of
       Some (Fail e) \<Rightarrow> (e, s')
     | _ \<Rightarrow> (0, s'\<lparr>files := map (\<lambda>x. (rebase d d' (fst x), snd x)) (files s'),
                    dirs := map (rebase d d') (dirs s'),
                    mtimes := (\<lambda>p. mtimes s' (if below d' p then d @ drop (length d') p else p))\<rparr>))"

definition removeEmptyDir :: "ErrorCode logletProg" where
  "removeEmptyDir =
     bindE getM (\<lambda>l.
     if \<not> segs_empty (segments l) then retE INVALID_STATE
     else bindE (liftF (sys_remove_all (log_dir l))) (\<lambda>ec.
       retE (if ec \<noteq> 0 then CANNOT_DELETE_DIRECTORY else OK)))"

definition loglet_remove :: "ErrorCode logletProg" where
  "loglet_remove =
     bindE removeAllSegments (\<lambda>err.
     if err \<noteq> OK then retE err
     else
       bindE (onTs TimestampSequenceIndex_close) (\<lambda>_.
       bindE (onSnPos SequencePositionIndex_close) (\<lambda>_.
       removeEmptyDir)))"

text \<open>
  A descriptor follows its file when the directory is renamed, also that of an index file, whose
  \<^verbatim>\<open>filename\<close> the code leaves as it is.
\<close>

definition follow :: "string \<Rightarrow> string \<Rightarrow> AppendOnlyFile \<Rightarrow> AppendOnlyFile" where
  "follow d d' a = a\<lparr>fd := rebase d d' (fd a)\<rparr>"

definition follow_open_files :: "string \<Rightarrow> string \<Rightarrow> Loglet \<Rightarrow> Loglet" where
  "follow_open_files d d' l =
    (let seg = (\<lambda>g. g\<lparr>seg_log := (seg_log g)\<lparr>fle_file := follow d d' (fle_file (seg_log g))\<rparr>\<rparr>) in
     l\<lparr>segments := map (\<lambda>x. (fst x, seg (snd x))) (segments l), deletions := map seg (deletions l),
       event_ts_sn_index := (event_ts_sn_index l)\<lparr>pm_log_file := follow d d' (pm_log_file (event_ts_sn_index l))\<rparr>,
       sn_pos_index := (sn_pos_index l)\<lparr>pm_log_file := follow d d' (pm_log_file (sn_pos_index l))\<rparr>\<rparr>)"

definition renameDir :: "string \<Rightarrow> ErrorCode logletProg" where
  "renameDir name =
     bindE getM (\<lambda>l.
     let new_log_dir = parent_dir l @ ''/'' @ name in
     bindE (liftF (sys_rename_dir (log_dir l) new_log_dir)) (\<lambda>ec.
     if ec \<noteq> 0 then retE (if ec = ENOENT then FILE_DOESNT_EXIST else ATOMIC_RENAME_FAIL)
     else
       bindE (modM (follow_open_files (log_dir l) new_log_dir)) (\<lambda>_.
       bindE (if new_log_dir \<noteq> log_dir l then
                modM (\<lambda>l. l\<lparr>log_dir := new_log_dir, parent_dir := parent_path new_log_dir,
                           segments := segs_updateParentDir new_log_dir (segments l)\<rparr>)
              else retE ()) (\<lambda>_.
       retE OK))))"

section \<open>Epoch sequences\<close>

text \<open>
  The callback of \<^verbatim>\<open>epochSequences\<close>, whose result true stops the walk, and its loop: \<open>None\<close> when it
  never ends. \<open>segment\<close> is a null pointer when it is \<open>None\<close>.
\<close>

definition epoch_callback :: "int \<Rightarrow> EpochSequence list \<Rightarrow> Entry \<Rightarrow> nat \<Rightarrow> bool \<times> EpochSequence list" where
  "epoch_callback high_sn acc meta_entry position =
    (e_sn meta_entry + 1 < high_sn,
     if e_sn meta_entry < high_sn then acc @ [mkEpochSequence (e_sn meta_entry)] else acc)"

partial_function (option) epoch_loop ::
  "Loglet \<Rightarrow> int \<Rightarrow> LogSegment option \<Rightarrow> nat \<Rightarrow> EpochSequence list \<Rightarrow> filesys
    \<Rightarrow> (EpochSequence list CallResult exec \<times> filesys) option" where
  "epoch_loop l high_sn segment file_pos acc s =
    (case segment of
       None \<Rightarrow> Some (Undef, s)
     | Some g \<Rightarrow>
       (case seg_fetch g file_pos (sub64 (loglet_size l) file_pos) s of
          (Ret f, s1) \<Rightarrow>
            (case applyLogEntryMetadata f (epoch_callback high_sn) None acc s1 of
               (Ret _, acc', s2) \<Rightarrow>
                 if acc' = [] then Some (Ret (errR [] RECORD_NOT_FOUND), s2)
                 else if high_sn \<le> es_sn (last acc') + 1 then Some (Ret (okR acc'), s2)
                 else epoch_loop l high_sn (floorSegment (es_sn (last acc') + 1) (segments l)) 0 acc' s2
             | (Throw x, _, s2) \<Rightarrow> Some (Throw x, s2)
             | (Undef, _, s2) \<Rightarrow> Some (Undef, s2)
             | (Diverge, _, s2) \<Rightarrow> Some (Diverge, s2))
        | (Throw x, s1) \<Rightarrow> Some (Throw x, s1)
        | (Undef, s1) \<Rightarrow> Some (Undef, s1)
        | (Diverge, s1) \<Rightarrow> Some (Diverge, s1)))"

definition epochSequences :: "int \<Rightarrow> int \<Rightarrow> EpochSequence list CallResult logletProg" where
  "epochSequences low_sn high_sn =
     bindE getM (\<lambda>l.
     case floorSegment low_sn (segments l) of
       None \<Rightarrow> retE (errR [] SEQUENCE_OUT_OF_RANGE)
     | Some segment \<Rightarrow>
       bindE (if low_sn \<noteq> base_sn segment
              then bindE (translateSequence segment low_sn) (\<lambda>lsn. retE (map_option lsp_file_position lsn))
              else retE (Some 0)) (\<lambda>file_pos.
       case file_pos of
         None \<Rightarrow> retE (errR [] RECORD_NOT_FOUND)
       | Some p \<Rightarrow> liftP (\<lambda>s. case epoch_loop l high_sn (Some segment) p [] s of
                              None \<Rightarrow> (Diverge, s) | Some r \<Rightarrow> r)))"

section \<open>Packed positions\<close>

lemma bit_number_mask: "bit SEGMENT_NUMBER_MASK n \<longleftrightarrow> 36 \<le> n \<and> n < 64"
proof -
  have e: "SEGMENT_NUMBER_MASK = NOT (mask 36)" by (simp add: SEGMENT_NUMBER_MASK_def mask_eq_exp_minus_1)
  show ?thesis unfolding e by (auto simp: bit_simps)
qed

lemma bit_position_mask: "bit SEGMENT_FILE_POSITION_MASK n \<longleftrightarrow> n < 36"
proof -
  have e: "SEGMENT_FILE_POSITION_MASK = mask 36" by (simp add: SEGMENT_FILE_POSITION_MASK_def mask_eq_exp_minus_1)
  show ?thesis unfolding e by (auto simp: bit_simps)
qed

lemma unat_globalSegmentFilePosition:
  assumes "i < 2 ^ 28" "p < 2 ^ 36"
  shows "unat (globalSegmentFilePosition (of_nat i) (of_nat p)) = i * 2 ^ 36 + p"
proof -
  let ?p = "of_nat p :: u64"
  have "take_bit 36 p = p" using assms(2) by (simp add: take_bit_nat_eq_self)
  then have p: "take_bit 36 ?p = ?p" by (simp add: take_bit_of_nat)
  have "\<not> bit (push_bit 36 (of_nat i :: u64)) n \<or> \<not> bit ?p n" for n
    using arg_cong [OF p, of "\<lambda>w. bit w n"] by (auto simp: bit_simps)
  then have "globalSegmentFilePosition (of_nat i) ?p = push_bit 36 (of_nat i) + ?p"
    by (simp add: globalSegmentFilePosition_def disjunctive_add)
  also have "\<dots> = of_nat (i * 2 ^ 36 + p)" by (simp add: push_bit_eq_mult)
  finally have e: "globalSegmentFilePosition (of_nat i) ?p = of_nat (i * 2 ^ 36 + p)" .
  have "i * 2 ^ 36 + p < 2 ^ 64" using assms by simp
  then show ?thesis unfolding e by (simp only: unat_of_nat) simp
qed

lemma position_parts: "segmentIDAndFilePosition (globalSegmentFilePosition i p)
    = (take_bit 28 (i OR drop_bit 36 p), take_bit 36 p)"
proof -
  have "drop_bit 36 ((push_bit 36 i OR p) AND SEGMENT_NUMBER_MASK) = take_bit 28 (i OR drop_bit 36 p)"
    by (rule bit_word_eqI) (auto simp: bit_simps bit_number_mask)
  moreover have "(push_bit 36 i OR p) AND SEGMENT_FILE_POSITION_MASK = take_bit 36 p"
    by (rule bit_word_eqI) (auto simp: bit_simps bit_position_mask)
  ultimately show ?thesis by (simp add: segmentIDAndFilePosition_def globalSegmentFilePosition_def)
qed

lemma take_bit_less: "n < 64 \<Longrightarrow> take_bit n w = (w :: u64) \<longleftrightarrow> unat w < 2 ^ n"
  by (simp add: word_unat_eq_iff unsigned_take_bit_eq take_bit_nat_eq_self_iff)

lemma drop_bit_less:
  assumes "unat p < 2 ^ 36"
  shows "drop_bit 36 (p :: u64) = 0"
proof -
  have "unat (drop_bit 36 p) = drop_bit 36 (unat p)" by (rule unat_drop_bit_eq)
  also have "\<dots> = 0" using assms by (simp add: drop_bit_eq_div)
  finally show ?thesis by (simp add: unat_eq_zero)
qed

text \<open>
  Property C12: the index keeps a segment id and a position in one 64-bit number. Decoding gives them
  back exactly when the id has at most 28 bits and the position at most 36: from 64 GiB on, a segment
  position would change the segment it names.
\<close>

theorem segment_position_roundtrip:
  "segmentIDAndFilePosition (globalSegmentFilePosition i p) = (i, p) \<longleftrightarrow> unat i < 2 ^ 28 \<and> unat p < 2 ^ 36"
proof
  assume "segmentIDAndFilePosition (globalSegmentFilePosition i p) = (i, p)"
  then have *: "take_bit 28 (i OR drop_bit 36 p) = i" "take_bit 36 p = p" by (simp_all add: position_parts)
  then have "unat p < 2 ^ 36" by (simp add: take_bit_less [of 36 p])
  with *(1) show "unat i < 2 ^ 28 \<and> unat p < 2 ^ 36" by (simp add: drop_bit_less take_bit_less [of 28 i])
next
  assume "unat i < 2 ^ 28 \<and> unat p < 2 ^ 36"
  then show "segmentIDAndFilePosition (globalSegmentFilePosition i p) = (i, p)"
    by (simp add: position_parts drop_bit_less take_bit_less)
qed

lemma decode_position:
  assumes "i < 2 ^ 28" "p < 2 ^ 36"
  shows "segmentIDAndFilePosition (of_nat (i * 2 ^ 36 + p)) = (of_nat i, of_nat p)"
proof -
  have u: "unat (of_nat i :: u64) = i" "unat (of_nat p :: u64) = p"
    using assms by (simp_all add: unat_of_nat)
  have "of_nat (i * 2 ^ 36 + p) = globalSegmentFilePosition (of_nat i) (of_nat p)"
    by (simp only: word_unat_eq_iff unat_globalSegmentFilePosition [OF assms] unat_of_nat) (use assms in simp)
  then show ?thesis using assms u by (simp add: position_parts drop_bit_less take_bit_less)
qed

section \<open>Names of segment files\<close>

lemma pad0_digits: "list_all is_digit (pad0 w (nat_to_dec n))" "pad0 w (nat_to_dec n) \<noteq> []"
  using nat_to_dec_digits [of n] by (auto simp: pad0_def is_digit_def list_all_iff)

lemma digits_pad0 [simp]:
  "takeWhile is_digit (pad0 w (nat_to_dec n)) = pad0 w (nat_to_dec n)"
  "dropWhile is_digit (pad0 w (nat_to_dec n)) = []"
  using pad0_digits(1) [of w n] by (simp_all add: list_all_iff)

lemma dec_value_pad0: "dec_value (pad0 w (nat_to_dec n)) = n"
proof -
  have "foldl (\<lambda>a c. 10 * a + digit_value c) 0 (replicate k CHR ''0'') = 0" for k
    by (induction k) (simp_all add: digit_value_def)
  then show ?thesis using dec_value_nat_to_dec [of n] by (simp add: pad0_def dec_value_def)
qed

lemma from_chars_pad0:
  assumes "n < 2 ^ 64"
  shows "from_chars_u64 (pad0 w (nat_to_dec n)) = Some (n, [])"
  using assms by (simp add: from_chars_u64_def pad0_digits dec_value_pad0 Let_def)

lemma digits_no_sign: "list_all is_digit ds \<Longrightarrow> ds \<noteq> [] \<Longrightarrow> hd ds \<noteq> CHR ''-''"
  by (cases ds) (auto simp: is_digit_def)

lemma from_chars_format_int:
  assumes "int64 n"
  shows "from_chars_i64 (format_int w n) = Some (n, [])"
proof (cases "n < 0")
  case True
  then have "nat (- n) \<le> 2 ^ 63" using assms by (simp add: int64_def)
  then show ?thesis
    using True by (simp add: from_chars_i64_def format_int_def pad0_digits dec_value_pad0 Let_def)
next
  case False
  then have "nat n < 2 ^ 63" using assms by (simp add: int64_def)
  then show ?thesis
    using False digits_no_sign [OF pad0_digits, of w "nat n"]
    by (simp add: from_chars_i64_def format_int_def pad0_digits dec_value_pad0 Let_def)
qed

text \<open>Digits and a minus sign hold no dot and no slash.\<close>

lemma format_int_chars: "c \<in> set (format_int w n) \<Longrightarrow> is_digit c \<or> c = CHR ''-''"
  using pad0_digits by (auto simp: format_int_def list_all_iff split: if_splits)

lemma filename_logFile: "path_filename (logFile d i sn []) = pad0 8 (nat_to_dec i) @ ''-'' @ format_int 20 sn @ ''.log''"
proof -
  let ?f = "pad0 8 (nat_to_dec i) @ ''-'' @ format_int 20 sn @ ''.log''"
  have "\<forall>c \<in> set ?f. c \<noteq> CHR ''/''"
    using pad0_digits(1) [of 8 i] format_int_chars [of _ 20 sn] by (fastforce simp: is_digit_def list_all_iff)
  then have "takeWhile (\<lambda>c. c \<noteq> CHR ''/'') (rev ?f @ CHR ''/'' # rev d) = rev ?f"
    by (subst takeWhile_append2) auto
  then show ?thesis
    by (simp add: path_filename_def logFile_def filenamePrefixFrom_def LOG_FILE_SUFFIX_def)
qed

lemma find_char_first: "c \<notin> set xs \<Longrightarrow> find_char c (xs @ c # ys) = Some (length xs)"
  by (simp add: find_char_def takeWhile_append)

lemma segment_name:
  assumes "i < 2 ^ 64" "int64 sn"
  shows "segmentIDAndSequenceFromFileName (path_filename (logFile d i sn [])) = okR (i, sn)
    \<and> isLogFile (path_filename (logFile d i sn []))"
proof -
  let ?i = "pad0 8 (nat_to_dec i)" and ?n = "format_int 20 sn"
  have f: "path_filename (logFile d i sn []) = ?i @ CHR ''-'' # ?n @ CHR ''.'' # ''log''" by (simp add: filename_logFile)
  have dash: "CHR ''-'' \<notin> set ?i" and dot: "CHR ''.'' \<notin> set (?i @ CHR ''-'' # ?n)"
    using pad0_digits(1) [of 8 i] format_int_chars [of _ 20 sn] by (fastforce simp: is_digit_def list_all_iff)+
  have "find_char CHR ''.'' (?i @ CHR ''-'' # ?n @ CHR ''.'' # ''log'') = Some (length ?i + 1 + length ?n)"
    using find_char_first [OF dot, of "''log''"] by simp
  moreover have "find_char CHR ''-'' (?i @ CHR ''-'' # ?n @ CHR ''.'' # ''log'') = Some (length ?i)"
    using find_char_first [OF dash] by simp
  moreover have "?n \<noteq> []" using pad0_digits(2) by (simp add: format_int_def)
  ultimately have "segmentIDAndSequenceFromFileName (path_filename (logFile d i sn [])) = okR (i, sn)"
    using from_chars_pad0 [OF assms(1), of 8] from_chars_format_int [OF assms(2), of 20] pad0_digits(2) [of 8 i]
    unfolding f by (simp add: segmentIDAndSequenceFromFileName_def parseInt_def Let_def)
  then show ?thesis by (simp add: f isLogFile_def ends_with_def LOG_FILE_SUFFIX_def)
qed

text \<open>
  Property C13: parsing the name of a segment file gives back the segment id and the base sequence it
  was made from, for every 64-bit id and every 64-bit sequence, negative ones included.
\<close>

theorem segment_name_roundtrip:
  assumes "i < 2 ^ 64" "int64 sn"
  shows "segmentIDAndSequenceFromFileName (path_filename (logFile d i sn [])) = okR (i, sn)
    \<and> isLogFile (path_filename (logFile d i sn []))"
  by (rule segment_name [OF assms])

theorem segment_name_roundtrip_witness:
  "segmentIDAndSequenceFromFileName ''00000003-00000000000000000042.log'' = okR (3, 42)"
proof -
  have "path_filename (logFile ''d'' 3 42 []) = ''00000003-00000000000000000042.log''" by code_simp
  with segment_name_roundtrip [of 3 42 "''d''"] show ?thesis by (simp add: int64_def)
qed

end
