(* ===== verification/Nlog_Reader.thy ===== *)
theory Nlog_Reader
  imports Nlog_Metadata Nlog_Entry
begin

text \<open>
  The interface through which a log is read, as \<^verbatim>\<open>Loglet::fetch\<close> and \<^verbatim>\<open>Log::fetch\<close> of
  \<^verbatim>\<open>src/src/Cluster/LocalLog/Log\<close> provide it: one call returns some of the entries from a sequence on
  and a hint for the next call. A reader that hands every hint back gets the whole log; this is shown
  here once, for whatever keeps the contract of a single call. The second interface adds the append of
  \<^verbatim>\<open>Log\<close>: what was appended, batch by batch, is what a reader gets.
\<close>

type_synonym 'st fetcher = "nat \<Rightarrow> int \<Rightarrow> FetchHint option \<Rightarrow> 'st \<Rightarrow> FetchResult CallResult exec \<times> 'st"

text \<open>
  The reader: it asks for at most \<open>max_size\<close> bytes at a time, starting at \<open>sn\<close>, until it has what is
  below \<open>fin\<close>; \<open>fuel\<close> bounds the number of calls.
\<close>

fun drain :: "'st fetcher \<Rightarrow> nat \<Rightarrow> nat \<Rightarrow> int \<Rightarrow> int \<Rightarrow> FetchHint option \<Rightarrow> 'st \<Rightarrow> Entry list exec \<times> 'st" where
  "drain f max_size 0 sn fin hint st = (Diverge, st)"
| "drain f max_size (Suc fuel) sn fin hint st =
    (if fin \<le> sn then (Ret [], st)
     else case f max_size sn hint st of
       (Ret r, st') \<Rightarrow>
         if hasError r then (Throw (error_code r), st')
         else let h = fetch_hint (result r) in
           (case drain f max_size fuel (fh_sn h) fin (Some h) st' of
              (Ret es, st'') \<Rightarrow> (Ret (fetch_entries (result r) @ es), st'')
            | other \<Rightarrow> other)
     | (Throw x, st') \<Rightarrow> (Throw x, st')
     | (Undef, st') \<Rightarrow> (Undef, st')
     | (Diverge, st') \<Rightarrow> (Diverge, st'))"

locale log_reader =
  fixes fetch :: "'st fetcher"
    and rel :: "'st \<Rightarrow> 'v \<Rightarrow> bool"
    and start :: "'v \<Rightarrow> int"
    and entries :: "'v \<Rightarrow> Entry list"
    and good :: "'v \<Rightarrow> int \<Rightarrow> FetchHint option \<Rightarrow> bool"
  assumes fetch_step: "rel st v \<Longrightarrow> i < length (entries v) \<Longrightarrow> 0 < max_size \<Longrightarrow> good v (start v + int i) hint \<Longrightarrow>
    \<exists>r st' n. fetch max_size (start v + int i) hint st = (Ret (okR r), st') \<and> 0 < n \<and> i + n \<le> length (entries v)
      \<and> fetch_entries r = map storedEntry (take n (drop i (entries v)))
      \<and> fh_sn (fetch_hint r) = start v + int (i + n)
      \<and> rel st' v \<and> good v (start v + int (i + n)) (Some (fetch_hint r))"
begin

definition fin :: "'v \<Rightarrow> int" where
  "fin v = start v + int (length (entries v))"

lemma drain_all:
  assumes "rel st v" "0 < max_size" "good v (start v + int i) hint" "i \<le> length (entries v)"
    and "length (entries v) - i \<le> fuel"
  shows "\<exists>st'. drain fetch max_size (Suc fuel) (start v + int i) (fin v) hint st
      = (Ret (map storedEntry (drop i (entries v))), st') \<and> rel st' v"
  using assms
proof (induction fuel arbitrary: i hint st)
  case 0
  then show ?case by (simp add: fin_def)
next
  case (Suc fuel)
  show ?case
  proof (cases "i = length (entries v)")
    case True
    then show ?thesis using Suc.prems(1) by (simp add: fin_def)
  next
    case False
    with Suc.prems(4) have i: "i < length (entries v)" by simp
    from fetch_step [OF Suc.prems(1) i Suc.prems(2,3)] obtain r st1 n where
      f: "fetch max_size (start v + int i) hint st = (Ret (okR r), st1)" "0 < n" "i + n \<le> length (entries v)"
      "fetch_entries r = map storedEntry (take n (drop i (entries v)))" "fh_sn (fetch_hint r) = start v + int (i + n)"
      "rel st1 v" "good v (start v + int (i + n)) (Some (fetch_hint r))" by blast
    have "length (entries v) - (i + n) \<le> fuel" using Suc.prems(5) f(2) by linarith
    from Suc.IH [OF f(6) Suc.prems(2) f(7,3) this] obtain st2 where
      d: "drain fetch max_size (Suc fuel) (start v + int (i + n)) (fin v) (Some (fetch_hint r)) st1
        = (Ret (map storedEntry (drop (i + n) (entries v))), st2)" "rel st2 v" by blast
    have "take n (drop i (entries v)) @ drop (i + n) (entries v) = drop i (entries v)"
      using append_take_drop_id [of n "drop i (entries v)"] by (simp add: add.commute)
    from arg_cong [OF this, of "map storedEntry"]
    have "fetch_entries r @ map storedEntry (drop (i + n) (entries v)) = map storedEntry (drop i (entries v))"
      using f(4) by simp
    moreover have "\<not> fin v \<le> start v + int i" using i by (simp add: fin_def)
    ultimately show ?thesis
      using f(1,5) d by (simp add: drain.simps(2) [of fetch max_size "Suc fuel"] del: drain.simps)
  qed
qed

end

section \<open>Appending\<close>

type_synonym 'st appender = "Entry list \<Rightarrow> 'st \<Rightarrow> nat CallResult exec \<times> 'st"

fun write_all :: "'st appender \<Rightarrow> Entry list list \<Rightarrow> 'st \<Rightarrow> unit exec \<times> 'st" where
  "write_all f [] st = (Ret (), st)"
| "write_all f (es # ess) st =
    (case f es st of
       (Ret r, st') \<Rightarrow> if hasError r then (Throw (error_code r), st') else write_all f ess st'
     | (Throw x, st') \<Rightarrow> (Throw x, st')
     | (Undef, st') \<Rightarrow> (Undef, st')
     | (Diverge, st') \<Rightarrow> (Diverge, st'))"

text \<open>Batches that continue each other from sequence \<open>sn\<close> on, each acceptable by itself.\<close>

fun batches :: "(int \<Rightarrow> Entry list \<Rightarrow> bool) \<Rightarrow> int \<Rightarrow> Entry list list \<Rightarrow> bool" where
  "batches ok sn [] \<longleftrightarrow> True"
| "batches ok sn (es # ess) \<longleftrightarrow> ok sn es \<and> batches ok (sn + int (length es)) ess"

text \<open>
  A log that can also be written: it takes a batch that continues it and for which there is room. The
  room is what bounds of the code's counters leave, in entries.
\<close>

locale log_store = log_reader fetch rel start entries good
  for fetch :: "'st fetcher"
    and rel :: "'st \<Rightarrow> 'v \<Rightarrow> bool"
    and start :: "'v \<Rightarrow> int"
    and entries :: "'v \<Rightarrow> Entry list"
    and good :: "'v \<Rightarrow> int \<Rightarrow> FetchHint option \<Rightarrow> bool" +
  fixes append :: "'st appender"
    and ok :: "int \<Rightarrow> Entry list \<Rightarrow> bool"
    and room :: "'v \<Rightarrow> nat"
  assumes append_step: "rel st v \<Longrightarrow> ok (start v + int (length (entries v))) es \<Longrightarrow> length es \<le> room v \<Longrightarrow>
    \<exists>n st' v'. append es st = (Ret (okR n), st') \<and> rel st' v' \<and> start v' = start v \<and> entries v' = entries v @ es
      \<and> room v' = room v - length es"
    and good_none: "good v sn None"
begin

lemma write_all_step:
  assumes "rel st v" "batches ok (start v + int (length (entries v))) ess" "length (concat ess) \<le> room v"
  shows "\<exists>st' v'. write_all append ess st = (Ret (), st') \<and> rel st' v' \<and> start v' = start v
    \<and> entries v' = entries v @ concat ess \<and> room v' = room v - length (concat ess)"
  using assms
proof (induction ess arbitrary: st v)
  case (Cons es ess)
  have "ok (start v + int (length (entries v))) es" "length es \<le> room v" using Cons.prems(2,3) by simp_all
  from append_step [OF Cons.prems(1) this] obtain n st1 v1 where
    a: "append es st = (Ret (okR n), st1)" "rel st1 v1" "start v1 = start v" "entries v1 = entries v @ es" "room v1 = room v - length es" by blast
  have "batches ok (start v1 + int (length (entries v1))) ess" "length (concat ess) \<le> room v1"
    using Cons.prems(2,3) a by (simp_all add: add.assoc)
  from Cons.IH [OF a(2) this] obtain st' v' where
    "write_all append ess st1 = (Ret (), st')" "rel st' v'" "start v' = start v1"
    "entries v' = entries v1 @ concat ess" "room v' = room v1 - length (concat ess)" by blast
  then show ?case using a by (intro exI [of _ st'] exI [of _ v']) simp
qed auto

text \<open>A reader that starts anywhere in the old part gets the rest of it and everything written.\<close>

lemma written_is_read:
  assumes "rel st v" "batches ok (start v + int (length (entries v))) ess" "length (concat ess) \<le> room v"
    and "0 < max_size" "i \<le> length (entries v)" "length (entries v @ concat ess) - i \<le> fuel"
  shows "\<exists>st' st''. write_all append ess st = (Ret (), st')
    \<and> drain fetch max_size (Suc fuel) (start v + int i) (start v + int (length (entries v @ concat ess))) None st'
      = (Ret (map storedEntry (drop i (entries v) @ concat ess)), st'')"
proof -
  obtain st' v' where w: "write_all append ess st = (Ret (), st')" "rel st' v'" "start v' = start v" "entries v' = entries v @ concat ess"
    using write_all_step [OF assms(1-3)] by blast
  have "i \<le> length (entries v')" "length (entries v') - i \<le> fuel" using assms(5,6) w(4) by simp_all
  from drain_all [OF w(2) assms(4) good_none this] obtain st'' where
    "drain fetch max_size (Suc fuel) (start v' + int i) (fin v') None st' = (Ret (map storedEntry (drop i (entries v'))), st'')" by blast
  then show ?thesis using w assms(5) by (intro exI [of _ st'] exI [of _ st'']) (simp add: fin_def)
qed

end

end
