(* ===== verification/Nlog_Loglet_Fetch.thy ===== *)
theory Nlog_Loglet_Fetch
  imports Nlog_Loglet Nlog_Reader
begin

text \<open>
  What a \<open>Loglet\<close> holds, and that \<^verbatim>\<open>Loglet::fetch\<close> reads it back. \<open>log_rel\<close> relates the state of the
  loglet and the file system to the segments with their entries: each file holds whole entries with
  consecutive sequences, each segment begins where the one before it ends, the next sequence is
  behind the last entry, and every record of the position index points to the start of an entry.
  On such a state the search for a position, the choice of the slice and the chunked reader together
  return exactly the entries asked for.
\<close>

section \<open>What a loglet holds\<close>

definition holds :: "filesys \<Rightarrow> LogSegment \<Rightarrow> Entry list \<Rightarrow> bool" where
  "holds s g es \<longleftrightarrow> segOf g (logBytes es) s \<and> end_pos (seg_log g) = uint64_max \<and> contiguous (base_sn g) es
     \<and> (\<forall>e \<in> set es. wfEntry e \<and> metaFits e) \<and> seg_id g < 2 ^ 28 \<and> length (logBytes es) < 2 ^ 36"

type_synonym contents = "(LogSegment \<times> Entry list) list"

definition packed :: "LogSegment \<Rightarrow> nat \<Rightarrow> nat" where
  "packed g p = seg_id g * 2 ^ 36 + p"

definition entryStart :: "Entry list \<Rightarrow> nat \<Rightarrow> nat" where
  "entryStart es i = length (logBytes (take i es))"

text \<open>An index record names the start of an entry, or it is left over from a removed segment.\<close>

definition pointsTo :: "contents \<Rightarrow> SequencePosition \<Rightarrow> bool" where
  "pointsTo gs r \<longleftrightarrow>
     (\<exists>(g, es) \<in> set gs. \<exists>i < length es. sp_sn r = base_sn g + int i \<and> sp_file_position r = packed g (entryStart es i))
     \<or> (\<forall>(g, es) \<in> set gs. sp_sn r < base_sn g \<and> sp_file_position r < packed g 0)"

definition index_rel :: "SequencePosition PersistentMonoMap \<Rightarrow> filesys \<Rightarrow> contents \<Rightarrow> SequencePosition list \<Rightarrow> bool" where
  "index_rel m s gs idx \<longleftrightarrow>
     (\<exists>base fulls cur. map_rel SequencePosition_ops valid_SequencePosition base m s fulls cur
        \<and> idx = concat fulls @ cur \<and> (cur \<noteq> [] \<or> fulls = []))
     \<and> keys_ascend (\<lambda>r. int (sp_file_position r)) idx \<and> (\<forall>r \<in> set idx. pointsTo gs r)"

fun chained :: "contents \<Rightarrow> bool" where
  "chained ((g, es) # (h, fs) # gs) \<longleftrightarrow>
     base_sn h = base_sn g + int (length es) \<and> seg_id g < seg_id h \<and> chained ((h, fs) # gs)"
| "chained gs = True"

definition endMeta :: "LogSegment \<times> Entry list \<Rightarrow> LogSequenceMetadata" where
  "endMeta = (\<lambda>(g, es). \<lparr>entry_sn = base_sn g + int (length es), segment_base_sn = Some (base_sn g),
     file_position = Some (length (logBytes es))\<rparr>)"

definition log_rel :: "Loglet \<Rightarrow> filesys \<Rightarrow> contents \<Rightarrow> SequencePosition list \<Rightarrow> bool" where
  "log_rel l s gs idx \<longleftrightarrow> gs \<noteq> [] \<and> map fst gs = allSegments (segments l) \<and> segs_wf (segments l)
     \<and> (\<forall>(g, es) \<in> set gs. holds s g es) \<and> chained gs \<and> next_sn_meta l = endMeta (last gs)
     \<and> index_rel (sn_pos_index l) s gs idx"

lemma holdsD:
  assumes "holds s g es"
  shows "content s (fd (fle_file (seg_log g))) = Some (logBytes es)" "seg_size g = length (logBytes es)"
    "end_pos (seg_log g) = uint64_max" "contiguous (base_sn g) es" "\<forall>e \<in> set es. wfEntry e \<and> metaFits e"
    "seg_id g < 2 ^ 28" "length (logBytes es) < 2 ^ 36" "segOf g (logBytes es) s"
  using assms segOfD [of g "logBytes es" s] by (simp_all add: holds_def)

lemma entryStart_simps [simp]: "entryStart es 0 = 0" "length es \<le> i \<Longrightarrow> entryStart es i = length (logBytes es)"
  by (simp_all add: entryStart_def)

lemma entryStart_Suc: "i < length es \<Longrightarrow> entryStart es (Suc i) = entryStart es i + length (entryBytes (es ! i))"
  by (simp add: entryStart_def take_Suc_conv_app_nth del: length_entryBytes)

lemma entryStart_mono: "i \<le> j \<Longrightarrow> entryStart es i \<le> entryStart es j"
  using take_add [of i "j - i" es] by (simp add: entryStart_def)

lemma entryStart_le: "entryStart es i \<le> length (logBytes es)"
  using entryStart_mono [of i "max i (length es)" es] by (simp add: max_def split: if_splits)

lemma entryStart_less: "i < j \<Longrightarrow> i < length es \<Longrightarrow> entryStart es i < entryStart es j"
  using entryStart_Suc [of i es] entryStart_mono [of "Suc i" j es] by (simp add: entryBytes_eq)

lemma chained_after:
  assumes "chained (as @ (g, es) # bs)" "(h, fs) \<in> set bs"
  shows "base_sn g + int (length es) \<le> base_sn h \<and> seg_id g < seg_id h"
proof -
  have "chained ((g, es) # bs)" using assms(1)
  proof (induction as)
    case (Cons a as)
    then show ?case by (cases a; cases as) auto
  qed simp
  then show ?thesis using assms(2)
  proof (induction bs arbitrary: g es)
    case (Cons b bs)
    then show ?case by (cases b) fastforce
  qed simp
qed

lemma same_segment:
  assumes "chained gs" "(g, es) \<in> set gs" "(h, fs) \<in> set gs" "seg_id g = seg_id h"
  shows "g = h \<and> es = fs"
proof (rule ccontr)
  assume ne: "\<not> (g = h \<and> es = fs)"
  obtain as bs where gs: "gs = as @ (g, es) # bs" using split_list [OF assms(2)] by blast
  with assms(3) ne consider "(h, fs) \<in> set as" | "(h, fs) \<in> set bs" by auto
  then show False
  proof cases
    case 1
    then obtain cs ds where "as = cs @ (h, fs) # ds" using split_list by metis
    then show False using chained_after [of cs h fs "ds @ (g, es) # bs" g es] assms(1,4) gs by simp
  next
    case 2
    then show False using chained_after [of as g es bs h fs] assms(1,4) gs by simp
  qed
qed

lemma floor_entry:
  assumes rel: "log_rel l s gs idx" and g: "(g, es) \<in> set gs" and i: "i < length es"
  shows "floorSegment (base_sn g + int i) (segments l) = Some g"
proof -
  have wf: "segs_wf (segments l)" and segs: "map snd (segments l) = map fst gs" and ch: "chained gs"
    using rel by (simp_all add: log_rel_def allSegments_def)
  have key: "(base_sn h, h) \<in> set (segments l)" if "(h, fs) \<in> set gs" for h fs
  proof -
    have "h \<in> snd ` set (segments l)" using that segs by (metis fst_conv image_eqI set_map)
    then show ?thesis using segs_wf_base [OF wf] by fastforce
  qed
  have "b \<le> base_sn g" if b: "(b, h) \<in> set (segments l)" "b \<le> base_sn g + int i" for b h
  proof -
    have "h \<in> fst ` set gs" using b(1) segs by (metis image_eqI set_map snd_conv)
    then obtain fs where h: "(h, fs) \<in> set gs" by fastforce
    have bh: "base_sn h = b" by (rule segs_wf_base [OF wf b(1)])
    obtain as bs where gs: "gs = as @ (g, es) # bs" using split_list [OF g] by blast
    with h consider "(h, fs) \<in> set as" | "h = g" | "(h, fs) \<in> set bs" by auto
    then show ?thesis
    proof cases
      case 1
      then obtain cs ds where "as = cs @ (h, fs) # ds" using split_list by metis
      then show ?thesis using chained_after [of cs h fs "ds @ (g, es) # bs" g es] ch gs bh by simp
    next
      case 3
      then show ?thesis using chained_after [of as g es bs h fs] ch gs bh b(2) i by simp
    qed (use bh in simp)
  qed
  then show ?thesis
    unfolding floorSegment_Some [OF wf] using key [OF g] lookup_segs [OF wf] by auto
qed

section \<open>The position index\<close>

lemma decode_packed:
  assumes "n < 2 ^ 64"
  obtains a b where "segmentIDAndFilePosition (of_nat n) = (a, b)" "unat a = n div 2 ^ 36" "unat b = n mod 2 ^ 36"
proof -
  have b: "n div 2 ^ 36 < 2 ^ 28" "n mod 2 ^ 36 < 2 ^ 36" using assms by (simp_all add: div_less_iff_less_mult)
  have "n div 2 ^ 36 * 2 ^ 36 + n mod 2 ^ 36 = n" by (rule div_mult_mod_eq)
  with decode_position [OF b] have "segmentIDAndFilePosition (of_nat n) = (of_nat (n div 2 ^ 36), of_nat (n mod 2 ^ 36))"
    by (simp only:)
  moreover have "unat (of_nat (n div 2 ^ 36) :: u64) = n div 2 ^ 36" "unat (of_nat (n mod 2 ^ 36) :: u64) = n mod 2 ^ 36"
    using b by (simp_all add: unat_of_nat)
  ultimately show thesis by (rule that)
qed

lemma packed_parts: "p < 2 ^ 36 \<Longrightarrow> packed g p div 2 ^ 36 = seg_id g" "p < 2 ^ 36 \<Longrightarrow> packed g p mod 2 ^ 36 = p"
  by (simp_all add: packed_def)

text \<open>The segment a record is in: it points into the segment, or it is in none or another one.\<close>

lemma pointsTo_segment:
  assumes r: "pointsTo gs r" and ch: "chained gs" and g: "(g, es) \<in> set gs"
    and hold: "\<forall>(g, es) \<in> set gs. holds s g es" and id: "sp_file_position r div 2 ^ 36 = seg_id g"
  shows "\<exists>i < length es. sp_sn r = base_sn g + int i \<and> sp_file_position r mod 2 ^ 36 = entryStart es i"
proof -
  have "\<not> sp_file_position r < packed g 0" using id by (auto simp: packed_def)
  then obtain h fs i where h: "(h, fs) \<in> set gs" "i < length fs" "sp_sn r = base_sn h + int i"
    "sp_file_position r = packed h (entryStart fs i)"
    using r g by (fastforce simp: pointsTo_def)
  have "holds s h fs" using hold h(1) by fastforce
  then have lt: "entryStart fs i < 2 ^ 36" using holdsD(7) entryStart_le [of fs i] le_less_trans by blast
  then have "seg_id h = seg_id g" using id h(4) by (simp only: packed_parts)
  then have "h = g \<and> fs = es" using same_segment [OF ch h(1) g] by simp
  then show ?thesis using h lt by (simp only: packed_parts) blast
qed

lemma index_bounds:
  assumes "index_rel m s gs idx" "outcomes s = []"
  shows "\<exists>m'. leftLowerBoundPositionForSequence sn (m, s) = (Ret (okR (find (\<lambda>e. sp_sn e \<le> sn) (rev idx))), (m', s))
      \<and> index_rel m' s gs idx \<and> same_but_segs m m'"
    and "\<exists>m'. lowerBoundSequenceForPosition p (m, s) = (Ret (okR (find (\<lambda>e. p \<le> int (sp_file_position e)) idx)), (m', s))
      \<and> index_rel m' s gs idx \<and> same_but_segs m m'"
proof -
  obtain base fulls cur where m: "map_rel SequencePosition_ops valid_SequencePosition base m s fulls cur"
    and idx: "idx = concat fulls @ cur" "cur \<noteq> [] \<or> fulls = []"
    and asc: "keys_ascend (\<lambda>r. int (sp_file_position r)) (concat fulls @ cur)"
    and pt: "\<forall>r \<in> set idx. pointsTo gs r" using assms(1) unfolding index_rel_def by blast
  have keys: "keys_ascend (kv_key SequencePosition_ops) (concat fulls @ cur)"
    using map_relD(8) [OF m] by (simp add: map_wf_def)
  have again: "index_rel m' s gs idx" if "map_rel SequencePosition_ops valid_SequencePosition base m' s fulls cur" for m'
    using that idx asc pt by (auto simp: index_rel_def)
  from sp.bound_result_le [OF m assms(2) keys, of sn]
  show "\<exists>m'. leftLowerBoundPositionForSequence sn (m, s) = (Ret (okR (find (\<lambda>e. sp_sn e \<le> sn) (rev idx))), (m', s))
      \<and> index_rel m' s gs idx \<and> same_but_segs m m'"
    using again unfolding idx(1)
    by (auto simp: leftLowerBoundPositionForSequence_def leftLowerBound_def findFirstEntryByKey_LessThanOrEqualTo_def)
  from sp.bound_result_ge [OF m assms(2), of "kv_value SequencePosition_ops" p] asc idx(2)
  show "\<exists>m'. lowerBoundSequenceForPosition p (m, s) = (Ret (okR (find (\<lambda>e. p \<le> int (sp_file_position e)) idx)), (m', s))
      \<and> index_rel m' s gs idx \<and> same_but_segs m m'"
    using again unfolding idx(1)
    by (auto simp: lowerBoundSequenceForPosition_def lowerBoundByValue_def findFirstEntryByValue_EqualToOrGreaterThan_def)
qed

lemma index_position_valid: "index_rel m s gs idx \<Longrightarrow> r \<in> set idx \<Longrightarrow> sp_file_position r < 2 ^ 64"
proof -
  assume a: "index_rel m s gs idx" "r \<in> set idx"
  then obtain base fulls cur where "map_rel SequencePosition_ops valid_SequencePosition base m s fulls cur"
    and idx: "idx = concat fulls @ cur" unfolding index_rel_def by blast
  from map_relD(8) [OF this(1)] a(2) idx show ?thesis by (auto simp: map_wf_def valid_SequencePosition_def)
qed

lemma find_member: "find P xs = Some r \<Longrightarrow> r \<in> set xs \<and> P r"
  by (auto simp: find_Some_iff)

section \<open>Finding a sequence\<close>

lemma split_at:
  assumes "j \<le> i" "i < length es"
  shows "take i es = take j es @ drop j (take i es)" "es = take j es @ drop j (take i es) @ es ! i # drop (Suc i) es"
proof -
  have "take j (take i es) = take j es" using assms(1) by (simp add: min_def)
  then show t: "take i es = take j es @ drop j (take i es)" using append_take_drop_id [of j "take i es"] by simp
  have "es = take i es @ es ! i # drop (Suc i) es" by (rule id_take_nth_drop [OF assms(2)])
  then show "es = take j es @ drop j (take i es) @ es ! i # drop (Suc i) es"
    by (subst (asm) t) simp
qed

lemma search_from:
  assumes h: "holds s g es" and q: "outcomes s = []" and ji: "j \<le> i" "i < length es"
  shows "seg_translateSequence g (base_sn g + int i) (entryStart es j) s =
    (Ret (Some \<lparr>lsp_sn = base_sn g + int i, lsp_file_position = entryStart es i,
                lsp_entry_size = length (entryBytes (es ! i))\<rparr>), s)"
proof -
  note D = holdsD [OF h]
  let ?pre = "logBytes (take j es)" and ?ws = "drop j (take i es)" and ?fs = "drop (Suc i) es"
  note split = split_at(2) [OF ji]
  have sn: "e_sn (es ! i) = base_sn g + int i" using contiguous_nth [OF D(4) ji(2)] .
  have "e_sn x \<noteq> e_sn (es ! i)" if x: "x \<in> set ?ws" for x
  proof -
    have "x \<in> set (take i es)" using x by (rule in_set_dropD)
    then obtain k where "k < i" "x = es ! k" using ji(2) by (auto simp: in_set_conv_nth)
    then show ?thesis using contiguous_nth [OF D(4), of k] sn ji(2) by simp
  qed
  moreover have "content s (fd (fle_file (seg_log g))) = Some (?pre @ logBytes (?ws @ es ! i # ?fs) @ [])"
    using D(1) arg_cong [OF split, of logBytes] by simp
  moreover have "\<forall>x \<in> set (?ws @ es ! i # ?fs). wfEntry x \<and> metaFits x"
    using D(5) arg_cong [OF split, of set] by (simp add: ball_Un)
  moreover have "length ?pre + length (logBytes (?ws @ es ! i # ?fs)) \<le> end_pos (seg_log g)"
    using D(3,7) arg_cong [OF split, of "\<lambda>xs. length (logBytes xs)"] by (simp add: uint64_max_def)
  ultimately have "searchForSequenceWithSize (seg_log g) (e_sn (es ! i)) (length ?pre) s =
      (Ret (Some \<lparr>lsp_sn = e_sn (es ! i), lsp_file_position = length ?pre + length (logBytes ?ws),
                  lsp_entry_size = length (entryBytes (es ! i))\<rparr>), s)"
    using search_found [OF q] by blast
  moreover have "length ?pre + length (logBytes ?ws) = entryStart es i"
    using arg_cong [OF split_at(1) [OF ji], of "\<lambda>xs. length (logBytes xs)"] by (simp add: entryStart_def)
  ultimately show ?thesis by (simp add: seg_translateSequence_def sn entryStart_def)
qed

text \<open>The state after a query: only caches of the position index may differ.\<close>

definition queried :: "Loglet \<Rightarrow> Loglet \<Rightarrow> bool" where
  "queried l l' \<longleftrightarrow> (\<exists>m. l' = l\<lparr>sn_pos_index := m\<rparr> \<and> same_but_segs (sn_pos_index l) m)"

lemma translate_entry:
  assumes rel: "log_rel l s gs idx" and q: "outcomes s = []" and g: "(g, es) \<in> set gs" and i: "i < length es"
  shows "\<exists>l' n. translateSequence g (base_sn g + int i) (l, s) =
      (Ret (Some \<lparr>lsp_sn = base_sn g + int i, lsp_file_position = entryStart es i, lsp_entry_size = n\<rparr>), (l', s))
    \<and> n \<le> length (entryBytes (es ! i)) \<and> log_rel l' s gs idx \<and> queried l l'"
proof -
  let ?sn = "base_sn g + int i"
  have ir: "index_rel (sn_pos_index l) s gs idx" and ch: "chained gs" and hold: "\<forall>(g, es) \<in> set gs. holds s g es"
    using rel by (simp_all add: log_rel_def)
  have hg: "holds s g es" using hold g by fastforce
  obtain m' where run: "leftLowerBoundPositionForSequence ?sn (sn_pos_index l, s)
      = (Ret (okR (find (\<lambda>e. sp_sn e \<le> ?sn) (rev idx))), (m', s))" and ir': "index_rel m' s gs idx" "same_but_segs (sn_pos_index l) m'"
    using index_bounds(1) [OF ir q, of ?sn] by blast
  define l' where "l' = l\<lparr>sn_pos_index := m'\<rparr>"
  have rel': "log_rel l' s gs idx" "queried l l'" using rel ir' by (auto simp: l'_def log_rel_def queried_def)
  have on: "onSnPos (leftLowerBoundPositionForSequence ?sn) (l, s)
      = (Ret (okR (find (\<lambda>e. sp_sn e \<le> ?sn) (rev idx))), (l', s))"
    using run by (simp add: onSnPos_def onPart_def l'_def)
  have from_start: "seg_translateSequence g ?sn 0 s = (Ret (Some \<lparr>lsp_sn = ?sn, lsp_file_position = entryStart es i,
      lsp_entry_size = length (entryBytes (es ! i))\<rparr>), s)"
    using search_from [OF hg q, of 0 i] i by simp
  show ?thesis
  proof (cases "find (\<lambda>e. sp_sn e \<le> ?sn) (rev idx)")
    case None
    then show ?thesis using on from_start rel' by (auto simp: translateSequence_def)
  next
    case (Some r)
    then have r: "r \<in> set idx" "sp_sn r \<le> ?sn" by (auto dest: find_member)
    obtain a b where dec: "segmentIDAndFilePosition (of_nat (sp_file_position r)) = (a, b)"
      "unat a = sp_file_position r div 2 ^ 36" "unat b = sp_file_position r mod 2 ^ 36"
      by (rule decode_packed [OF index_position_valid [OF ir r(1)]])
    show ?thesis
    proof (cases "unat a = seg_id g")
      case True
      have "pointsTo gs r" using ir r(1) by (simp add: index_rel_def)
      from pointsTo_segment [OF this ch g hold] True dec(2,3) obtain j where
        j: "j < length es" "sp_sn r = base_sn g + int j" "unat b = entryStart es j" by auto
      have run2: "translateSequence g ?sn (l, s) = (if j = i then retE (Some \<lparr>lsp_sn = ?sn,
          lsp_file_position = entryStart es j, lsp_entry_size = 0\<rparr>)
        else liftP (seg_translateSequence g ?sn (entryStart es j))) (l', s)"
        by (simp add: translateSequence_def on Some dec(1) True j)
      have "j \<le> i" using j(2) r(2) by simp
      then show ?thesis
        using run2 search_from [OF hg q, of j i] i rel' by (cases "j = i") auto
    next
      case False
      have "translateSequence g ?sn (l, s) = liftP (seg_translateSequence g ?sn 0) (l', s)"
        by (simp add: translateSequence_def on Some dec(1) False)
      then show ?thesis using from_start rel' by auto
    qed
  qed
qed

section \<open>The slice that is read\<close>

lemma queried_trans: "queried l l' \<Longrightarrow> queried l' l'' \<Longrightarrow> queried l l''"
  by (fastforce simp: queried_def intro: same_but_segs_trans)

lemma queriedD: "queried l l' \<Longrightarrow> segments l' = segments l \<and> next_sn_meta l' = next_sn_meta l"
  by (auto simp: queried_def)

text \<open>A view of the entries from \<open>i\<close> up to \<open>k\<close>.\<close>

definition sliceOf :: "LogSegment \<Rightarrow> Entry list \<Rightarrow> nat \<Rightarrow> nat \<Rightarrow> FileLogEntries" where
  "sliceOf g es i k = \<lparr>fle_file = fle_file (seg_log g), start_pos = entryStart es i, end_pos = entryStart es k,
     is_slice = True, fle_eof = False, fle_bytes = length (logBytes es)\<rparr>"

lemma fetch_slice:
  assumes h: "holds s g es" and q: "outcomes s = []" and ik: "i < k" "k \<le> length es"
  shows "seg_fetch g (entryStart es i) (entryStart es k - entryStart es i) s = (Ret (sliceOf g es i k), s)"
proof -
  note D = holdsD [OF h]
  have lt: "entryStart es i < entryStart es k" using entryStart_less [of i k es] ik by simp
  have le: "entryStart es k \<le> length (logBytes es)" by (rule entryStart_le)
  from slice_quiet [OF q, of "seg_log g" "logBytes es" "entryStart es i" "entryStart es k - entryStart es i"]
  show ?thesis using D(7,8) lt le by (simp add: seg_fetch_def sliceOf_def segOf_def)
qed

text \<open>A record of the segment at or behind a position above the start of an entry.\<close>

lemma bound_in_segment:
  assumes rel: "log_rel l s gs idx" and g: "(g, es) \<in> set gs"
    and r: "r \<in> set idx" "packed g (entryStart es i + n) \<le> sp_file_position r" and n: "0 < n"
    and id: "sp_file_position r div 2 ^ 36 = seg_id g"
  shows "\<exists>k. i < k \<and> k < length es \<and> sp_file_position r mod 2 ^ 36 = entryStart es k \<and> entryStart es i + n \<le> entryStart es k"
proof -
  have "pointsTo gs r" "chained gs" "\<forall>(g, es) \<in> set gs. holds s g es"
    using rel r(1) by (simp_all add: log_rel_def index_rel_def)
  from pointsTo_segment [OF this(1,2) g this(3) id] obtain k where
    k: "k < length es" "sp_file_position r mod 2 ^ 36 = entryStart es k" by blast
  have "sp_file_position r = packed g (entryStart es k)"
    using div_mult_mod_eq [of "sp_file_position r" "2 ^ 36"] unfolding id k(2) by (simp add: packed_def)
  then have ge: "entryStart es i + n \<le> entryStart es k" using r(2) by (simp add: packed_def)
  then have "\<not> entryStart es k \<le> entryStart es i" using n by linarith
  then have "i < k" using entryStart_mono [of k i es] by (meson not_le)
  then show ?thesis using k ge by blast
qed

lemma fetch_from_entry:
  assumes rel: "log_rel l s gs idx" and q: "outcomes s = []" and g: "(g, es) \<in> set gs" and i: "i < length es"
    and n: "n \<le> length (entryBytes (es ! i))" and sz: "0 < max_size"
  shows "\<exists>l' k. fetch_from g max_size (seg_size g) \<lparr>lsp_sn = sn, lsp_file_position = entryStart es i, lsp_entry_size = n\<rparr> (l, s)
      = (Ret (Some (sliceOf g es i k)), (l', s))
    \<and> i < k \<and> k \<le> length es \<and> (k = length es \<or> max_size \<le> entryStart es k - entryStart es i)
    \<and> log_rel l' s gs idx \<and> queried l l'"
proof -
  have ir: "index_rel (sn_pos_index l) s gs idx" and ch: "chained gs" and hold: "\<forall>(g, es) \<in> set gs. holds s g es"
    using rel by (simp_all add: log_rel_def)
  have hg: "holds s g es" using hold g by fastforce
  note D = holdsD [OF hg]
  let ?p = "entryStart es i" and ?adj = "max max_size n"
  have le: "?p \<le> length (logBytes es)" by (rule entryStart_le)
  have all: "seg_fetch g ?p (length (logBytes es) - ?p) s = (Ret (sliceOf g es i (length es)), s)"
    using fetch_slice [OF hg q i] by simp
  have room: "n \<le> length (logBytes es) - ?p"
    using n entryStart_Suc [OF i] entryStart_le [of es "Suc i"] by simp
  show ?thesis
  proof (cases "length (logBytes es) - ?p \<le> ?adj")
    case True
    then show ?thesis
      using all room D(2) le i rel
      by (intro exI [of _ l] exI [of _ "length es"]) (simp add: fetch_from_def Let_def queried_def exI [of _ "sn_pos_index l"])
  next
    case False
    let ?pos = "?p + ?adj"
    have pos: "?pos < length (logBytes es)" using False by simp
    then have glob: "unat (globalSegmentFilePosition (of_nat (seg_id g)) (of_nat (add64 ?p ?adj))) = packed g ?pos"
      using unat_globalSegmentFilePosition [OF D(6), of ?pos] D(7) by (simp add: packed_def)
    obtain m' where run: "lowerBoundSequenceForPosition (int (packed g ?pos)) (sn_pos_index l, s)
        = (Ret (okR (find (\<lambda>e. int (packed g ?pos) \<le> int (sp_file_position e)) idx)), (m', s))"
      and ir': "index_rel m' s gs idx" "same_but_segs (sn_pos_index l) m'"
      using index_bounds(2) [OF ir q] by blast
    define l' where "l' = l\<lparr>sn_pos_index := m'\<rparr>"
    have rel': "log_rel l' s gs idx" "queried l l'" using rel ir' by (auto simp: l'_def log_rel_def queried_def)
    have on: "onSnPos (lowerBoundSequenceForPosition (int (packed g ?pos))) (l, s)
        = (Ret (okR (find (\<lambda>e. int (packed g ?pos) \<le> int (sp_file_position e)) idx)), (l', s))"
      using run by (simp add: onSnPos_def onPart_def l'_def)
    note step = False glob D(2) le on
    show ?thesis
    proof (cases "find (\<lambda>e. int (packed g ?pos) \<le> int (sp_file_position e)) idx")
      case None
      then show ?thesis
        using step all i rel' by (intro exI [of _ l'] exI [of _ "length es"]) (simp add: fetch_from_def Let_def)
    next
      case (Some r)
      then have r: "r \<in> set idx" "packed g ?pos \<le> sp_file_position r" by (auto dest: find_member)
      obtain a b where dec: "segmentIDAndFilePosition (of_nat (sp_file_position r)) = (a, b)"
        "unat a = sp_file_position r div 2 ^ 36" "unat b = sp_file_position r mod 2 ^ 36"
        by (rule decode_packed [OF index_position_valid [OF ir r(1)]])
      show ?thesis
      proof (cases "unat a = seg_id g")
        case True
        then obtain k where k: "i < k" "k < length es" "unat b = entryStart es k" "?pos \<le> entryStart es k"
          using bound_in_segment [OF rel g r] dec(2,3) sz by (simp only: less_max_iff_disj) auto
        have "seg_fetch g ?p (sub64 (unat b) ?p) s = (Ret (sliceOf g es i k), s)"
          using fetch_slice [OF hg q k(1)] k entryStart_mono [of i k es] by simp
        moreover have "max_size \<le> entryStart es k - ?p" using k(4) by simp
        ultimately show ?thesis
          using step Some dec(1) True k(1,2) rel' by (intro exI [of _ l'] exI [of _ k]) (simp add: fetch_from_def Let_def)
      next
        case other: False
        then show ?thesis
          using step Some dec(1) all i rel'
          by (intro exI [of _ l'] exI [of _ "length es"]) (simp add: fetch_from_def Let_def)
      qed
    qed
  qed
qed

section \<open>Fetching\<close>

lemma takeEntries_long:
  "n < m \<Longrightarrow> m \<le> n + length (logBytes ws) \<Longrightarrow> takeEntries ms m n (ws @ rs) = takeEntries ms m n ws"
proof (induction ws arbitrary: n)
  case (Cons e ws)
  then show ?case using Cons.IH [of "n + length (entryBytes e)"] by (auto simp: Let_def simp del: length_entryBytes)
qed simp

lemma takeEntries_first: "e_sn e < ms \<Longrightarrow> \<exists>tk. takeEntries ms m n (e # es) = e # tk"
  by (simp add: Let_def del: length_entryBytes)

lemma takeEntries_below: "e \<in> set (takeEntries ms m n es) \<Longrightarrow> e_sn e < ms"
  by (induction es arbitrary: n) (auto simp: Let_def split: if_splits)

lemma takeEntries_fits:
  "n < m \<Longrightarrow> takeEntries ms m n es \<noteq> [] \<Longrightarrow> n + length (logBytes (butlast (takeEntries ms m n es))) < m"
proof (induction es arbitrary: n)
  case (Cons e es)
  then show ?case
    using Cons.IH [of "n + length (entryBytes e)"]
    by (auto simp: Let_def not_le add.assoc simp del: length_entryBytes split: if_splits)
qed simp

lemma deserialize_slice:
  assumes h: "holds s g es" and q: "outcomes s = []" and ik: "i < k" "k \<le> length es" and ms: "base_sn g + int i < ms"
    and sz: "0 < max_size" and long: "k = length es \<or> max_size \<le> entryStart es k - entryStart es i"
    and tk: "tk = takeEntries ms max_size 0 (drop i es)"
  shows "\<exists>r. deserialize_entries (sliceOf g es i k) ms max_size defaultMaxBufferSize s = (Ret r, s) \<and> \<not> hasError r
    \<and> result r = (length (logBytes tk), map storedEntry tk)"
proof -
  note D = holdsD [OF h]
  let ?f = "sliceOf g es i k" and ?ws = "drop i (take k es)"
  have split: "es = take i es @ ?ws @ drop k es"
  proof -
    have "(take i (take k es) @ ?ws) @ drop k es = es" by (simp only: append_take_drop_id)
    then show ?thesis using ik by (simp add: min_def)
  qed
  have c: "content s (fd (fle_file ?f)) = Some (logBytes (take i es) @ logBytes ?ws @ logBytes (drop k es))"
    using D(1) arg_cong [OF split, of logBytes] by (simp add: sliceOf_def)
  have wf: "\<forall>e \<in> set ?ws. wfEntry e" using D(5) by (auto dest: in_set_dropD in_set_takeD)
  have "contiguous (base_sn g) (take k es)" by (rule contiguous_take_drop(1) [OF D(4)])
  then have cont: "contiguous (base_sn g + int i) ?ws" using ik by (intro contiguous_take_drop(2)) auto
  have ends: "entryStart es k = length (logBytes (take i es)) + length (logBytes ?ws)"
  proof -
    have "take k es = take i es @ ?ws" using ik append_take_drop_id [of i "take k es"] by (simp add: min_def)
    from arg_cong [OF this, of "\<lambda>xs. length (logBytes xs)"] show ?thesis by (simp add: entryStart_def)
  qed
  have ne: "?ws \<noteq> []" using ik by simp
  from deserialize_entries_spec [OF c wf cont ms sz _ ne, of defaultMaxBufferSize] ends
  obtain r s' where r: "deserialize_entries ?f ms max_size defaultMaxBufferSize s = (Ret r, s')"
    "deserialized s ms max_size 0 [] ?ws r s'"
    using entryStart_le [of es k] D(7) by (auto simp: sliceOf_def entryStart_def defaultMaxBufferSize_def)
  have "drop i es = ?ws @ drop k es" using arg_cong [OF split, of "drop i"] ik by (simp add: min_def)
  moreover have "takeEntries ms max_size 0 (?ws @ drop k es) = takeEntries ms max_size 0 ?ws"
    using long
  proof
    assume "max_size \<le> entryStart es k - entryStart es i"
    then have "max_size \<le> 0 + length (logBytes ?ws)" using ends by (simp add: entryStart_def)
    then show ?thesis using sz by (intro takeEntries_long)
  qed simp
  ultimately have "tk = takeEntries ms max_size 0 ?ws" using tk by simp
  then show ?thesis using r q by (auto simp: deserialized_def Let_def)
qed

text \<open>The hint a fetch hands out for the entry after the last one.\<close>

definition nextHint :: "contents \<Rightarrow> LogSegment \<Rightarrow> Entry list \<Rightarrow> nat \<Rightarrow> FetchHint" where
  "nextHint gs g es j =
    (let sn = base_sn g + int j in
     if base_sn g \<noteq> base_sn (fst (last gs)) \<and> entryStart es j = length (logBytes es)
     then \<lparr>fh_sn = sn, fh_segment_base_sn = sn, fh_file_position = 0\<rparr>
     else \<lparr>fh_sn = sn, fh_segment_base_sn = base_sn g, fh_file_position = entryStart es j\<rparr>)"

lemma doFetch_entry:
  assumes rel: "log_rel l s gs idx" and q: "outcomes s = []" and g: "(g, es) \<in> set gs" and i: "i < length es"
    and sz: "0 < max_size" and pos: "p = None \<or> p = Some (entryStart es i)"
  shows "\<exists>l' k. doFetch g (base_sn g + int i) max_size (seg_size g) p (l, s) = (Ret (Some (sliceOf g es i k)), (l', s))
    \<and> i < k \<and> k \<le> length es \<and> (k = length es \<or> max_size \<le> entryStart es k - entryStart es i)
    \<and> log_rel l' s gs idx \<and> queried l l'"
  using pos
proof
  assume "p = None"
  obtain l1 n where t: "translateSequence g (base_sn g + int i) (l, s) =
      (Ret (Some \<lparr>lsp_sn = base_sn g + int i, lsp_file_position = entryStart es i, lsp_entry_size = n\<rparr>), (l1, s))"
    "n \<le> length (entryBytes (es ! i))" "log_rel l1 s gs idx" "queried l l1"
    using translate_entry [OF rel q g i] by blast
  from fetch_from_entry [OF t(3) q g i t(2) sz] obtain l2 k where
    "fetch_from g max_size (seg_size g) \<lparr>lsp_sn = base_sn g + int i, lsp_file_position = entryStart es i, lsp_entry_size = n\<rparr> (l1, s)
      = (Ret (Some (sliceOf g es i k)), (l2, s))" "i < k" "k \<le> length es"
    "k = length es \<or> max_size \<le> entryStart es k - entryStart es i" "log_rel l2 s gs idx" "queried l1 l2" by blast
  then show ?thesis
    using t(1) queried_trans [OF t(4)] \<open>p = None\<close> by (intro exI [of _ l2] exI [of _ k]) (simp add: doFetch_def)
next
  assume "p = Some (entryStart es i)"
  moreover have "1 \<le> length (entryBytes (es ! i))" by (simp add: entryBytes_eq)
  ultimately show ?thesis using fetch_from_entry [OF rel q g i _ sz, of 1] by (simp add: doFetch_def)
qed

lemma takeEntries_at:
  assumes h: "holds s g es" and i: "i < length es" and ms: "base_sn g + int i < ms" and tk: "tk = takeEntries ms m 0 (drop i es)"
  shows "tk \<noteq> []" "tk = take (length tk) (drop i es)" "i + length tk \<le> length es"
    "e_sn (hd tk) = base_sn g + int i" "e_sn (last tk) + 1 = base_sn g + int (i + length tk)"
    "entryStart es i + length (logBytes tk) = entryStart es (i + length tk)"
proof -
  note D = holdsD [OF h]
  have c: "contiguous (base_sn g + int i) (drop i es)" using contiguous_take_drop(2) [OF D(4)] i by simp
  have e: "drop i es = es ! i # drop (Suc i) es" using i by (rule Cons_nth_drop_Suc [symmetric])
  have "e_sn (es ! i) < ms" using contiguous_nth [OF D(4) i] ms by simp
  then obtain ks where ks: "tk = es ! i # ks" using takeEntries_first tk e by metis
  then show ne: "tk \<noteq> []" by simp
  show "e_sn (hd tk) = base_sn g + int i" using ks contiguous_nth [OF D(4) i] by simp
  obtain k where "tk = take k (drop i es)" using takeEntries_prefix tk by metis
  then show pre: "tk = take (length tk) (drop i es)" by (simp add: min_def)
  from arg_cong [OF this, of length] show "i + length tk \<le> length es" using i by simp
  show "e_sn (last tk) + 1 = base_sn g + int (i + length tk)"
    using contiguous_last [OF _ ne] contiguous_take_drop(1) [OF c, of "length tk"] pre by fastforce
  show "entryStart es i + length (logBytes tk) = entryStart es (i + length tk)"
    using pre by (simp add: entryStart_def take_add)
qed

lemma active_is_last: "log_rel l s gs idx \<Longrightarrow> segment_base_sn (next_sn_meta l) = Some (base_sn (fst (last gs)))"
  by (auto simp: log_rel_def endMeta_def split: prod.splits)

lemma loglet_fetch_entry:
  assumes rel: "log_rel l s gs idx" and q: "outcomes s = []" and g: "(g, es) \<in> set gs" and i: "i < length es"
    and sz: "0 < max_size" and ms: "base_sn g + int i < entry_sn meta"
    and meta: "segment_base_sn meta = Some (base_sn g) \<longrightarrow> file_position meta \<in> {None, Some (seg_size g)}"
    and hint: "validateFetchHint g (base_sn g + int i) hint \<in> {None, Some (entryStart es i)}"
    and tk: "tk = takeEntries (entry_sn meta) max_size 0 (drop i es)"
  shows "\<exists>l'. loglet_fetch (base_sn g + int i) max_size meta hint (l, s) =
      (Ret (okR (emptyFetchResult\<lparr>fetch_entries := map storedEntry tk,
         fetched_log_sn_metadata := \<lparr>entry_sn = base_sn g + int i, segment_base_sn = Some (base_sn g),
           file_position = Some (entryStart es i)\<rparr>,
         fetch_hint := nextHint gs g es (i + length tk)\<rparr>)), (l', s))
    \<and> tk \<noteq> [] \<and> log_rel l' s gs idx \<and> queried l l'"
proof -
  let ?sn = "base_sn g + int i" and ?ms = "entry_sn meta"
  have hg: "holds s g es" using rel g by (fastforce simp: log_rel_def)
  note D = holdsD [OF hg]
  have floor: "floorSegment ?sn (segments l) = Some g" by (rule floor_entry [OF rel g i])
  define p where "p = (if ?sn = base_sn g then Some 0 else validateFetchHint g ?sn hint)"
  have "p = None \<or> p = Some (entryStart es i)" using hint i by (auto simp: p_def)
  from doFetch_entry [OF rel q g i sz this] obtain l1 k where
    f: "doFetch g ?sn max_size (seg_size g) p (l, s) = (Ret (Some (sliceOf g es i k)), (l1, s))"
    "i < k" "k \<le> length es" "k = length es \<or> max_size \<le> entryStart es k - entryStart es i"
    "log_rel l1 s gs idx" "queried l l1" by blast
  from deserialize_slice [OF hg q f(2,3) ms sz f(4) tk] obtain r where
    r: "deserialize_entries (sliceOf g es i k) ?ms max_size defaultMaxBufferSize s = (Ret r, s)" "\<not> hasError r"
    "result r = (length (logBytes tk), map storedEntry tk)" by blast
  note T = takeEntries_at [OF hg i ms tk]
  have fold_p: "(if i = 0 then Some 0 else validateFetchHint g ?sn hint) = p" by (simp add: p_def)
  have maxp: "(case segment_base_sn meta of None \<Rightarrow> seg_size g | Some b \<Rightarrow>
      (case file_position meta of None \<Rightarrow> seg_size g | Some p \<Rightarrow> if b = base_sn g then p else seg_size g)) = seg_size g"
    using meta by (auto split: option.splits)
  have "loglet_fetch ?sn max_size meta hint (l, s) =
      fetch_parsed ?sn g (segment_base_sn (next_sn_meta l)) hint (sliceOf g es i k) r (l1, s)"
    using f(1) r(1) by (simp add: loglet_fetch_def floor maxp fold_p nextLogSequenceMetadata_def Let_def)
  also have "\<dots> = (Ret (okR (emptyFetchResult\<lparr>fetch_entries := map storedEntry tk,
         fetched_log_sn_metadata := \<lparr>entry_sn = ?sn, segment_base_sn = Some (base_sn g),
           file_position = Some (entryStart es i)\<rparr>,
         fetch_hint := nextHint gs g es (i + length tk)\<rparr>)), (l1, s))"
    using r(2,3) T(1,4,5,6) D(2) active_is_last [OF rel] entryStart_le [of es "i + length tk"] D(7)
    by (auto simp: fetch_parsed_def fetched_def nextHint_def Let_def sliceOf_def hd_map last_map add64_def uint64_max_def)
  finally show ?thesis using f(5,6) T(1) by blast
qed

section \<open>The log as one sequence of entries\<close>

definition logEntries :: "contents \<Rightarrow> Entry list" where
  "logEntries gs = concat (map snd gs)"

definition logStart :: "contents \<Rightarrow> int" where
  "logStart gs = base_sn (fst (hd gs))"

lemma logEntries_simps [simp]: "logEntries [] = []" "logEntries (x # gs) = snd x @ logEntries gs"
  "logEntries (as @ bs) = logEntries as @ logEntries bs"
  by (simp_all add: logEntries_def)

lemma chained_Cons: "chained (x # gs) \<Longrightarrow> chained gs"
  by (cases x; cases gs) auto

lemma locate_entry:
  assumes "chained gs" "i < length (logEntries gs)"
  shows "\<exists>pre g es post j. gs = pre @ (g, es) # post \<and> j < length es \<and> logStart gs + int i = base_sn g + int j
    \<and> drop i (logEntries gs) = drop j es @ logEntries post"
  using assms
proof (induction gs arbitrary: i)
  case (Cons x gs)
  obtain g es where x: "x = (g, es)" by fastforce
  show ?case
  proof (cases "i < length es")
    case True
    then show ?thesis using x by (intro exI [of _ "[]"] exI [of _ g] exI [of _ es] exI [of _ gs] exI [of _ i]) (simp add: logStart_def)
  next
    case False
    with Cons.prems x have i: "i - length es < length (logEntries gs)" by simp
    then have ne: "gs \<noteq> []" by auto
    from Cons.IH [OF chained_Cons [OF Cons.prems(1)] i] obtain pre h fs post j where
      h: "gs = pre @ (h, fs) # post" "j < length fs" "logStart gs + int (i - length es) = base_sn h + int j"
      "drop (i - length es) (logEntries gs) = drop j fs @ logEntries post" by blast
    have "logStart gs = base_sn g + int (length es)"
      using Cons.prems(1) x ne by (cases gs) (auto simp: logStart_def)
    then show ?thesis using h False x
      by (intro exI [of _ "x # pre"] exI [of _ h] exI [of _ fs] exI [of _ post] exI [of _ j]) (simp add: logStart_def)
  qed
qed simp

lemma entry_position:
  assumes "chained (pre @ (g, es) # post)"
  shows "logStart (pre @ (g, es) # post) + int (length (logEntries pre)) = base_sn g"
  using assms
proof (induction pre)
  case (Cons x pre)
  have "chained (pre @ (g, es) # post)" using Cons.prems chained_Cons by simp
  from Cons.IH [OF this] show ?case using Cons.prems by (cases x; cases pre) (auto simp: logStart_def)
qed (simp add: logStart_def)

lemma end_of_log:
  assumes "log_rel l s gs idx"
  shows "nextLogSequence l = logStart gs + int (length (logEntries gs))"
proof -
  have gs: "gs \<noteq> []" "chained gs" "next_sn_meta l = endMeta (last gs)" using assms by (simp_all add: log_rel_def)
  obtain pre g es where e: "gs = pre @ [(g, es)]" using gs(1) by (cases gs rule: rev_cases) auto
  then show ?thesis using entry_position [of pre g es "[]"] gs(2,3) by (simp add: nextLogSequence_def endMeta_def)
qed

text \<open>A hint is good for a sequence when it is refused or names the start of its entry.\<close>

definition goodHint :: "contents \<Rightarrow> int \<Rightarrow> FetchHint option \<Rightarrow> bool" where
  "goodHint gs sn hint \<longleftrightarrow> (\<forall>(g, es) \<in> set gs. \<forall>i < length es. sn = base_sn g + int i \<longrightarrow>
     validateFetchHint g sn hint \<in> {None, Some (entryStart es i)})"

text \<open>The metadata of the first sequence that is not to be read.\<close>

definition goodEnd :: "contents \<Rightarrow> LogSequenceMetadata \<Rightarrow> bool" where
  "goodEnd gs meta \<longleftrightarrow> (\<forall>(g, es) \<in> set gs. segment_base_sn meta = Some (base_sn g) \<longrightarrow>
     file_position meta \<in> {None, Some (seg_size g)})"

lemma goodHintI:
  "(\<And>g es i. (g, es) \<in> set gs \<Longrightarrow> i < length es \<Longrightarrow> sn = base_sn g + int i \<Longrightarrow>
     validateFetchHint g sn hint \<in> {None, Some (entryStart es i)}) \<Longrightarrow> goodHint gs sn hint"
  by (fastforce simp: goodHint_def)

lemma goodHint_None [simp]: "goodHint gs sn None"
  by (simp add: goodHint_def validateFetchHint_def)

lemma same_entry:
  assumes "chained gs" "(g, es) \<in> set gs" "i < length es" "(h, fs) \<in> set gs" "k < length fs" "base_sn g + int i = base_sn h + int k"
  shows "g = h \<and> es = fs \<and> i = k"
proof -
  obtain as bs where gs: "gs = as @ (g, es) # bs" using split_list [OF assms(2)] by blast
  with assms(4) consider "(h, fs) \<in> set as" | "h = g \<and> fs = es" | "(h, fs) \<in> set bs" by auto
  then show ?thesis
  proof cases
    case 1
    then obtain cs ds where "as = cs @ (h, fs) # ds" using split_list by metis
    then show ?thesis using chained_after [of cs h fs "ds @ (g, es) # bs" g es] assms(1,5,6) gs by simp
  next
    case 3
    then show ?thesis using chained_after [of as g es bs h fs] assms(1,3,6) gs by simp
  qed (use assms(6) in simp)
qed

lemma goodHint_next:
  assumes rel: "log_rel l s gs idx" and g: "(g, es) \<in> set gs" and j: "0 < j" "j \<le> length es"
  shows "goodHint gs (base_sn g + int j) (Some (nextHint gs g es j))"
proof (rule goodHintI)
  fix h fs i
  assume h: "(h, fs) \<in> set gs" "i < length fs" "base_sn g + int j = base_sn h + int i"
  have ch: "chained gs" using rel by (simp add: log_rel_def)
  have ne: "0 < length es" "0 < length fs" using j h(2) by linarith+
  show "validateFetchHint h (base_sn g + int j) (Some (nextHint gs g es j)) \<in> {None, Some (entryStart fs i)}"
  proof (cases "base_sn h = base_sn g")
    case True
    then have "base_sn g + int 0 = base_sn h + int 0" by simp
    from same_entry [OF ch g ne(1) h(1) ne(2) this] True h(3) have "h = g" "fs = es" "i = j" by simp_all
    then show ?thesis by (simp add: validateFetchHint_def nextHint_def Let_def)
  next
    case False
    then show ?thesis using h(3) by (simp add: validateFetchHint_def nextHint_def Let_def)
  qed
qed

text \<open>One fetch on the whole log: \<open>n\<close> entries from the one asked for on, at least one of them.\<close>

lemma loglet_fetch_log:
  assumes rel: "log_rel l s gs idx" and q: "outcomes s = []" and i: "i < length (logEntries gs)"
    and sn: "sn = logStart gs + int i" and sz: "0 < max_size" and ms: "sn < entry_sn meta" and fin: "goodEnd gs meta"
    and hint: "goodHint gs sn hint"
  shows "\<exists>l' r n. loglet_fetch sn max_size meta hint (l, s) = (Ret (okR r), (l', s))
    \<and> fetch_entries r = map storedEntry (take n (drop i (logEntries gs)))
    \<and> 0 < n \<and> i + n \<le> length (logEntries gs) \<and> sn + int n \<le> entry_sn meta
    \<and> length (logBytes (take (n - 1) (drop i (logEntries gs)))) < max_size
    \<and> fh_sn (fetch_hint r) = sn + int n \<and> goodHint gs (sn + int n) (Some (fetch_hint r))
    \<and> log_rel l' s gs idx \<and> queried l l'"
proof -
  have ch: "chained gs" using rel by (simp add: log_rel_def)
  obtain pre g es post j where at: "gs = pre @ (g, es) # post" "j < length es" "sn = base_sn g + int j"
    "drop i (logEntries gs) = drop j es @ logEntries post"
    using locate_entry [OF ch i] sn by auto
  then have g: "(g, es) \<in> set gs" by simp
  have hg: "holds s g es" using rel g by (fastforce simp: log_rel_def)
  define tk where "tk = takeEntries (entry_sn meta) max_size 0 (drop j es)"
  have ms': "base_sn g + int j < entry_sn meta" using ms at(3) by simp
  note T = takeEntries_at [OF hg at(2) ms' tk_def]
  have fin': "segment_base_sn meta = Some (base_sn g) \<longrightarrow> file_position meta \<in> {None, Some (seg_size g)}"
    using fin g by (fastforce simp: goodEnd_def)
  have hint': "validateFetchHint g (base_sn g + int j) hint \<in> {None, Some (entryStart es j)}"
    using hint g at(2,3) by (fastforce simp: goodHint_def)
  from loglet_fetch_entry [OF rel q g at(2) sz ms' fin' hint' tk_def] obtain l' where
    f: "loglet_fetch sn max_size meta hint (l, s) = (Ret (okR (emptyFetchResult\<lparr>fetch_entries := map storedEntry tk,
         fetched_log_sn_metadata := \<lparr>entry_sn = sn, segment_base_sn = Some (base_sn g), file_position = Some (entryStart es j)\<rparr>,
         fetch_hint := nextHint gs g es (j + length tk)\<rparr>)), (l', s))"
    "log_rel l' s gs idx" "queried l l'" using at(3) by auto
  have pre: "tk = take (length tk) (drop i (logEntries gs))" "length tk \<le> length (drop j es)" using T(2,3) at(2,4) by auto
  have "i + length tk \<le> length (logEntries gs)"
    using arg_cong [OF at(4), of length] pre(2) i by simp
  moreover have "goodHint gs (sn + int (length tk)) (Some (nextHint gs g es (j + length tk)))"
    using goodHint_next [OF rel g, of "j + length tk"] T(1,3) at(3) by (simp add: add.assoc)
  moreover have "fh_sn (nextHint gs g es (j + length tk)) = sn + int (length tk)"
    using at(3) by (simp add: nextHint_def Let_def)
  moreover have "sn + int (length tk) \<le> entry_sn meta"
    using takeEntries_below [of "last tk" "entry_sn meta" max_size 0 "drop j es"]
      T(1,5) at(3) unfolding tk_def [symmetric] by simp
  moreover have "take (length tk - 1) (drop i (logEntries gs)) = butlast tk"
    using arg_cong [OF pre(1), of butlast] \<open>i + length tk \<le> length (logEntries gs)\<close> by (simp add: butlast_take)
  then have "length (logBytes (take (length tk - 1) (drop i (logEntries gs)))) < max_size"
    using takeEntries_fits [of 0 max_size "entry_sn meta" "drop j es"] sz T(1) unfolding tk_def [symmetric] by simp
  ultimately show ?thesis
    using f T(1) pre(1) [symmetric]
    by (intro exI [of _ l'] exI [of _ "emptyFetchResult\<lparr>fetch_entries := map storedEntry tk,
         fetched_log_sn_metadata := \<lparr>entry_sn = sn, segment_base_sn = Some (base_sn g), file_position = Some (entryStart es j)\<rparr>,
         fetch_hint := nextHint gs g es (j + length tk)\<rparr>"] exI [of _ "length tk"] conjI) simp_all
qed

section \<open>Reading a loglet to its end\<close>

lemma bases_distinct:
  assumes "log_rel l s gs idx" "(g, es) \<in> set gs" "(h, fs) \<in> set gs" "base_sn g = base_sn h"
  shows "(g, es) = (h, fs)"
proof -
  have "map base_sn (map fst gs) = map fst (segments l)"
    using assms(1) by (auto simp: log_rel_def allSegments_def segs_wf_def)
  moreover have "distinct (map fst (segments l))" using assms(1) by (simp add: log_rel_def segs_wf_def strict_sorted_iff)
  ultimately have "distinct (map (\<lambda>x. base_sn (fst x)) gs)" by (simp add: comp_def)
  then have "inj_on (\<lambda>x. base_sn (fst x)) (set gs)" by (simp add: distinct_map)
  from inj_onD [OF this _ assms(2,3)] show ?thesis using assms(4) by simp
qed

lemma goodEnd_end:
  assumes "log_rel l s gs idx"
  shows "goodEnd gs (next_sn_meta l)"
proof -
  obtain g es where last: "last gs = (g, es)" by fastforce
  then have g: "(g, es) \<in> set gs" using assms last_in_set [of gs] by (simp add: log_rel_def)
  then have "holds s g es" using assms by (fastforce simp: log_rel_def)
  then have "length (logBytes es) = seg_size g" using holdsD(2) by simp
  then show ?thesis
    using bases_distinct [OF assms _ g] assms last by (fastforce simp: goodEnd_def log_rel_def endMeta_def)
qed

text \<open>\<^verbatim>\<open>Loglet::fetch\<close> up to the end of the log, as \<^verbatim>\<open>Log::fetch\<close> calls it without isolation.\<close>

definition loglet_reader :: "(Loglet \<times> filesys) fetcher" where
  "loglet_reader max_size sn hint = (\<lambda>(l, s). loglet_fetch sn max_size (nextLogSequenceMetadata l) hint (l, s))"

definition loglet_view :: "Loglet \<times> filesys \<Rightarrow> contents \<times> SequencePosition list \<Rightarrow> bool" where
  "loglet_view = (\<lambda>(l, s) (gs, idx). log_rel l s gs idx \<and> outcomes s = [])"

interpretation loglet: log_reader loglet_reader loglet_view "\<lambda>v. logStart (fst v)" "\<lambda>v. logEntries (fst v)" "\<lambda>v. goodHint (fst v)"
proof (unfold_locales, goal_cases)
  case (1 st v i max_size hint)
  obtain l s gs idx where st: "st = (l, s)" "v = (gs, idx)" by (cases st; cases v) blast
  have rel: "log_rel l s gs idx" "outcomes s = []" using 1(1) st by (simp_all add: loglet_view_def)
  have "logStart gs + int i < entry_sn (next_sn_meta l)"
    using end_of_log [OF rel(1)] 1(2) st by (simp add: nextLogSequence_def)
  moreover have "i < length (logEntries gs)" "goodHint gs (logStart gs + int i) hint" using 1(2,4) st by simp_all
  ultimately obtain l' r n where
    "loglet_fetch (logStart gs + int i) max_size (next_sn_meta l) hint (l, s) = (Ret (okR r), (l', s))" "0 < n"
    "fetch_entries r = map storedEntry (take n (drop i (logEntries gs)))" "i + n \<le> length (logEntries gs)"
    "fh_sn (fetch_hint r) = logStart gs + int i + int n" "goodHint gs (logStart gs + int i + int n) (Some (fetch_hint r))"
    "log_rel l' s gs idx" using loglet_fetch_log [OF rel _ refl 1(3) _ goodEnd_end [OF rel(1)]] by blast
  then show ?case
    using st rel(2) by (intro exI [of _ r] exI [of _ "(l', s)"] exI [of _ n])
      (simp add: loglet_reader_def loglet_view_def nextLogSequenceMetadata_def add.assoc)
qed

section \<open>A loglet in use\<close>

text \<open>A loglet with a sealed and an active segment, in which the properties below are tried out.\<close>

definition segmentOf :: "string \<Rightarrow> nat \<Rightarrow> int \<Rightarrow> Entry list \<Rightarrow> LogSegment" where
  "segmentOf d i b es = \<lparr>seg_id = i, base_sn = b, last_sync_offset = 0,
     seg_log = \<lparr>fle_file = \<lparr>filename = logFile d i b [], read_only = False, fd = logFile d i b []\<rparr>, start_pos = 0,
       end_pos = uint64_max, is_slice = False, fle_eof = False, fle_bytes = length (logBytes es)\<rparr>\<rparr>"

definition demoTail :: "Entry list" where "demoTail = [demoEntry 4 [7]]"

definition demoContents :: contents where
  "demoContents = [(segmentOf ''d'' 1 1 demoLog, demoLog), (segmentOf ''d'' 2 4 demoTail, demoTail)]"

definition demoIndex :: "SequencePosition list" where
  "demoIndex = [\<lparr>sp_sn = 1, sp_file_position = 2 ^ 36\<rparr>, \<lparr>sp_sn = 4, sp_file_position = 2 * 2 ^ 36\<rparr>]"

definition loadedMap :: "'e KeyValueOps \<Rightarrow> string \<Rightarrow> 'e list \<Rightarrow> 'e PersistentMonoMap" where
  "loadedMap K base cur = \<lparr>pm_max_size = 4096, pm_preallocate = False, pm_segs = [],
     pm_log_file = \<lparr>filename = base, read_only = False, fd = base\<rparr>, pm_log_size = length cur * kv_size K,
     pm_loaded = True, pm_cache = withOffsets (kv_size K) 0 cur\<rparr>"

definition demoLogFs :: filesys where
  "demoLogFs = \<lparr>files = [(logFile ''d'' 1 1 [], logBytes demoLog), (logFile ''d'' 2 4 [], logBytes demoTail),
       (''d/sn-pos.idx'', encodeKV SequencePosition_ops demoIndex), (''d/ts-sn.idx'', []), (''d/epoch-sn.idx'', [])],
     dirs = [''d''], mtimes = (\<lambda>_. 0), clock = 0, outcomes = []\<rparr>"

definition demoLoglet :: Loglet where
  "demoLoglet = \<lparr>log_dir = ''d'', parent_dir = [], log_config = defaultLogConfig,
     segments = map (\<lambda>x. (base_sn (fst x), fst x)) demoContents, next_sn_meta = endMeta (last demoContents),
     last_flushed_sn = 4, unflushed_bytes = 0, last_flushed_ms = 0,
     max_etimestamp_and_sn_so_far = \<lparr>ts_timestamp = 0, ts_sn = 0\<rparr>, bytes_since_last_index_entry = 0,
     event_ts_sn_index = loadedMap TimestampSequence_ops ''d/ts-sn.idx'' [],
     sn_pos_index = loadedMap SequencePosition_ops ''d/sn-pos.idx'' demoIndex, deletions = []\<rparr>"

lemma demoLog_small: "length (logBytes demoLog) < 1000"
  using demoTorn_facts(1) [of "length (entryBytes (last demoLog))"]
  by (simp add: demoTorn_def tornLog_def) (simp add: demoLog_def)

lemma demoTail_facts:
  "\<forall>e \<in> set demoTail. wfEntry e \<and> metaFits e" "contiguous 4 demoTail" "length (logBytes demoTail) < 1000"
proof -
  have "metaFits (demoEntry 4 [7])" by code_simp
  then show "\<forall>e \<in> set demoTail. wfEntry e \<and> metaFits e" by (auto simp: demoTail_def intro!: demoEntry_wf)
  show "contiguous 4 demoTail" by (simp add: demoTail_def demoEntry_def)
  show "length (logBytes demoTail) < 1000"
    using length_entryBytes_le [of "demoEntry 4 [7]"] by (simp add: demoTail_def) (simp add: demoEntry_def)
qed

lemma segmentOf_sel [simp]: "seg_id (segmentOf d i b es) = i" "base_sn (segmentOf d i b es) = b"
  "fd (fle_file (seg_log (segmentOf d i b es))) = logFile d i b []"
  by (simp_all add: segmentOf_def)

lemma demoFiles:
  "content demoLogFs (logFile ''d'' 1 1 []) = Some (logBytes demoLog)"
  "content demoLogFs (logFile ''d'' 2 4 []) = Some (logBytes demoTail)"
  "content demoLogFs ''d/sn-pos.idx'' = Some (encodeKV SequencePosition_ops demoIndex)"
  "content demoLogFs ''d/ts-sn.idx'' = Some []"
proof -
  have n: "logFile ''d'' 1 1 [] = ''d/00000001-00000000000000000001.log''"
    "logFile ''d'' 2 4 [] = ''d/00000002-00000000000000000004.log''" by code_simp+
  show "content demoLogFs (logFile ''d'' 1 1 []) = Some (logBytes demoLog)"
    "content demoLogFs (logFile ''d'' 2 4 []) = Some (logBytes demoTail)"
    "content demoLogFs ''d/sn-pos.idx'' = Some (encodeKV SequencePosition_ops demoIndex)"
    "content demoLogFs ''d/ts-sn.idx'' = Some []"
    by (simp_all add: demoLogFs_def content_def n del: One_nat_def)
qed

lemma holds_segmentOf:
  assumes "content s (logFile d i b []) = Some (logBytes es)" "contiguous b es" "\<forall>e \<in> set es. wfEntry e \<and> metaFits e"
    and "i < 2 ^ 28" "length (logBytes es) < 1000"
  shows "holds s (segmentOf d i b es) es"
  using assms by (simp add: holds_def segOf_def entriesOf_def segmentOf_def)

lemma map_rel_loadedMap:
  assumes "content s base = Some (encodeKV K cur)" "keys_ascend (kv_key K) cur" "\<forall>e \<in> set cur. valid e"
  shows "map_rel K valid base (loadedMap K base cur) s [] cur"
  using assms by (simp add: map_rel_def map_wf_def loadedMap_def)

lemma demo_log_rel: "log_rel demoLoglet demoLogFs demoContents demoIndex" "outcomes demoLogFs = []"
proof -
  have h: "\<forall>(g, es) \<in> set demoContents. holds demoLogFs g es"
    using holds_segmentOf [OF demoFiles(1) demoLog_facts(2) _ _ demoLog_small]
      holds_segmentOf [OF demoFiles(2) demoTail_facts(2,1) _ demoTail_facts(3)] demoLog_facts(1) demoLog_metaFits
    by (simp add: demoContents_def)
  have ix: "map_rel SequencePosition_ops valid_SequencePosition ''d/sn-pos.idx''
      (loadedMap SequencePosition_ops ''d/sn-pos.idx'' demoIndex) demoLogFs [] demoIndex"
    by (rule map_rel_loadedMap [OF demoFiles(3)]) (simp_all add: demoIndex_def keys_ascend_def valid_SequencePosition_def int64_def)
  have pt: "\<forall>r \<in> set demoIndex. pointsTo demoContents r"
    by (auto simp: demoIndex_def demoContents_def pointsTo_def packed_def demoLog_def demoTail_def)
  have "index_rel (sn_pos_index demoLoglet) demoLogFs demoContents demoIndex"
    unfolding index_rel_def
  proof (intro conjI exI)
    show "map_rel SequencePosition_ops valid_SequencePosition ''d/sn-pos.idx'' (sn_pos_index demoLoglet) demoLogFs [] demoIndex"
      using ix by (simp add: demoLoglet_def)
  qed (use pt in \<open>simp_all add: demoIndex_def keys_ascend_def\<close>)
  then show "log_rel demoLoglet demoLogFs demoContents demoIndex"
    using h by (simp add: log_rel_def demoLoglet_def demoContents_def allSegments_def segs_wf_def demoLog_def)
  show "outcomes demoLogFs = []" by (simp add: demoLogFs_def)
qed

lemma demo_entries: "logEntries demoContents = demoLog @ demoTail" "logStart demoContents = 1"
  "length demoLog = 3" "length demoTail = 1"
  by (simp_all add: demoContents_def logStart_def demoLog_def demoTail_def)

section \<open>Properties\<close>

text \<open>
  Property C7: \<^verbatim>\<open>Loglet::fetch\<close> on a loglet in a consistent state: for every sequence it holds, every
  size limit and every hint that is stale or right, it returns a non-empty run of the log that starts
  at the sequence asked for, stops below the bound, exceeds the size limit by at most its last entry,
  and carries a hint that is right for the next fetch, across the end of a sealed segment too.
\<close>

theorem loglet_fetch_serves_log:
  assumes "log_rel l s gs idx" "outcomes s = []" "i < length (logEntries gs)" "0 < max_size"
    and "logStart gs + int i < entry_sn meta" "goodEnd gs meta" "goodHint gs (logStart gs + int i) hint"
  shows "\<exists>l' r n. loglet_fetch (logStart gs + int i) max_size meta hint (l, s) = (Ret (okR r), (l', s))
    \<and> fetch_entries r = map storedEntry (take n (drop i (logEntries gs)))
    \<and> 0 < n \<and> i + n \<le> length (logEntries gs) \<and> logStart gs + int (i + n) \<le> entry_sn meta
    \<and> length (logBytes (take (n - 1) (drop i (logEntries gs)))) < max_size
    \<and> fh_sn (fetch_hint r) = logStart gs + int (i + n)
    \<and> goodHint gs (logStart gs + int (i + n)) (Some (fetch_hint r)) \<and> log_rel l' s gs idx"
  using loglet_fetch_log [OF assms(1-3) refl assms(4-7)] by (auto simp: add.assoc)

theorem loglet_fetch_serves_log_witness:
  "\<exists>l' r n. loglet_fetch 2 1 (next_sn_meta demoLoglet) None (demoLoglet, demoLogFs) = (Ret (okR r), (l', demoLogFs))
    \<and> 0 < n \<and> fetch_entries r = map storedEntry (take n [demoEntry 2 [], demoEntry 3 [8, 9], demoEntry 4 [7]])"
proof -
  have "entry_sn (next_sn_meta demoLoglet) = 5" by (simp add: demoLoglet_def endMeta_def demoContents_def demoTail_def)
  moreover have "drop 1 (demoLog @ demoTail) = [demoEntry 2 [], demoEntry 3 [8, 9], demoEntry 4 [7]]"
    by (simp add: demoLog_def demoTail_def)
  ultimately show ?thesis
    using loglet_fetch_serves_log [OF demo_log_rel, of 1 1 "next_sn_meta demoLoglet" None] goodEnd_end [OF demo_log_rel(1)]
    by (auto simp: demo_entries simp del: drop_append One_nat_def)
qed

text \<open>
  Property C8: a reader that calls \<^verbatim>\<open>Loglet::fetch\<close> again and again, with whatever positive size limit
  and each time with the hint of the call before, reaches the end of the log after at most as many
  calls as there are entries, and has then got every entry once and in order.
\<close>

theorem loglet_reader_reaches_end:
  assumes "log_rel l s gs idx" "outcomes s = []" "0 < max_size" "i \<le> length (logEntries gs)"
    and "length (logEntries gs) - i \<le> fuel"
  shows "\<exists>st. drain loglet_reader max_size (Suc fuel) (logStart gs + int i) (nextLogSequence l) None (l, s)
    = (Ret (map storedEntry (drop i (logEntries gs))), st)"
  using loglet.drain_all [of "(l, s)" "(gs, idx)" max_size i None fuel] assms end_of_log [OF assms(1)]
  by (auto simp: loglet_view_def loglet.fin_def)

theorem loglet_reader_reaches_end_witness:
  "\<exists>st. drain loglet_reader 1 5 1 5 None (demoLoglet, demoLogFs) = (Ret (map storedEntry (demoLog @ demoTail)), st)"
proof -
  have "nextLogSequence demoLoglet = 5" using end_of_log [OF demo_log_rel(1)] by (simp add: demo_entries)
  moreover have "length (logEntries demoContents) - 0 \<le> 4" by (simp add: demo_entries)
  ultimately show ?thesis
    using loglet_reader_reaches_end [OF demo_log_rel, of 1 0 4] unfolding demo_entries(1,2) by simp
qed

end
