(* ===== verification/Nlog_Loglet_Epochs.thy ===== *)
theory Nlog_Loglet_Epochs
  imports Nlog_Loglet_Fetch
begin

text \<open>
  \<^verbatim>\<open>Loglet::epochSequences\<close> of \<^verbatim>\<open>src/src/Cluster/LocalLog/Log/Loglet.cpp\<close>, which \<^verbatim>\<open>Log::committedSequences\<close>
  falls back to when the entry cache does not hold a range. Its callback asks the walk to stop while
  there is more to collect, and the loop starts over at the beginning of the segment: on a segment with
  two entries it collects the first one again and again.
\<close>

lemma loglet_size_sum:
  assumes "sum_list (map seg_size (allSegments (segments l))) < 2 ^ 64"
  shows "loglet_size l = sum_list (map seg_size (allSegments (segments l)))"
proof -
  have "c + sum_list (map seg_size (map snd xs)) < 2 ^ 64 \<Longrightarrow>
      snd (segs_apply (\<lambda>c g. (False, g, add64 c (seg_size g))) c xs) = c + sum_list (map seg_size (map snd xs))" for c xs
  proof (induction xs arbitrary: c)
    case (Cons x xs)
    from Cons.prems have "add64 c (seg_size (snd x)) = c + seg_size (snd x)" by (simp add: add64_def)
    then show ?case using Cons.IH [of "c + seg_size (snd x)"] Cons.prems by (cases x) (simp add: case_prod_beta)
  qed simp
  from this [of 0 "segments l"] show ?thesis using assms by (simp add: loglet_size_def allSegments_def)
qed

lemma loglet_size_bytes:
  assumes rel: "log_rel l s gs idx" and small: "length (logBytes (logEntries gs)) < 2 ^ 64"
  shows "loglet_size l = length (logBytes (logEntries gs))"
proof -
  have "\<forall>(g, es) \<in> set gs. holds s g es" using rel by (simp add: log_rel_def)
  then have "sum_list (map seg_size (map fst gs)) = length (logBytes (logEntries gs))"
    by (induction gs) (auto dest: holdsD(2))
  then show ?thesis using loglet_size_sum [of l] rel small unfolding log_rel_def by metis
qed

lemma loglet_size_ge:
  assumes rel: "log_rel l s gs idx" and small: "length (logBytes (logEntries gs)) < 2 ^ 64" and g: "(g, es) \<in> set gs"
  shows "seg_size g \<le> loglet_size l"
proof -
  have "holds s g es" using rel g by (fastforce simp: log_rel_def)
  then have "seg_size g = length (logBytes es)" by (rule holdsD(2))
  moreover obtain as bs where "gs = as @ (g, es) # bs" using split_list [OF g] by blast
  ultimately show ?thesis by (simp add: loglet_size_bytes [OF rel small])
qed

text \<open>One round of the loop takes one entry.\<close>

lemma epoch_round:
  assumes h: "holds s g es" and q: "outcomes s = []" and i: "i < length es" and more: "base_sn g + int i + 1 < high_sn"
    and sz: "seg_size g \<le> sz" "sz < 2 ^ 64"
  shows "\<exists>f. seg_fetch g (entryStart es i) (sub64 sz (entryStart es i)) s = (Ret f, s)
    \<and> applyLogEntryMetadata f (epoch_callback high_sn) None acc s = (Ret (), acc @ [mkEpochSequence (base_sn g + int i)], s)"
proof -
  note D = holdsD [OF h]
  let ?p = "entryStart es i" and ?e = "es ! i"
  have nxt: "?p + length (entryBytes ?e) \<le> length (logBytes es)"
    using entryStart_Suc [OF i] entryStart_le [of es "Suc i"] by simp
  then have n: "sub64 sz ?p = sz - ?p" using sz D(2) by (simp add: sub64_def)
  have "seg_fetch g ?p (sz - ?p) s = (Ret \<lparr>fle_file = fle_file (seg_log g), start_pos = ?p, end_pos = length (logBytes es),
      is_slice = True, fle_eof = False, fle_bytes = length (logBytes es)\<rparr>, s)"
    using slice_quiet [OF q D(8) [unfolded segOf_def], of ?p "sz - ?p"] sz D(2) nxt by (auto simp: seg_fetch_def)
  moreover have "content s (fd (fle_file (seg_log g))) = Some (logBytes (take i es) @ entryBytes ?e @ logBytes (drop (Suc i) es))"
    using D(1) arg_cong [OF id_take_nth_drop [OF i], of logBytes] by simp
  then have "apply_loop (fle_file (seg_log g)) (length (logBytes es)) (epoch_callback high_sn) ?p acc s
      = (Ret (), acc @ [mkEpochSequence (base_sn g + int i)], s)"
    using apply_loop_walk [OF q, of _ "logBytes (take i es)" "[?e]" "logBytes (drop (Suc i) es)" ?p "length (logBytes es)"
        "epoch_callback high_sn" acc] D(5) i nxt more contiguous_nth [OF D(4) i]
    by (simp add: epoch_callback_def entryStart_def)
  ultimately show ?thesis using n by (simp add: applyLogEntryMetadata_def)
qed

text \<open>From the start of a segment with a second entry the loop never returns.\<close>

lemma epoch_loop_diverges:
  assumes rel: "log_rel l s gs idx" and q: "outcomes s = []" and small: "length (logBytes (logEntries gs)) < 2 ^ 64"
    and g: "(g, es) \<in> set gs" and two: "1 < length es" and high: "base_sn g + 1 < high_sn"
  shows "epoch_loop l high_sn (Some g) 0 acc s = None"
proof -
  have hg: "holds s g es" using rel g by (fastforce simp: log_rel_def)
  have fl: "floorSegment (base_sn g + 1) (segments l) = Some g" using floor_entry [OF rel g two] by simp
  note size = loglet_size_bytes [OF rel small] loglet_size_ge [OF rel small g]
  have length_pos: "0 < length es" using two by linarith
  have "\<not> (ll = l \<and> hh = high_sn \<and> seg = Some g \<and> p = 0 \<and> ss = s)"
    if "epoch_loop ll hh seg p acc ss = Some y" for ll hh seg p acc ss y
  proof (rule epoch_loop.raw_induct [where P = "\<lambda>ll hh seg p acc ss y. \<not> (ll = l \<and> hh = high_sn \<and> seg = Some g \<and> p = 0 \<and> ss = s)",
      OF _ that], goal_cases)
    case (1 f ll hh seg p acc ss y)
    show ?case
    proof
      assume a: "ll = l \<and> hh = high_sn \<and> seg = Some g \<and> p = 0 \<and> ss = s"
      from epoch_round [OF hg q _ _ size(2) small [folded size(1)], of 0 high_sn acc] length_pos high
      obtain x where x: "seg_fetch g 0 (sub64 (loglet_size l) 0) s = (Ret x, s)"
        "applyLogEntryMetadata x (epoch_callback high_sn) None acc s = (Ret (), acc @ [mkEpochSequence (base_sn g)], s)"
        by auto
      then show False using 1(1) [of l high_sn "Some g" 0 "acc @ [mkEpochSequence (base_sn g)]" s y] 1(2) a high fl
        by (simp add: mkEpochSequence_def)
    qed
  qed
  then show ?thesis by (metis not_Some_eq)
qed

text \<open>
  Property C11: \<^verbatim>\<open>epochSequences\<close> never returns when the range asked for goes beyond the first sequence
  and that one is not the last of its segment; the list of collected sequences grows without bound.
  \<^verbatim>\<open>Log::committedSequences\<close> asks for ranges of at least two sequences only.
\<close>

theorem epochSequences_never_returns:
  assumes "log_rel l s gs idx" "outcomes s = []" "length (logBytes (logEntries gs)) < 2 ^ 64"
    and "(g, es) \<in> set gs" "i + 1 < length es" "base_sn g + int i + 1 < high_sn"
  shows "\<exists>l'. epochSequences (base_sn g + int i) high_sn (l, s) = (Diverge, (l', s))"
proof -
  let ?low = "base_sn g + int i"
  have g: "holds s g es" "i < length es" "1 < length es" "base_sn g + 1 < high_sn" using assms by (fastforce simp: log_rel_def)+
  note size = loglet_size_bytes [OF assms(1,3)] loglet_size_ge [OF assms(1,3,4)]
  obtain x where x: "seg_fetch g (entryStart es i) (sub64 (loglet_size l) (entryStart es i)) s = (Ret x, s)"
    "applyLogEntryMetadata x (epoch_callback high_sn) None [] s = (Ret (), [mkEpochSequence ?low], s)"
    using epoch_round [OF g(1) assms(2) g(2) assms(6) size(2) assms(3) [folded size(1)], of "[]"] by auto
  have fl: "floorSegment (?low + 1) (segments l) = Some g" "floorSegment ?low (segments l) = Some g"
    using floor_entry [OF assms(1,4,5)] floor_entry [OF assms(1,4) g(2)] by (simp_all add: algebra_simps)
  have loop: "epoch_loop l high_sn (Some g) (entryStart es i) [] s = None"
    using x assms(6) fl(1) epoch_loop_diverges [OF assms(1-4) g(3,4)]
    by (subst epoch_loop.simps) (simp add: mkEpochSequence_def)
  obtain l1 n where t: "translateSequence g ?low (l, s) =
      (Ret (Some \<lparr>lsp_sn = ?low, lsp_file_position = entryStart es i, lsp_entry_size = n\<rparr>), (l1, s))"
    using translate_entry [OF assms(1,2,4) g(2)] by blast
  show ?thesis
    using loop t fl(2) by (cases "i = 0") (simp_all add: epochSequences_def)
qed

theorem epochSequences_never_returns_witness:
  "\<exists>l'. epochSequences 1 4 (demoLoglet, demoLogFs) = (Diverge, (l', demoLogFs))"
proof -
  have "length (logBytes (logEntries demoContents)) < 2 ^ 64"
    using demoLog_small demoTail_facts(3) by (simp add: demo_entries)
  moreover have "(segmentOf ''d'' 1 1 demoLog, demoLog) \<in> set demoContents" by (simp add: demoContents_def)
  ultimately show ?thesis
    using epochSequences_never_returns [OF demo_log_rel, of "segmentOf ''d'' 1 1 demoLog" demoLog 0 4] by (simp add: demo_entries)
qed

end
