(* ===== verification/Nlog_LogEntryCache.thy ===== *)
theory Nlog_LogEntryCache
  imports Nlog_FileLogEntries Nlog_KeyValue
begin

text \<open>
  \<^verbatim>\<open>LogEntryCache\<close> of \<^verbatim>\<open>src/src/Cluster/LocalLog/Log/LogEntryCache.{h,cpp}\<close>: the tail of the log in
  memory, a deque of entries with their positions. Every operation is modelled. The invariant is that
  the entries have consecutive sequences, that there are at most \<^verbatim>\<open>max_cached_entries_per_shard\<close> of
  them, that each carries its own sequence and a hint for the next one, and that \<^verbatim>\<open>cached_bytes\<close> is
  the sum of their sizes. Counters are \<^verbatim>\<open>uint64_t\<close> and wrap around.
\<close>

section \<open>Model\<close>

record EntryWithSequenceMeta =
  cm_meta :: LogSequenceMetadata
  cm_hint :: FetchHint
  cm_entry :: Entry

record LogEntryCache =
  lc_max :: nat
  cached_bytes :: nat
  lc_entries :: "EntryWithSequenceMeta list"

definition newLogEntryCache :: "nat \<Rightarrow> LogEntryCache" where
  "newLogEntryCache n = \<lparr>lc_max = n, cached_bytes = 0, lc_entries = []\<rparr>"

definition cache_clear :: "LogEntryCache \<Rightarrow> LogEntryCache" where
  "cache_clear c = c\<lparr>lc_entries := [], cached_bytes := 0\<rparr>"

text \<open>\<^verbatim>\<open>emplace_back\<close> and, above the limit, \<^verbatim>\<open>pop_front\<close>, with the byte count.\<close>

definition cache_push :: "EntryWithSequenceMeta \<Rightarrow> nat \<Rightarrow> LogEntryCache \<Rightarrow> LogEntryCache" where
  "cache_push x sz c =
    (let es = lc_entries c @ [x]; bytes = add64 (cached_bytes c) sz
     in if lc_max c < length es
        then c\<lparr>lc_entries := tl es, cached_bytes := sub64 bytes (approximateSerializedSize (cm_entry (hd es)))\<rparr>
        else c\<lparr>lc_entries := es, cached_bytes := bytes\<rparr>)"

text \<open>The loop of the batch \<^verbatim>\<open>append\<close>; \<open>bytes\<close> is the offset from \<^verbatim>\<open>start_file_position\<close>.\<close>

fun cache_append_loop :: "int \<Rightarrow> nat \<Rightarrow> nat \<Rightarrow> (Entry \<times> bytes) list \<Rightarrow> LogEntryCache \<Rightarrow> LogEntryCache" where
  "cache_append_loop base start bytes [] c = c"
| "cache_append_loop base start bytes ((e, d) # xs) c =
    cache_append_loop base start (bytes + length d) xs
      (cache_push
        \<lparr>cm_meta = \<lparr>entry_sn = e_sn e, segment_base_sn = Some base, file_position = Some (start + bytes)\<rparr>,
         cm_hint = \<lparr>fh_sn = e_sn e + 1, fh_segment_base_sn = base, fh_file_position = start + bytes + length d\<rparr>,
         cm_entry = e\<rparr> (approximateSerializedSize e) c)"

text \<open>\<^verbatim>\<open>batch_data[i]\<close> is the serialized form of \<^verbatim>\<open>batch[i]\<close>: the two are passed as one list of pairs.\<close>

definition cache_append_batch :: "(Entry \<times> bytes) list \<Rightarrow> int \<Rightarrow> nat \<Rightarrow> LogEntryCache \<Rightarrow> LogEntryCache" where
  "cache_append_batch batch base start c =
    (if lc_max c = 0 then c
     else cache_append_loop base start 0 batch (if lc_max c \<le> length batch then cache_clear c else c))"

text \<open>\<open>shared\<close>: \<^verbatim>\<open>entry.use_count() != 1\<close>, in which case a clone is cached.\<close>

definition cache_append :: "bool \<Rightarrow> Entry \<Rightarrow> LogSequenceMetadata \<Rightarrow> FetchHint \<Rightarrow> LogEntryCache \<Rightarrow> LogEntryCache" where
  "cache_append shared e m h c =
     cache_push \<lparr>cm_meta = m, cm_hint = h, cm_entry = (if shared then cloneEntry e else e)\<rparr> (approximateSerializedSize e) c"

text \<open>
  The copying loop of the two fetches from position \<open>i\<close> to position \<open>e\<close> of the deque. Running past
  the end of the deque has no meaning. The sum of the sizes is a \<^verbatim>\<open>size_t\<close>; what is in memory does not
  add up to \<open>2 ^ 64\<close> bytes, and the sum is not wrapped here.
\<close>

function cache_fetch_loop ::
  "EntryWithSequenceMeta list \<Rightarrow> nat \<Rightarrow> nat \<Rightarrow> nat \<Rightarrow> nat \<Rightarrow> Entry list \<Rightarrow> (nat \<times> Entry list) exec" where
  "cache_fetch_loop es i e max_size total_size acc =
    (if i \<noteq> e \<and> total_size < max_size then
       if i < length es then
         cache_fetch_loop es (i + 1) e max_size (total_size + approximateSerializedSize (cm_entry (es ! i)))
           (acc @ [cm_entry (es ! i)])
       else Undef
     else Ret (i, acc))"
  by pat_completeness auto

termination cache_fetch_loop
  by (relation "measure (\<lambda>(es, i, _). length es - i)") auto

declare cache_fetch_loop.simps [simp del]

text \<open>
  The common end of the fetches: reserve space, copy, then take the hint in front of the final
  position. \<^verbatim>\<open>reserve\<close> converts the difference of the sequences to \<^verbatim>\<open>size_t\<close> and throws \<^verbatim>\<open>std::length_error\<close>
  for a negative one. Positions outside the deque have no meaning.
\<close>

definition cache_fetch_range ::
  "EntryWithSequenceMeta list \<Rightarrow> int \<Rightarrow> int \<Rightarrow> nat \<Rightarrow> (FetchResult \<times> bool) exec" where
  "cache_fetch_range es index_start index_end max_size =
    (if index_end < index_start then Throw STD_EXCEPTION
     else if index_start < 0 \<or> int (length es) < index_start \<or> int (length es) < index_end then Undef
     else case cache_fetch_loop es (nat index_start) (nat index_end) max_size 0 [] of
       Ret (it, batch) \<Rightarrow>
         if it = 0 \<or> length es \<le> nat index_start then Undef
         else Ret (emptyFetchResult\<lparr>fetch_hint := cm_hint (es ! (it - 1)),
                     fetched_log_sn_metadata := cm_meta (es ! nat index_start), fetch_entries := batch\<rparr>, False)
     | Throw x \<Rightarrow> Throw x | Undef \<Rightarrow> Undef | Diverge \<Rightarrow> Diverge)"

definition fetchForMemoryLog ::
  "EntryWithSequenceMeta list \<Rightarrow> int \<Rightarrow> int \<Rightarrow> nat \<Rightarrow> (FetchResult \<times> bool) exec" where
  "fetchForMemoryLog es request_start_sn request_end_sn max_size =
    (let first_sn = e_sn (cm_entry (hd es)); last_sn = e_sn (cm_entry (last es)) in
     if request_start_sn = last_sn + 1 then
       Ret (emptyFetchResult\<lparr>fetch_hint := cm_hint (last es)\<rparr>, False)
     else if last_sn + 1 < request_start_sn then
       Ret (emptyFetchResult\<lparr>fetch_hint := emptyFetchHint\<lparr>fh_sn := request_start_sn\<rparr>\<rparr>, False)
     else
       let request_start_sn' = (if request_start_sn < first_sn then first_sn else request_start_sn);
           request_end_sn' = min request_end_sn (last_sn + 1)
       in cache_fetch_range es (request_start_sn' - first_sn) (request_end_sn' - first_sn) max_size)"

definition cache_fetch ::
  "LogEntryCache \<Rightarrow> int \<Rightarrow> int \<Rightarrow> nat \<Rightarrow> bool \<Rightarrow> (FetchResult \<times> bool) exec" where
  "cache_fetch c request_start_sn request_end_sn max_size memory_log =
    (if lc_entries c = [] then Ret (emptyFetchResult, True)
     else if memory_log then fetchForMemoryLog (lc_entries c) request_start_sn request_end_sn max_size
     else
       let first_sn = e_sn (cm_entry (hd (lc_entries c))); last_sn = e_sn (cm_entry (last (lc_entries c))) in
       if last_sn < request_start_sn then Ret (emptyFetchResult, True)
       else if request_start_sn < first_sn then Ret (emptyFetchResult, True)
       else let request_end_sn' = min (last_sn + 1) request_end_sn
            in cache_fetch_range (lc_entries c) (request_start_sn - first_sn) (request_end_sn' - first_sn) max_size)"

definition cache_trim :: "int \<Rightarrow> LogEntryCache \<Rightarrow> FetchHint option \<times> LogEntryCache" where
  "cache_trim target_sn c =
    (if lc_entries c = [] then (None, c)
     else if e_sn (cm_entry (last (lc_entries c))) < target_sn then (None, c)
     else
       let keep = takeWhile (\<lambda>x. \<not> target_sn \<le> e_sn (cm_entry x)) (lc_entries c);
           cut = drop (length keep) (lc_entries c);
           c' = c\<lparr>lc_entries := keep,
                  cached_bytes := fold (\<lambda>x n. sub64 n (approximateSerializedSize (cm_entry x))) cut (cached_bytes c)\<rparr>
       in (if keep = [] then None else Some (cm_hint (last keep)), c'))"

text \<open>\<^verbatim>\<open>epochSequences\<close> copies \<^verbatim>\<open>high_sn - low_sn\<close> items, which the test before it makes sure of.\<close>

definition cache_epochSequences :: "int \<Rightarrow> int \<Rightarrow> LogEntryCache \<Rightarrow> EpochSequence list" where
  "cache_epochSequences low_sn high_sn c =
    (let es = lc_entries c in
     if lc_max c = 0 \<or> es = [] then []
     else if low_sn < e_sn (cm_entry (hd es)) \<or> e_sn (cm_entry (last es)) + 1 < high_sn then []
     else map (\<lambda>x. mkEpochSequence (e_sn (cm_entry x)))
            (take (nat (high_sn - low_sn)) (drop (nat (low_sn - e_sn (cm_entry (hd es)))) es)))"

definition lastLogSequence :: "LogEntryCache \<Rightarrow> int option" where
  "lastLogSequence c = (if lc_entries c \<noteq> [] then Some (e_sn (cm_entry (last (lc_entries c)))) else None)"

section \<open>The invariant\<close>

definition cachedEntries :: "LogEntryCache \<Rightarrow> Entry list" where
  "cachedEntries c = map cm_entry (lc_entries c)"

definition entriesSize :: "Entry list \<Rightarrow> nat" where
  "entriesSize es = sum_list (map approximateSerializedSize es)"

definition itemOk :: "EntryWithSequenceMeta \<Rightarrow> bool" where
  "itemOk x \<longleftrightarrow> entry_sn (cm_meta x) = e_sn (cm_entry x) \<and> fh_sn (cm_hint x) = e_sn (cm_entry x) + 1
     \<and> approximateSerializedSize (cm_entry x) < 2 ^ 64"

text \<open>\<open>sn\<close> is the sequence of the first entry, or the next one to be cached.\<close>

definition cache_wf :: "int \<Rightarrow> LogEntryCache \<Rightarrow> bool" where
  "cache_wf sn c \<longleftrightarrow> contiguous sn (cachedEntries c) \<and> length (lc_entries c) \<le> lc_max c
     \<and> cached_bytes c = entriesSize (cachedEntries c) mod 2 ^ 64 \<and> (\<forall>x \<in> set (lc_entries c). itemOk x)"

lemma entriesSize_simps [simp]: "entriesSize [] = 0" "entriesSize (e # es) = approximateSerializedSize e + entriesSize es"
  "entriesSize (es @ fs) = entriesSize es + entriesSize fs"
  by (simp_all add: entriesSize_def)

lemma sub64_mod:
  assumes "b \<le> a" "b < 2 ^ 64"
  shows "sub64 (a mod 2 ^ 64) b = (a - b) mod 2 ^ 64"
proof -
  define m :: nat where "m = 2 ^ 64"
  have a: "a = a div m * m + a mod m" by simp
  show ?thesis
  proof (cases "b \<le> a mod m")
    case True
    then have "a - b = a div m * m + (a mod m - b)" using a by linarith
    moreover have "a mod m - b < m" using mod_less_divisor [of m a] by (simp add: m_def less_imp_diff_less)
    ultimately have "(a - b) mod m = a mod m - b" by (simp add: mod_less)
    then show ?thesis using True by (simp add: sub64_def m_def)
  next
    case False
    then have "a div m \<noteq> 0" using a assms(1) by (intro notI) simp
    then obtain q where "a div m = Suc q" by (cases "a div m") auto
    then have "a - b = q * m + (a mod m + m - b)" using a False assms(2) by (simp add: m_def)
    then have "(a - b) mod m = (a mod m + m - b) mod m" by simp
    then show ?thesis using False by (simp add: sub64_def m_def)
  qed
qed

lemma cache_wf_new: "cache_wf sn (newLogEntryCache n)"
  by (simp add: cache_wf_def newLogEntryCache_def cachedEntries_def)

lemma cache_wf_clear: "cache_wf sn (cache_clear c)"
  by (simp add: cache_wf_def cache_clear_def cachedEntries_def)

lemma cache_push_wf:
  assumes "cache_wf sn c" "itemOk x" "e_sn (cm_entry x) = sn + int (length (lc_entries c))"
    and "sz = approximateSerializedSize (cm_entry x)"
  shows "\<exists>sn'. cache_wf sn' (cache_push x sz c) \<and> sn \<le> sn'
    \<and> sn' + int (length (lc_entries (cache_push x sz c))) = e_sn (cm_entry x) + 1
    \<and> lc_max (cache_push x sz c) = lc_max c"
proof -
  let ?es = "lc_entries c @ [x]"
  have ok: "\<forall>y \<in> set ?es. itemOk y" using assms(1,2) by (simp add: cache_wf_def)
  have cont: "contiguous sn (map cm_entry ?es)" using assms(1,3) by (simp add: cache_wf_def cachedEntries_def)
  have b: "add64 (cached_bytes c) sz = entriesSize (map cm_entry ?es) mod 2 ^ 64"
    using assms(1,4) by (simp add: cache_wf_def cachedEntries_def add64_def mod_add_left_eq)
  show ?thesis
  proof (cases "lc_max c < length ?es")
    case True
    obtain y ys where y: "?es = y # ys" by (cases ?es) auto
    then have "approximateSerializedSize (cm_entry y) < 2 ^ 64" using ok by (auto simp: itemOk_def)
    then have "sub64 (add64 (cached_bytes c) sz) (approximateSerializedSize (cm_entry y)) = entriesSize (map cm_entry ys) mod 2 ^ 64"
      unfolding b y by (subst sub64_mod) simp_all
    moreover have len: "length ys = length (lc_entries c)" using arg_cong [OF y, of length] by simp
    moreover have "length (lc_entries c) \<le> lc_max c" using assms(1) by (simp add: cache_wf_def)
    ultimately have "cache_wf (sn + 1) (cache_push x sz c)"
      using True y cont ok by (simp add: cache_wf_def cache_push_def cachedEntries_def Let_def)
    then show ?thesis
      using True y assms(3) len by (intro exI [of _ "sn + 1"]) (simp add: cache_push_def Let_def)
  next
    case False
    then show ?thesis
      using cont ok b assms(3) by (intro exI [of _ sn]) (simp add: cache_wf_def cache_push_def cachedEntries_def Let_def)
  qed
qed

section \<open>Fetching\<close>

text \<open>Entries are taken as long as the limit is not reached before them.\<close>

fun takeSized :: "nat \<Rightarrow> nat \<Rightarrow> Entry list \<Rightarrow> Entry list" where
  "takeSized m n [] = []"
| "takeSized m n (e # es) = (if n < m then e # takeSized m (n + approximateSerializedSize e) es else [])"

lemma takeSized_prefix: "\<exists>k. takeSized m n es = take k es \<and> k \<le> length es"
proof (induction es arbitrary: n)
  case (Cons e es)
  obtain k where "takeSized m (n + approximateSerializedSize e) es = take k es" "k \<le> length es" using Cons.IH by blast
  then show ?case
    by (cases "n < m") (auto intro: exI [of _ "Suc k"] exI [of _ 0])
qed auto

lemma takeSized_nonempty: "0 < m \<Longrightarrow> es \<noteq> [] \<Longrightarrow> takeSized m 0 es \<noteq> []"
  by (cases es) auto

lemma cache_fetch_loop_eq:
  assumes "i \<le> e" "e \<le> length es" "tk = takeSized m n (take (e - i) (drop i (map cm_entry es)))"
  shows "cache_fetch_loop es i e m n acc = Ret (i + length tk, acc @ tk)"
  using assms
proof (induction es i e m n acc arbitrary: tk rule: cache_fetch_loop.induct)
  case (1 es i e m n acc)
  show ?case
  proof (cases "i \<noteq> e \<and> n < m")
    case True
    then have i: "i < length es" "i + 1 \<le> e" using 1(2,3) by auto
    define t where "t = takeSized m (n + approximateSerializedSize (cm_entry (es ! i)))
      (take (e - (i + 1)) (drop (i + 1) (map cm_entry es)))"
    have "drop i (map cm_entry es) = cm_entry (es ! i) # drop (i + 1) (map cm_entry es)"
      using i(1) by (simp add: Cons_nth_drop_Suc [symmetric])
    moreover have "e - i = Suc (e - (i + 1))" using i(2) by simp
    ultimately have tk: "tk = cm_entry (es ! i) # t" using True by (simp add: 1(4) t_def)
    have "cache_fetch_loop es (i + 1) e m (n + approximateSerializedSize (cm_entry (es ! i))) (acc @ [cm_entry (es ! i)])
        = Ret (i + 1 + length t, (acc @ [cm_entry (es ! i)]) @ t)"
      using 1(1) [OF True i(1) i(2) 1(3) t_def] .
    then show ?thesis using True i(1) tk by (subst cache_fetch_loop.simps) simp
  next
    case False
    then have "tk = []" using 1(4) by (cases "take (e - i) (drop i (map cm_entry es))") auto
    then show ?thesis using False by (subst cache_fetch_loop.simps) auto
  qed
qed

lemma cache_fetch_range_eq:
  assumes "0 \<le> i" "i < j" "j \<le> int (length es)" "0 < m"
    and "tk = takeSized m 0 (take (nat (j - i)) (drop (nat i) (map cm_entry es)))"
  shows "tk \<noteq> [] \<and> cache_fetch_range es i j m = Ret (emptyFetchResult\<lparr>fetch_hint := cm_hint (es ! (nat i + length tk - 1)),
    fetched_log_sn_metadata := cm_meta (es ! nat i), fetch_entries := tk\<rparr>, False)"
proof -
  have e: "nat j - nat i = nat (j - i)" using assms(1) by (simp add: nat_diff_distrib')
  have ne: "tk \<noteq> []" using assms by (auto simp: takeSized_nonempty)
  have "cache_fetch_loop es (nat i) (nat j) m 0 [] = Ret (nat i + length tk, [] @ tk)"
    using assms e by (intro cache_fetch_loop_eq) auto
  then show ?thesis using assms ne by (auto simp: cache_fetch_range_def)
qed

lemma cache_first:
  assumes "cache_wf sn c" "lc_entries c \<noteq> []"
  shows "e_sn (cm_entry (hd (lc_entries c))) = sn"
    "e_sn (cm_entry (last (lc_entries c))) + 1 = sn + int (length (lc_entries c))"
proof -
  have c: "contiguous sn (map cm_entry (lc_entries c))" using assms(1) by (simp add: cache_wf_def cachedEntries_def)
  show "e_sn (cm_entry (hd (lc_entries c))) = sn" using c assms(2) by (cases "lc_entries c") auto
  obtain ys y where "lc_entries c = ys @ [y]" using assms(2) by (cases "lc_entries c" rule: rev_cases) auto
  then show "e_sn (cm_entry (last (lc_entries c))) + 1 = sn + int (length (lc_entries c))" using c by simp
qed

lemma cache_item:
  assumes "cache_wf sn c" "i < length (lc_entries c)"
  shows "e_sn (cm_entry (lc_entries c ! i)) = sn + int i" "entry_sn (cm_meta (lc_entries c ! i)) = sn + int i"
    "fh_sn (cm_hint (lc_entries c ! i)) = sn + int i + 1"
proof -
  have "contiguous sn (map cm_entry (lc_entries c))" using assms(1) by (simp add: cache_wf_def cachedEntries_def)
  then show i: "e_sn (cm_entry (lc_entries c ! i)) = sn + int i"
    using contiguous_nth [of sn "map cm_entry (lc_entries c)" i] assms(2) by simp
  have "itemOk (lc_entries c ! i)" using assms by (simp add: cache_wf_def)
  then show "entry_sn (cm_meta (lc_entries c ! i)) = sn + int i" "fh_sn (cm_hint (lc_entries c ! i)) = sn + int i + 1"
    using i by (simp_all add: itemOk_def)
qed

lemma contiguous_bounds: "contiguous sn es \<Longrightarrow> e \<in> set es \<Longrightarrow> sn \<le> e_sn e \<and> e_sn e < sn + int (length es)"
  by (induction es arbitrary: sn) force+

lemma cache_contains:
  assumes "cache_wf sn c"
  shows "(\<exists>e \<in> set (cachedEntries c). e_sn e = a) \<longleftrightarrow> sn \<le> a \<and> a < sn + int (length (lc_entries c))"
proof
  show "sn \<le> a \<and> a < sn + int (length (lc_entries c))" if mem: "\<exists>e \<in> set (cachedEntries c). e_sn e = a"
  proof -
    obtain e where e: "e \<in> set (cachedEntries c)" "e_sn e = a" using mem by blast
    have "contiguous sn (cachedEntries c)" using assms by (simp add: cache_wf_def)
    from contiguous_bounds [OF this e(1)] e(2) show ?thesis by (simp add: cachedEntries_def)
  qed
  show "\<exists>e \<in> set (cachedEntries c). e_sn e = a" if a: "sn \<le> a \<and> a < sn + int (length (lc_entries c))"
    using cache_item(1) [OF assms, of "nat (a - sn)"] a
    by (auto simp: cachedEntries_def intro!: bexI [of _ "lc_entries c ! nat (a - sn)"])
qed

lemma contiguous_filter:
  assumes "contiguous sn es" "sn \<le> a" "a < b" "b \<le> sn + int (length es)"
  shows "filter (\<lambda>e. a \<le> e_sn e \<and> e_sn e < b) es = take (nat (b - a)) (drop (nat (a - sn)) es)"
  using assms
proof (induction es arbitrary: sn a)
  case (Cons e es)
  have low: "sn + 1 \<le> e_sn x" if "x \<in> set es" for x using Cons.prems(1) that contiguous_bounds by auto
  consider (skip) "sn < a" | (only) "a = sn" "b = sn + 1" | (more) "a = sn" "sn + 1 < b" using Cons.prems by linarith
  then show ?case
  proof cases
    case skip
    then have "nat (a - sn) = Suc (nat (a - (sn + 1)))" by simp
    then show ?thesis using Cons.IH [of "sn + 1" a] Cons.prems skip by simp
  next
    case only
    have "filter (\<lambda>x. sn \<le> e_sn x \<and> e_sn x < sn + 1) es = []"
      using low by (fastforce simp: filter_empty_conv)
    then show ?thesis using Cons.prems only by simp
  next
    case more
    have "filter (\<lambda>x. sn \<le> e_sn x \<and> e_sn x < b) es = filter (\<lambda>x. sn + 1 \<le> e_sn x \<and> e_sn x < b) es"
      using low by (intro filter_cong) force+
    moreover have "nat (b - sn) = Suc (nat (b - (sn + 1)))" using more by simp
    ultimately show ?thesis using Cons.IH [of "sn + 1" "sn + 1"] Cons.prems more by simp
  qed
qed simp

text \<open>What both fetches do with a range that meets the cache.\<close>

lemma cache_range_spec:
  assumes wf: "cache_wf sn c" and r: "sn \<le> a" "a < b" "b \<le> sn + int (length (lc_entries c))" and m: "0 < m"
    and tk: "tk = takeSized m 0 (filter (\<lambda>e. a \<le> e_sn e \<and> e_sn e < b) (cachedEntries c))"
  shows "\<exists>r. cache_fetch_range (lc_entries c) (a - sn) (b - sn) m = Ret (r, False) \<and> fetch_entries r = tk \<and> tk \<noteq> []
    \<and> contiguous a tk \<and> entry_sn (fetched_log_sn_metadata r) = a \<and> fh_sn (fetch_hint r) = a + int (length tk)
    \<and> fetch_hint r \<in> cm_hint ` set (lc_entries c)"
proof -
  let ?es = "lc_entries c"
  have cont: "contiguous sn (map cm_entry ?es)" using wf by (simp add: cache_wf_def cachedEntries_def)
  have f: "filter (\<lambda>e. a \<le> e_sn e \<and> e_sn e < b) (cachedEntries c)
      = take (nat ((b - sn) - (a - sn))) (drop (nat (a - sn)) (map cm_entry ?es))"
    using contiguous_filter [OF cont r(1,2)] r(3) by (simp add: cachedEntries_def)
  from cache_fetch_range_eq [of "a - sn" "b - sn" ?es m tk] r m tk f
  have "tk \<noteq> []" and e: "cache_fetch_range ?es (a - sn) (b - sn) m
      = Ret (emptyFetchResult\<lparr>fetch_hint := cm_hint (?es ! (nat (a - sn) + length tk - 1)),
          fetched_log_sn_metadata := cm_meta (?es ! nat (a - sn)), fetch_entries := tk\<rparr>, False)"
    by auto
  obtain k where k: "tk = take k (take (nat ((b - sn) - (a - sn))) (drop (nat (a - sn)) (map cm_entry ?es)))"
    using takeSized_prefix [of m 0] tk f by metis
  then have "length tk \<le> nat (b - a)" by simp
  then have i: "nat (a - sn) < length ?es" "nat (a - sn) + length tk - 1 < length ?es" using r by linarith+
  have "contiguous a (drop (nat (a - sn)) (map cm_entry ?es))"
    using contiguous_take_drop(2) [OF cont, of "nat (a - sn)"] r(1) i(1) by simp
  then have "contiguous a tk" using k by (simp add: contiguous_take_drop(1))
  moreover have "int (nat (a - sn) + length tk - 1) + 1 = a - sn + int (length tk)"
    using \<open>tk \<noteq> []\<close> r(1) by (cases tk) simp_all
  moreover have "cm_hint (?es ! (nat (a - sn) + length tk - 1)) \<in> cm_hint ` set ?es" using nth_mem [OF i(2)] by (rule imageI)
  ultimately show ?thesis
    using e \<open>tk \<noteq> []\<close> cache_item(2) [OF wf i(1)] cache_item(3) [OF wf i(2)] r(1) by simp
qed

section \<open>Every history of the cache\<close>

text \<open>
  \<open>cacheRun n sn log c\<close>: a cache for \<open>n\<close> entries reaches the state \<open>c\<close> while the log that starts at
  \<open>sn\<close> receives the entries \<open>log\<close>. The log appends consecutive sequences, one entry or a batch at a
  time, trims its tail, and may drop the cache at any moment.
\<close>

inductive cacheRun :: "nat \<Rightarrow> int \<Rightarrow> Entry list \<Rightarrow> LogEntryCache \<Rightarrow> bool" for n sn where
  created: "contiguous sn log \<Longrightarrow> cacheRun n sn log (newLogEntryCache n)"
| batch: "cacheRun n sn log c \<Longrightarrow> contiguous (sn + int (length log)) (map fst es)
    \<Longrightarrow> \<forall>x \<in> set es. approximateSerializedSize (fst x) < 2 ^ 64
    \<Longrightarrow> cacheRun n sn (log @ map fst es) (cache_append_batch es base start c)"
| single: "cacheRun n sn log c \<Longrightarrow> e_sn e = sn + int (length log) \<Longrightarrow> approximateSerializedSize e < 2 ^ 64
    \<Longrightarrow> entry_sn m = e_sn e \<Longrightarrow> fh_sn h = e_sn e + 1
    \<Longrightarrow> cacheRun n sn (log @ [if shared then cloneEntry e else e]) (cache_append shared e m h c)"
| trimmed: "cacheRun n sn log c \<Longrightarrow> sn \<le> t \<Longrightarrow> t \<le> sn + int (length log)
    \<Longrightarrow> cacheRun n sn (filter (\<lambda>e. e_sn e < t) log) (snd (cache_trim t c))"
| cleared: "cacheRun n sn log c \<Longrightarrow> cacheRun n sn log (cache_clear c)"

text \<open>The cache holds a tail of the log.\<close>

definition cacheTail :: "nat \<Rightarrow> int \<Rightarrow> Entry list \<Rightarrow> LogEntryCache \<Rightarrow> bool" where
  "cacheTail n sn log c \<longleftrightarrow> contiguous sn log \<and> lc_max c = n
     \<and> (\<exists>ys. log = ys @ cachedEntries c \<and> cache_wf (sn + int (length ys)) c)"

lemma cacheTail_empty:
  "contiguous sn log \<Longrightarrow> cache_wf (sn + int (length log)) c \<Longrightarrow> lc_entries c = [] \<Longrightarrow> lc_max c = n \<Longrightarrow> cacheTail n sn log c"
  by (simp add: cacheTail_def cachedEntries_def)

lemma cacheTail_clear: "cacheTail n sn log c \<Longrightarrow> cacheTail n sn log (cache_clear c)"
  using cache_wf_clear by (intro cacheTail_empty) (auto simp: cacheTail_def cache_clear_def)

lemma cacheTail_push:
  assumes "cacheTail n sn log c" "itemOk x" "e_sn (cm_entry x) = sn + int (length log)"
    and "sz = approximateSerializedSize (cm_entry x)"
  shows "cacheTail n sn (log @ [cm_entry x]) (cache_push x sz c)"
proof -
  obtain ys where ys: "log = ys @ cachedEntries c" "cache_wf (sn + int (length ys)) c"
    using assms(1) by (auto simp: cacheTail_def)
  have "e_sn (cm_entry x) = sn + int (length ys) + int (length (lc_entries c))"
    using assms(3) ys(1) by (simp add: cachedEntries_def)
  from cache_push_wf [OF ys(2) assms(2) this assms(4)] obtain sn' where
    sn': "cache_wf sn' (cache_push x sz c)" "sn' + int (length (lc_entries (cache_push x sz c))) = e_sn (cm_entry x) + 1"
    "lc_max (cache_push x sz c) = lc_max c" by blast
  have "\<exists>zs. cachedEntries c @ [cm_entry x] = zs @ cachedEntries (cache_push x sz c)"
  proof (cases "lc_entries c @ [x]")
    case (Cons y xs)
    have "map cm_entry (lc_entries c @ [x]) = map cm_entry (y # xs)" by (simp only: Cons)
    then have "map cm_entry (lc_entries c) @ [cm_entry x] = [cm_entry y] @ map cm_entry xs" by simp
    then show ?thesis using Cons by (auto simp: cache_push_def cachedEntries_def Let_def)
  qed simp
  then obtain zs where zs: "cachedEntries c @ [cm_entry x] = zs @ cachedEntries (cache_push x sz c)" by blast
  have "int (length (log @ [cm_entry x])) = int (length ((ys @ zs) @ cachedEntries (cache_push x sz c)))"
    using ys(1) zs by simp
  then have "sn' = sn + int (length (ys @ zs))"
    using sn'(2) assms(3) by (simp add: cachedEntries_def)
  moreover have "contiguous sn (log @ [cm_entry x])" using assms(1,3) by (simp add: cacheTail_def)
  ultimately show ?thesis
    using assms(1) sn'(1,3) ys(1) zs unfolding cacheTail_def by (intro conjI exI [of _ "ys @ zs"]) simp_all
qed

lemma cacheTail_append_loop:
  assumes "cacheTail n sn log c" "contiguous (sn + int (length log)) (map fst es)"
    and "\<forall>x \<in> set es. approximateSerializedSize (fst x) < 2 ^ 64"
  shows "cacheTail n sn (log @ map fst es) (cache_append_loop base start k es c)"
  using assms
proof (induction es arbitrary: log k c)
  case (Cons x es)
  obtain e d where x: "x = (e, d)" by fastforce
  define item where "item = \<lparr>cm_meta = \<lparr>entry_sn = e_sn e, segment_base_sn = Some base, file_position = Some (start + k)\<rparr>,
    cm_hint = \<lparr>fh_sn = e_sn e + 1, fh_segment_base_sn = base, fh_file_position = start + k + length d\<rparr>, cm_entry = e\<rparr>"
  have "itemOk item" "e_sn (cm_entry item) = sn + int (length log)"
    "approximateSerializedSize e = approximateSerializedSize (cm_entry item)" "cm_entry item = e"
    using Cons.prems x by (simp_all add: item_def itemOk_def)
  from cacheTail_push [OF Cons.prems(1) this(1-3)]
  have "cacheTail n sn (log @ [e]) (cache_push item (approximateSerializedSize e) c)" by (simp add: \<open>cm_entry item = e\<close>)
  from Cons.IH [OF this, of "k + length d"] Cons.prems(2,3) x show ?case by (simp add: item_def algebra_simps)
qed simp

lemma cacheTail_append_batch:
  assumes "cacheTail n sn log c" "contiguous (sn + int (length log)) (map fst es)"
    and "\<forall>x \<in> set es. approximateSerializedSize (fst x) < 2 ^ 64"
  shows "cacheTail n sn (log @ map fst es) (cache_append_batch es base start c)"
proof (cases "lc_max c = 0")
  case True
  then have "lc_entries c = []" using assms(1) by (auto simp: cacheTail_def cache_wf_def)
  then show ?thesis using assms True
    by (auto simp: cacheTail_def cache_append_batch_def cachedEntries_def cache_wf_def)
next
  case False
  have "cacheTail n sn log (cache_clear c)" by (rule cacheTail_clear [OF assms(1)])
  then show ?thesis using False cacheTail_append_loop [OF _ assms(2,3)] assms(1) by (simp add: cache_append_batch_def)
qed

lemma trim_boundary:
  fixes t :: int
  assumes "contiguous sn (map cm_entry es)"
  defines "keep \<equiv> takeWhile (\<lambda>x. \<not> t \<le> e_sn (cm_entry x)) es"
  defines "gone \<equiv> drop (length keep) es"
  shows "gone \<noteq> [] \<Longrightarrow> t \<le> sn + int (length keep)" "keep \<noteq> [] \<Longrightarrow> sn + int (length keep) \<le> t"
    "es \<noteq> [] \<Longrightarrow> gone = [] \<longleftrightarrow> e_sn (cm_entry (last es)) < t"
proof -
  have es: "es = keep @ gone" unfolding keep_def gone_def by (simp add: dropWhile_eq_drop [symmetric])
  have g: "gone = dropWhile (\<lambda>x. \<not> t \<le> e_sn (cm_entry x)) es" unfolding keep_def gone_def by (simp add: dropWhile_eq_drop)
  have k: "\<forall>x \<in> set keep. e_sn (cm_entry x) < t" unfolding keep_def by (auto dest: set_takeWhileD)
  have cont: "contiguous sn (map cm_entry keep)" "contiguous (sn + int (length keep)) (map cm_entry gone)"
    using arg_cong [OF es, of "\<lambda>xs. contiguous sn (map cm_entry xs)"] assms(1) by simp_all
  have hd: "gone \<noteq> [] \<Longrightarrow> t \<le> e_sn (cm_entry (hd gone))" using hd_dropWhile [of "\<lambda>x. \<not> t \<le> e_sn (cm_entry x)" es] by (simp add: g)
  then show a: "gone \<noteq> [] \<Longrightarrow> t \<le> sn + int (length keep)" using cont(2) by (cases gone) auto
  show "keep \<noteq> [] \<Longrightarrow> sn + int (length keep) \<le> t" using cont(1) k by (cases keep rule: rev_cases) auto
  show "es \<noteq> [] \<Longrightarrow> gone = [] \<longleftrightarrow> e_sn (cm_entry (last es)) < t"
  proof (cases gone rule: rev_cases)
    case Nil
    assume "es \<noteq> []"
    then show ?thesis using Nil es k by simp
  next
    case (snoc gs x)
    then have "last es = x" using es by simp
    then show ?thesis using a cont(2) snoc by simp
  qed
qed

lemma cache_trim_bytes:
  assumes "\<forall>x \<in> set gone. approximateSerializedSize (cm_entry x) < 2 ^ 64"
  shows "fold (\<lambda>x n. sub64 n (approximateSerializedSize (cm_entry x))) gone
      ((b + entriesSize (map cm_entry gone)) mod 2 ^ 64) = b mod 2 ^ 64"
  using assms
proof (induction gone)
  case (Cons x gone)
  then show ?case
    using sub64_mod [of "approximateSerializedSize (cm_entry x)"
        "b + (approximateSerializedSize (cm_entry x) + entriesSize (map cm_entry gone))"] by simp
qed simp

lemma takeWhile_contiguous: "contiguous sn es \<Longrightarrow> takeWhile (\<lambda>e. e_sn e < t) es = filter (\<lambda>e. e_sn e < t) es"
proof (induction es arbitrary: sn)
  case (Cons e es)
  have low: "sn + 1 \<le> e_sn x" if "x \<in> set es" for x using Cons.prems that contiguous_bounds by auto
  show ?case
  proof (cases "e_sn e < t")
    case True
    then show ?thesis using Cons.IH [of "sn + 1"] Cons.prems by simp
  next
    case False
    then have "\<forall>x \<in> set es. \<not> e_sn x < t" using low Cons.prems by fastforce
    then show ?thesis using False by (simp add: filter_empty_conv)
  qed
qed simp

text \<open>\<^verbatim>\<open>trim\<close> keeps the entries below the target, and its hint is for the target.\<close>

lemma cache_trim_spec:
  assumes wf: "cache_wf sn c" and t: "t \<le> sn + int (length (lc_entries c))"
  shows "cachedEntries (snd (cache_trim t c)) = filter (\<lambda>e. e_sn e < t) (cachedEntries c)"
    "cache_wf sn (snd (cache_trim t c))" "lc_max (snd (cache_trim t c)) = lc_max c"
    "\<forall>h. fst (cache_trim t c) = Some h \<longrightarrow> fh_sn h = t"
proof -
  let ?es = "lc_entries c"
  define keep where "keep = takeWhile (\<lambda>x. \<not> t \<le> e_sn (cm_entry x)) ?es"
  define gone where "gone = drop (length keep) ?es"
  have "gone = dropWhile (\<lambda>x. \<not> t \<le> e_sn (cm_entry x)) ?es" by (simp add: gone_def keep_def dropWhile_eq_drop)
  then have es: "?es = keep @ gone" by (simp add: keep_def)
  have cont: "contiguous sn (map cm_entry ?es)" and len: "length ?es \<le> lc_max c" and ok: "\<forall>x \<in> set ?es. itemOk x"
    and bytes: "cached_bytes c = entriesSize (map cm_entry ?es) mod 2 ^ 64"
    using wf by (simp_all add: cache_wf_def cachedEntries_def)
  have k: "map cm_entry keep = filter (\<lambda>e. e_sn e < t) (map cm_entry ?es)"
    unfolding takeWhile_contiguous [OF cont, symmetric] keep_def by (simp add: takeWhile_map comp_def not_le)
  have b: "fold (\<lambda>x n. sub64 n (approximateSerializedSize (cm_entry x))) gone (cached_bytes c)
      = entriesSize (map cm_entry keep) mod 2 ^ 64"
    using cache_trim_bytes [of gone "entriesSize (map cm_entry keep)"] ok unfolding bytes es by (simp add: itemOk_def)
  have bound: "gone \<noteq> [] \<Longrightarrow> t \<le> sn + int (length keep)" "keep \<noteq> [] \<Longrightarrow> sn + int (length keep) \<le> t"
    "?es \<noteq> [] \<Longrightarrow> gone = [] \<longleftrightarrow> e_sn (cm_entry (last ?es)) < t"
    unfolding gone_def keep_def by (rule trim_boundary [OF cont], assumption)+
  have s: "cache_trim t c = (if gone = [] \<or> keep = [] then None else Some (cm_hint (last keep)),
      c\<lparr>lc_entries := keep, cached_bytes := entriesSize (map cm_entry keep) mod 2 ^ 64\<rparr>)"
  proof (cases "gone = []")
    case True
    then have "keep = ?es" using es by simp
    then have "c\<lparr>lc_entries := keep, cached_bytes := entriesSize (map cm_entry keep) mod 2 ^ 64\<rparr> = c"
      using bytes by simp
    then show ?thesis using True bound(3) by (simp add: cache_trim_def)
  next
    case False
    then have "?es \<noteq> []" "\<not> e_sn (cm_entry (last ?es)) < t" using es bound(3) by auto
    then show ?thesis
      using False b by (simp add: cache_trim_def Let_def flip: keep_def gone_def)
  qed
  show "cachedEntries (snd (cache_trim t c)) = filter (\<lambda>e. e_sn e < t) (cachedEntries c)"
    by (simp add: s cachedEntries_def k)
  show "cache_wf sn (snd (cache_trim t c))"
    using cont len ok unfolding es by (simp add: s cache_wf_def cachedEntries_def)
  show "lc_max (snd (cache_trim t c)) = lc_max c" by (simp add: s)
  have "fh_sn (cm_hint (last keep)) = t" if nonempty: "keep \<noteq> []" "gone \<noteq> []"
  proof -
    obtain ks x where ks: "keep = ks @ [x]" using nonempty(1) by (cases keep rule: rev_cases) auto
    have "itemOk x" "e_sn (cm_entry x) = sn + int (length ks)" using ok cont unfolding es ks by simp_all
    then show ?thesis using bound(1,2) nonempty ks by (simp add: itemOk_def)
  qed
  then show "\<forall>h. fst (cache_trim t c) = Some h \<longrightarrow> fh_sn h = t" by (simp add: s)
qed

lemma cacheTail_trim:
  assumes "cacheTail n sn log c" "t \<le> sn + int (length log)"
  shows "cacheTail n sn (filter (\<lambda>e. e_sn e < t) log) (snd (cache_trim t c))"
proof -
  obtain ys where ys: "log = ys @ cachedEntries c" "cache_wf (sn + int (length ys)) c" and c: "contiguous sn log"
    using assms(1) by (auto simp: cacheTail_def)
  have "t \<le> sn + int (length ys) + int (length (lc_entries c))" using assms(2) ys(1) by (simp add: cachedEntries_def)
  note trim = cache_trim_spec [OF ys(2) this]
  have "contiguous sn (filter (\<lambda>e. e_sn e < t) log)"
    unfolding takeWhile_contiguous [OF c, symmetric] by (subst takeWhile_eq_take) (rule contiguous_take_drop(1) [OF c])
  moreover have "\<exists>zs. filter (\<lambda>e. e_sn e < t) log = zs @ cachedEntries (snd (cache_trim t c))
      \<and> cache_wf (sn + int (length zs)) (snd (cache_trim t c))"
  proof (cases "cachedEntries (snd (cache_trim t c)) = []")
    case True
    then have "cache_wf a (snd (cache_trim t c))" for a using trim(2) by (simp add: cache_wf_def)
    then show ?thesis using True by simp
  next
    case False
    then obtain e where "e \<in> set (cachedEntries c)" "e_sn e < t" unfolding trim(1) by (auto simp: filter_empty_conv)
    moreover have "contiguous sn ys" "contiguous (sn + int (length ys)) (cachedEntries c)" using c ys(1) by simp_all
    ultimately have "sn + int (length ys) < t" "\<forall>y \<in> set ys. e_sn y < sn + int (length ys)"
      using contiguous_bounds [of "sn + int (length ys)" "cachedEntries c" e] contiguous_bounds [of sn ys] by auto
    then have "\<forall>y \<in> set ys. e_sn y < t" by fastforce
    then have "filter (\<lambda>e. e_sn e < t) ys = ys" by simp
    then show ?thesis using trim(1,2) ys(1) by (intro exI [of _ ys]) simp
  qed
  ultimately show ?thesis using trim(3) assms(1) by (simp add: cacheTail_def)
qed

lemma cacheTail_hit:
  assumes tail: "cacheTail n sn log c" and mem: "\<exists>e \<in> set (cachedEntries c). e_sn e = a" and ab: "a < b" and m: "0 < m"
  shows "\<exists>r. cache_fetch c a b m False = Ret (r, False)
    \<and> fetch_entries r = takeSized m 0 (filter (\<lambda>e. a \<le> e_sn e \<and> e_sn e < b) log)
    \<and> fetch_entries r \<noteq> [] \<and> contiguous a (fetch_entries r)
    \<and> entry_sn (fetched_log_sn_metadata r) = a \<and> fh_sn (fetch_hint r) = a + int (length (fetch_entries r))
    \<and> fetch_hint r \<in> cm_hint ` set (lc_entries c)"
proof -
  obtain ys where ys: "log = ys @ cachedEntries c" "cache_wf (sn + int (length ys)) c" and "contiguous sn log"
    using tail by (auto simp: cacheTail_def)
  define first where "first = sn + int (length ys)"
  note wf = ys(2) [folded first_def]
  have lower: "y \<in> set ys \<Longrightarrow> e_sn y < first" for y
    using \<open>contiguous sn log\<close> ys(1) contiguous_bounds [of sn ys y] by (simp add: first_def)
  have contained: "e_sn x < first + int (length (lc_entries c))" if "x \<in> set (cachedEntries c)" for x
    using cache_contains [OF wf, of "e_sn x"] that by auto
  have a: "first \<le> a" "a < first + int (length (lc_entries c))" using cache_contains [OF wf, of a] mem by simp_all
  have ne: "lc_entries c \<noteq> []" using mem by (auto simp: cachedEntries_def)
  note ends = cache_first [OF wf ne]
  define b' where "b' = min (first + int (length (lc_entries c))) b"
  have "filter (\<lambda>e. a \<le> e_sn e \<and> e_sn e < b') (cachedEntries c) = filter (\<lambda>e. a \<le> e_sn e \<and> e_sn e < b) (cachedEntries c)"
    using contained by (intro filter_cong) (auto simp: b'_def)
  moreover have "filter (\<lambda>e. a \<le> e_sn e \<and> e_sn e < b) ys = []" using lower a by (fastforce simp: filter_empty_conv)
  ultimately have f: "filter (\<lambda>e. a \<le> e_sn e \<and> e_sn e < b') (cachedEntries c) = filter (\<lambda>e. a \<le> e_sn e \<and> e_sn e < b) log"
    by (simp add: ys(1))
  have "cache_fetch c a b m False = cache_fetch_range (lc_entries c) (a - first) (b' - first) m"
    using a ne ends by (simp add: cache_fetch_def Let_def b'_def)
  moreover have "a < b'" "b' \<le> first + int (length (lc_entries c))" using a ab by (auto simp: b'_def)
  note cache_range_spec [OF wf a(1) this m refl, unfolded f]
  ultimately show ?thesis by auto
qed

lemma cacheTail_miss:
  assumes tail: "cacheTail n sn log c" and mem: "\<not> (\<exists>e \<in> set (cachedEntries c). e_sn e = a)"
  shows "cache_fetch c a b m False = Ret (emptyFetchResult, True)"
proof (cases "lc_entries c = []")
  case True
  then show ?thesis by (simp add: cache_fetch_def)
next
  case False
  obtain ys where wf: "cache_wf (sn + int (length (ys :: Entry list))) c" using tail by (auto simp: cacheTail_def)
  have "e_sn (cm_entry (last (lc_entries c))) < a \<or> a < e_sn (cm_entry (hd (lc_entries c)))"
    using mem cache_contains [OF wf, of a] cache_first [OF wf False] by linarith
  then show ?thesis using False by (auto simp: cache_fetch_def Let_def)
qed

lemma cacheRun_tail: "cacheRun n sn log c \<Longrightarrow> cacheTail n sn log c"
proof (induction rule: cacheRun.induct)
  case (created log)
  then show ?case
    by (auto simp: cacheTail_def cache_wf_new) (simp_all add: newLogEntryCache_def cachedEntries_def)
next
  case (single log c e m h shared)
  have x: "e_sn (if shared then cloneEntry e else e) = e_sn e"
    "approximateSerializedSize (if shared then cloneEntry e else e) = approximateSerializedSize e"
    by (simp_all add: cloneEntry_def approximateSerializedSize_def)
  show ?case
    unfolding cache_append_def
    using cacheTail_push [OF single.IH, of "\<lparr>cm_meta = m, cm_hint = h, cm_entry = if shared then cloneEntry e else e\<rparr>"]
      single.hyps x by (simp add: itemOk_def)
next
  case (cleared log c)
  then show ?case by (simp add: cacheTail_clear)
qed (simp_all add: cacheTail_append_batch cacheTail_trim)

section \<open>Properties\<close>

text \<open>
  Property C31: In every history the cache holds a tail of the log: at most the configured number of
  entries, with consecutive sequences, each with its own sequence metadata and a hint for the next
  sequence, and \<^verbatim>\<open>cached_bytes\<close> is the sum of their sizes modulo 2 to the 64. Appending
  (single, batch), evicting, trimming and clearing all keep this.
\<close>

theorem cache_holds_tail:
  assumes "cacheRun n sn log c"
  shows "\<exists>ys. log = ys @ cachedEntries c \<and> cache_wf (sn + int (length ys)) c \<and> lc_max c = n"
  using cacheRun_tail [OF assms] by (auto simp: cacheTail_def)

definition demoCache :: LogEntryCache where
  "demoCache = cache_append_batch (map (\<lambda>e. (e, entryBytes e)) demoLog) 1 0 (newLogEntryCache 2)"

lemma demoCache_run: "cacheRun 2 1 demoLog demoCache"
  unfolding demoCache_def using cacheRun.batch [OF cacheRun.created [of 1 "[]" 2], of "map (\<lambda>e. (e, entryBytes e)) demoLog" 1 0]
  by (simp add: comp_def demoLog_facts) (simp add: demoLog_def approximateSerializedSize_def demoEntry_def)

lemma demoCache_entries: "cachedEntries demoCache = [demoEntry 2 [], demoEntry 3 [8, 9]]"
  by (simp add: demoCache_def cache_append_batch_def newLogEntryCache_def cache_clear_def demoLog_def cache_push_def cachedEntries_def)

theorem cache_holds_tail_witness:
  "\<exists>ys. demoLog = ys @ [demoEntry 2 [], demoEntry 3 [8, 9]] \<and> cache_wf (1 + int (length ys)) demoCache \<and> lc_max demoCache = 2"
  using cache_holds_tail [OF demoCache_run] unfolding demoCache_entries .

text \<open>
  Property C30: What the cache serves is what the log holds. A request for \<open>[a, b)\<close> either falls back
  to the files, or it returns, up to the size limit, exactly the entries of the whole log with
  sequences in \<open>[a, b)\<close>: at least one, starting at \<open>a\<close>, with the metadata of \<open>a\<close> and a hint
  for the sequence after the last one. It falls back only when \<open>a\<close> is not in the cache.
\<close>

theorem cache_serves_log:
  assumes run: "cacheRun n sn log c" and ab: "a < b" and m: "0 < m"
  shows "(if \<exists>e \<in> set (cachedEntries c). e_sn e = a
      then \<exists>r. cache_fetch c a b m False = Ret (r, False)
        \<and> fetch_entries r = takeSized m 0 (filter (\<lambda>e. a \<le> e_sn e \<and> e_sn e < b) log)
        \<and> fetch_entries r \<noteq> [] \<and> contiguous a (fetch_entries r)
        \<and> entry_sn (fetched_log_sn_metadata r) = a \<and> fh_sn (fetch_hint r) = a + int (length (fetch_entries r))
      else cache_fetch c a b m False = Ret (emptyFetchResult, True))"
  using cacheTail_hit [OF cacheRun_tail [OF run] _ ab m] cacheTail_miss [OF cacheRun_tail [OF run], of a b m] by auto

theorem cache_serves_log_witness:
  "\<exists>r. cache_fetch demoCache 2 3 1 False = Ret (r, False) \<and> fetch_entries r = [demoEntry 2 []] \<and> fh_sn (fetch_hint r) = 3"
proof -
  have "\<exists>e \<in> set (cachedEntries demoCache). e_sn e = 2" unfolding demoCache_entries by (simp add: demoEntry_def)
  moreover have "takeSized 1 0 (filter (\<lambda>e. 2 \<le> e_sn e \<and> e_sn e < 3) demoLog) = [demoEntry 2 []]"
    by (simp add: demoLog_def) (simp add: demoEntry_def)
  moreover note cache_serves_log [OF demoCache_run, of 2 3 1]
  ultimately show ?thesis by (simp only: if_True) auto
qed

text \<open>
  \<^verbatim>\<open>fetchForMemoryLog\<close> does not serve a range below the cached entries, although its case 5 means to: it
  raises the start of the range to the first cached entry but not the end. A range that ends at the
  first cached entry makes it look in front of the deque; for one that ends earlier the size to
  reserve is negative and it throws.
\<close>

lemma memory_fetch_below_cache:
  assumes run: "cacheRun n sn log c" and e: "e \<in> set (cachedEntries c)" "\<forall>x \<in> set (cachedEntries c). b \<le> e_sn x"
    and ab: "a < b"
  shows "cache_fetch c a b m True = (if b \<in> e_sn ` set (cachedEntries c) then Undef else Throw STD_EXCEPTION)"
proof -
  obtain ys :: "Entry list" where wf: "cache_wf (sn + int (length ys)) c"
    using cacheRun_tail [OF run] unfolding cacheTail_def by blast
  let ?first = "sn + int (length ys)"
  have ne: "lc_entries c \<noteq> []" using e(1) by (auto simp: cachedEntries_def)
  note ends = cache_first [OF wf ne]
  have hd: "?first \<in> e_sn ` set (cachedEntries c)" using ends(1) ne by (auto simp: cachedEntries_def image_image intro!: image_eqI [of _ _ "hd (lc_entries c)"])
  then have b: "b \<le> ?first" using e(2) by auto
  have "\<forall>x \<in> set (cachedEntries c). ?first \<le> e_sn x"
    using wf contiguous_bounds unfolding cache_wf_def by blast
  then have iff: "b \<in> e_sn ` set (cachedEntries c) \<longleftrightarrow> b = ?first" using b hd by force
  have "fetchForMemoryLog (lc_entries c) a b m = cache_fetch_range (lc_entries c) 0 (b - ?first) m"
    using b ab ends ne by (simp add: fetchForMemoryLog_def Let_def)
  also have "\<dots> = (if b = ?first then Undef else Throw STD_EXCEPTION)"
    using b by (simp add: cache_fetch_range_def cache_fetch_loop.simps)
  finally show ?thesis using ne iff by (simp add: cache_fetch_def)
qed

end
