(* ===== verification/Nlog_Log.thy ===== *)
theory Nlog_Log
  imports Nlog_LogEntryCache Nlog_Loglet
begin

text \<open>
  \<^verbatim>\<open>Log\<close> of \<^verbatim>\<open>src/src/Cluster/LocalLog/Log/Log.{h,cpp}\<close>, the log the rest of the server uses: a loglet
  with the cache of its tail, the index of leader epochs, the start of the log and the committed
  sequence. Every operation of the class is a definition here; \<^verbatim>\<open>create\<close> is in the theory of the log
  loader. The configuration is shared with the loglet and is read there. Mutexes are left out, and
  what other threads do while a fetch waits is the parameter \<open>others\<close>.
\<close>

section \<open>State\<close>

record Log =
  lg_closed :: bool
  lg_paused :: bool
  lg_start_sn :: int
  epoch_sn_index :: "EpochSequence PersistentMonoMap"
  applied_sn_getter :: "int option"
  lg_loglet :: Loglet
  committed_sn :: int
  committed_epoch :: nat
  lg_cached :: LogEntryCache

text \<open>\<open>applied_sn_getter\<close> stands for the function by the value it returns.\<close>

type_synonym 'a logProg = "(Log \<times> filesys, 'a) prog"

definition onLoglet :: "'a logletProg \<Rightarrow> 'a logProg" where
  "onLoglet = onPart (\<lambda>(x, s). (lg_loglet x, s)) (\<lambda>(l, s) (x, _). (x\<lparr>lg_loglet := l\<rparr>, s))"

definition onEpoch :: "(EpochSequence, 'a) mapProg \<Rightarrow> 'a logProg" where
  "onEpoch = onPart (\<lambda>(x, s). (epoch_sn_index x, s)) (\<lambda>(m, s) (x, _). (x\<lparr>epoch_sn_index := m\<rparr>, s))"

text \<open>A computation that has no state of its own.\<close>

definition runE :: "'a exec \<Rightarrow> ('s, 'a) prog" where
  "runE x = (\<lambda>s. (x, s))"

definition lgConfig :: "Log \<Rightarrow> LogConfig" where
  "lgConfig x = log_config (lg_loglet x)"

definition newLog :: "int \<Rightarrow> EpochSequence PersistentMonoMap \<Rightarrow> Loglet \<Rightarrow> Log" where
  "newLog start epoch_index l =
     \<lparr>lg_closed = False, lg_paused = False, lg_start_sn = start, epoch_sn_index = epoch_index,
      applied_sn_getter = None, lg_loglet = l, committed_sn = LogStartSN - 1, committed_epoch = 0,
      lg_cached = newLogEntryCache (max_cached_entries_per_shard (log_config l))\<rparr>"

definition log_shutdown :: "Log \<Rightarrow> Log" where
  "log_shutdown x = x\<lparr>lg_closed := True\<rparr>"

definition log_restart :: "Log \<Rightarrow> Log" where
  "log_restart x = x\<lparr>lg_closed := False\<rparr>"

definition log_pause :: "Log \<Rightarrow> Log" where
  "log_pause x = x\<lparr>lg_paused := True\<rparr>"

definition log_resume :: "Log \<Rightarrow> Log" where
  "log_resume x = x\<lparr>lg_paused := False\<rparr>"

definition log_recover :: "Log \<Rightarrow> Log" where
  "log_recover x = x\<lparr>lg_paused := False\<rparr>"

definition setAppliedSequenceGetter :: "int option \<Rightarrow> Log \<Rightarrow> Log" where
  "setAppliedSequenceGetter g x = x\<lparr>applied_sn_getter := g\<rparr>"

definition appliedSequence :: "Log \<Rightarrow> int" where
  "appliedSequence x = (case applied_sn_getter x of Some n \<Rightarrow> n | None \<Rightarrow> committed_sn x)"

definition log_nextLogSequence :: "Log \<Rightarrow> int" where
  "log_nextLogSequence x = nextLogSequence (lg_loglet x)"

definition log_isInmemory :: "Log \<Rightarrow> bool" where
  "log_isInmemory x = inmemory (lgConfig x)"

definition log_updateConfig :: "(string \<times> int) list \<Rightarrow> (string \<times> int) list \<Rightarrow> Log \<Rightarrow> Log" where
  "log_updateConfig flush_settings retention_settings x =
     x\<lparr>lg_loglet := updateConfig flush_settings retention_settings (lg_loglet x)\<rparr>"

definition log_flush :: "ErrorCode logProg" where
  "log_flush = onLoglet flushActiveSegment"

section \<open>The committed sequence and the start of the log\<close>

definition advanceCommittedSequence :: "nat \<Rightarrow> int \<Rightarrow> Log \<Rightarrow> int \<times> Log" where
  "advanceCommittedSequence new_epoch new_committed_sn x =
    (if new_epoch < committed_epoch x then (committed_sn x, x)
     else if log_nextLogSequence x \<le> new_committed_sn then (committed_sn x, x)
     else if committed_sn x < new_committed_sn then
       (committed_sn x, x\<lparr>committed_sn := new_committed_sn, committed_epoch := new_epoch\<rparr>)
     else (committed_sn x, x))"

definition maybeIncrementLogStartSequence :: "int \<Rightarrow> Log \<Rightarrow> bool \<times> Log" where
  "maybeIncrementLogStartSequence new_log_start_sn x =
    (if lg_start_sn x < new_log_start_sn then (True, x\<lparr>lg_start_sn := new_log_start_sn\<rparr>) else (False, x))"

section \<open>Appending\<close>

text \<open>\<^verbatim>\<open>maybeRoll\<close>: the result is a null pointer on errors.\<close>

definition maybeRoll :: "u32 \<Rightarrow> int \<Rightarrow> LogSegment option CallResult logProg" where
  "maybeRoll append_size next_sn =
     bindE (onLoglet getActive) (\<lambda>segment.
     bindE getM (\<lambda>x.
     if \<not> shouldRoll segment (lgConfig x) append_size then retE (okR (Some segment))
     else onLoglet (loglet_roll (Some next_sn))))"

text \<open>The part of the loop of \<^verbatim>\<open>append\<close> that indexes the epochs, up to the first error.\<close>

fun index_epochs :: "Entry list \<Rightarrow> ErrorCode logProg" where
  "index_epochs [] = retE OK"
| "index_epochs (e # es) =
     bindE (onEpoch (maybeIndexEpochStartSequence \<lparr>es_epoch = 1, es_sn = e_sn e\<rparr> True)) (\<lambda>res.
     if hasError res then retE (error_code res) else index_epochs es)"

definition max_event_ts_of :: "Entry list \<Rightarrow> TimestampSequence" where
  "max_event_ts_of batch =
     foldl (\<lambda>m e. if ts_timestamp m < e_max_event_timestamp e
                  then \<lparr>ts_timestamp = e_max_event_timestamp e, ts_sn = e_sn e\<rparr> else m)
       \<lparr>ts_timestamp = 0, ts_sn = 0\<rparr> batch"

text \<open>The byte count is a \<^verbatim>\<open>uint32_t\<close>. \<^verbatim>\<open>batch.front()\<close> of an empty batch has no meaning.\<close>

definition batch_bytes :: "bytes list \<Rightarrow> u32" where
  "batch_bytes batch_data = foldl (\<lambda>n d. n + of_nat (length d)) 0 batch_data"

definition log_append_batch :: "Entry list \<Rightarrow> nat CallResult logProg" where
  "log_append_batch batch =
     bindE (index_epochs batch) (\<lambda>err.
     if err \<noteq> OK then retE (errR 0 err)
     else if batch = [] then undefE
     else
       let batch_data = map (fst \<circ> serializeEntry) batch;
           batch' = map (snd \<circ> serializeEntry) batch;
           bytes = batch_bytes batch_data in
       bindE (maybeRoll bytes (e_sn (hd batch))) (\<lambda>res.
       if hasError res then retE (errR 0 FAILED_TO_ROLL_LOG_SEGMENT)
       else case result res of
         None \<Rightarrow> undefE
       | Some segment \<Rightarrow>
         let start_file_position = seg_size segment in
         bindE (onLoglet (loglet_append_batch batch' batch_data (unat bytes) (max_event_ts_of batch))) (\<lambda>r.
         if hasError r then retE r
         else
           bindE (modM (\<lambda>x. x\<lparr>lg_cached :=
             cache_append_batch (zip batch' batch_data) (base_sn segment) start_file_position (lg_cached x)\<rparr>)) (\<lambda>_.
           retE r))))"

text \<open>The loop of the public \<^verbatim>\<open>append\<close>, on the entries that are left and the bytes written so far.\<close>

function append_chunks :: "Entry list \<Rightarrow> nat \<Rightarrow> nat CallResult logProg" where
  "append_chunks es n =
    (if length es \<le> IOV_MAX then
       bindE (log_append_batch es) (\<lambda>r. retE \<lparr>result = add64 n (result r), error_code = error_code r\<rparr>)
     else
       bindE (log_append_batch (take IOV_MAX es)) (\<lambda>r.
       if hasError r then retE \<lparr>result = add64 n (result r), error_code = error_code r\<rparr>
       else append_chunks (drop IOV_MAX es) (add64 n (result r))))"
  by pat_completeness auto

termination append_chunks
  by (relation "measure (\<lambda>(es, _). length es)") (auto simp: IOV_MAX_def)

declare append_chunks.simps [simp del]

text \<open>\<open>shared\<close>: the caller holds a reference to the entry too.\<close>

fun append_memory_loop :: "bool \<Rightarrow> Entry list \<Rightarrow> Log \<Rightarrow> Log" where
  "append_memory_loop shared [] x = x"
| "append_memory_loop shared (e # es) x =
    (let l = updateNextLogSequence (e_sn e + 1) 0 0 (lg_loglet x);
         m = \<lparr>entry_sn = e_sn e, segment_base_sn = None, file_position = None\<rparr> in
     append_memory_loop shared es
       (x\<lparr>lg_loglet := l, lg_cached := cache_append shared e m (toFetchHint (nextLogSequenceMetadata l)) (lg_cached x)\<rparr>))"

definition appendInMemory :: "bool \<Rightarrow> Entry list \<Rightarrow> nat CallResult logProg" where
  "appendInMemory shared entries =
    (if entries = [] then undefE
     else bindE (modM (\<lambda>x. snd (advanceCommittedSequence 1 (e_sn (last entries)) (append_memory_loop shared entries x)))) (\<lambda>_.
       retE (okR 0)))"

definition log_append :: "bool \<Rightarrow> Entry list \<Rightarrow> nat CallResult logProg" where
  "log_append shared entries =
     bindE getM (\<lambda>x. if log_isInmemory x then appendInMemory shared entries else append_chunks entries 0)"

text \<open>\<^verbatim>\<open>appendLocal\<close> from the lock on: the entry has its sequence and its time.\<close>

definition append_local_entry :: "bool \<Rightarrow> Entry \<Rightarrow> ErrorCode logProg" where
  "append_local_entry shared e =
    (let data = fst (serializeEntry e); e' = snd (serializeEntry e) in
     bindE (maybeRoll (of_nat (length data)) (e_sn e)) (\<lambda>res.
     if hasError res then retE FAILED_TO_ROLL_LOG_SEGMENT
     else case result res of
       None \<Rightarrow> undefE
     | Some segment \<Rightarrow>
       let m = \<lparr>entry_sn = e_sn e, segment_base_sn = Some (base_sn segment), file_position = Some (seg_size segment)\<rparr> in
       bindE getM (\<lambda>x.
       bindE (if log_isInmemory x
              then bindE (onLoglet (modM (updateNextLogSequence (e_sn e + 1) 0 0))) (\<lambda>_. retE OK)
              else bindE (onLoglet (loglet_append data e')) (\<lambda>r. retE (error_code r))) (\<lambda>err.
       if err \<noteq> OK then retE err
       else
         bindE (modM (\<lambda>x. x\<lparr>lg_cached :=
           cache_append shared e' m (toFetchHint (nextLogSequenceMetadata (lg_loglet x))) (lg_cached x)\<rparr>)) (\<lambda>_.
         retE OK)))))"

definition appendLocal :: "bool \<Rightarrow> Entry \<Rightarrow> int CallResult logProg" where
  "appendLocal shared entry =
     bindE getM (\<lambda>x.
     if lg_paused x then retE (errR 0 STREAM_PAUSED)
     else if max_entry_size (lgConfig x) < payloadSize entry then retE (errR 0 TOO_LARGE_RECORD)
     else
       bindE (\<lambda>(x, s). (Ret (clock s), (x, s))) (\<lambda>now.
       let e = entry\<lparr>e_sn := log_nextLogSequence x, e_append_timestamp := now\<rparr> in
       bindE (append_local_entry shared e) (\<lambda>err.
       if err \<noteq> OK then retE (errR 0 err)
       else
         bindE getM (\<lambda>x.
         bindE (if needFlush (lg_loglet x) then bindE log_flush (\<lambda>_. retE ()) else retE ()) (\<lambda>_.
         bindE (modM (\<lambda>x. snd (advanceCommittedSequence 1 (e_sn e) x))) (\<lambda>_.
         retE (okR (e_sn e))))))))"

section \<open>Fetching\<close>

datatype FetchIsolation = Committed | LogEnd

definition activeBase :: "int logProg" where
  "activeBase = bindE (onLoglet getActive) (\<lambda>g. retE (base_sn g))"

definition firstBase :: "int logProg" where
  "firstBase = bindE getM (\<lambda>x.
     case firstSegment (segments (lg_loglet x)) of None \<Rightarrow> undefE | Some g \<Rightarrow> retE (base_sn g))"

definition nextSequenceMetadata :: "FetchIsolation \<Rightarrow> LogSequenceMetadata logProg" where
  "nextSequenceMetadata isolation =
     bindE getM (\<lambda>x.
     case isolation of
       Committed \<Rightarrow> bindE activeBase (\<lambda>b.
         retE \<lparr>entry_sn = committed_sn x + 1, segment_base_sn = Some b, file_position = None\<rparr>)
     | LogEnd \<Rightarrow> retE (nextLogSequenceMetadata (lg_loglet x)))"

text \<open>
  \<^verbatim>\<open>nextFetchSequenceOrWait\<close> returns the sequence to fetch from beside the metadata. The wait ends
  when the metadata has moved on, when the log is closed or when the time is up: the state it leaves
  is the one \<open>others\<close> makes of the log, and the metadata is the one of that state if it is greater.
\<close>

definition nextFetchSequenceOrWait ::
  "(Log \<times> filesys \<Rightarrow> Log \<times> filesys) \<Rightarrow> int \<Rightarrow> int \<Rightarrow> FetchIsolation \<Rightarrow> (int \<times> LogSequenceMetadata) logProg" where
  "nextFetchSequenceOrWait others sn wait_ms isolation =
     bindE (nextSequenceMetadata isolation) (\<lambda>next_meta.
     bindE getM (\<lambda>x.
     let sn' = (if sn = EarliestSN then lg_start_sn x
                else if sn = LatestSN then entry_sn next_meta
                else if sn < LogStartSN then LogStartSN else sn) in
     if sn' < entry_sn next_meta \<or> wait_ms \<le> 0 then retE (sn', next_meta)
     else
       bindE (modS others) (\<lambda>_.
       bindE (nextSequenceMetadata isolation) (\<lambda>new_meta.
       retE (sn', if entry_sn next_meta < entry_sn new_meta then new_meta else next_meta)))))"

definition compactedAway :: "FetchResult CallResult logProg" where
  "compactedAway =
     bindE firstBase (\<lambda>b.
     bindE getM (\<lambda>x.
     retE (errR (emptyFetchResult\<lparr>log_start_sn := lg_start_sn x, log_committed_sn := committed_sn x,
       fetch_hint := emptyFetchHint\<lparr>fh_sn := lg_start_sn x, fh_segment_base_sn := b\<rparr>\<rparr>) SEQUENCE_COMPACTED_AWAY)))"

definition cachedFetch :: "int \<Rightarrow> int \<Rightarrow> nat \<Rightarrow> (FetchResult \<times> bool) logProg" where
  "cachedFetch sn end_sn max_size =
     bindE getM (\<lambda>x. runE (cache_fetch (lg_cached x) sn end_sn max_size (log_isInmemory x)))"

definition log_fetch ::
  "(Log \<times> filesys \<Rightarrow> Log \<times> filesys) \<Rightarrow> int \<Rightarrow> nat \<Rightarrow> int \<Rightarrow> FetchHint option \<Rightarrow> FetchIsolation
    \<Rightarrow> FetchResult CallResult logProg" where
  "log_fetch others sn max_size wait_ms hint isolation =
     bindE getM (\<lambda>x0.
     let start_sn = lg_start_sn x0;
         stamp = (\<lambda>r. bindE getM (\<lambda>x. retE (r\<lparr>result := (result r)\<lparr>log_start_sn := start_sn,
                                                        log_committed_sn := committed_sn x\<rparr>\<rparr>))) in
     if sn < start_sn \<and> LogStartSN \<le> sn then compactedAway
     else
       bindE (nextFetchSequenceOrWait others sn wait_ms isolation) (\<lambda>(sn, next_meta).
       if entry_sn next_meta \<le> sn then
         stamp (okR (emptyFetchResult\<lparr>fetch_hint :=
           (case hint of
              None \<Rightarrow> toFetchHint next_meta
            | Some h \<Rightarrow> if entry_sn next_meta \<noteq> sn \<or> FetchHint_empty h then toFetchHint next_meta else h)\<rparr>))
       else
         bindE (cachedFetch sn (entry_sn next_meta) max_size) (\<lambda>(fetch_result, try_fs).
         if fetch_entries fetch_result \<noteq> [] \<or> \<not> try_fs then stamp (okR fetch_result)
         else bindE (onLoglet (loglet_fetch sn max_size next_meta hint)) stamp)))"

definition fetchRange ::
  "int \<Rightarrow> int \<Rightarrow> nat \<Rightarrow> FetchHint option \<Rightarrow> FetchIsolation \<Rightarrow> FetchResult CallResult logProg" where
  "fetchRange low_sn high_sn max_size hint isolation =
     bindE getM (\<lambda>x.
     if low_sn < lg_start_sn x then compactedAway
     else
       bindE (nextFetchSequenceOrWait id low_sn 0 isolation) (\<lambda>(low_sn, next_meta).
       if entry_sn next_meta < high_sn then
         retE (errR (emptyFetchResult\<lparr>fetch_hint := emptyFetchHint\<lparr>fh_sn := entry_sn next_meta\<rparr>\<rparr>) SEQUENCE_UNAVAILABLE)
       else
         let next_meta = next_meta\<lparr>entry_sn := high_sn\<rparr> in
         bindE (cachedFetch low_sn high_sn max_size) (\<lambda>(fetch_result, try_fs).
         if fetch_entries fetch_result \<noteq> [] \<or> \<not> try_fs then retE (okR fetch_result)
         else onLoglet (loglet_fetch low_sn max_size next_meta hint))))"

definition log_sequenceForTimestamp :: "int \<Rightarrow> int logProg" where
  "log_sequenceForTimestamp ts =
     bindE (onLoglet (sequenceForTimestamp ts)) (\<lambda>res.
     bindE getM (\<lambda>x.
     retE (case result res of
             Some sn \<Rightarrow> if \<not> hasError res \<and> lg_start_sn x \<le> sn then sn else lg_start_sn x
           | None \<Rightarrow> lg_start_sn x)))"

section \<open>Trimming\<close>

definition log_trimFullyAndStartAt :: "int \<Rightarrow> EpochSequence option \<Rightarrow> ErrorCode logProg" where
  "log_trimFullyAndStartAt new_sn prev_epoch_sn =
     bindE (onLoglet (trimFullyAndStartAt new_sn)) (\<lambda>err.
     if err \<noteq> OK then retE err
     else
       bindE (modM (\<lambda>x. x\<lparr>lg_cached := cache_clear (lg_cached x)\<rparr>)) (\<lambda>_.
       bindE (case prev_epoch_sn of
                Some e \<Rightarrow>
                  bindE (onEpoch (EpochSequenceIndex_trimHead new_sn)) (\<lambda>_.
                  bindE (onEpoch (maybeIndexEpochStartSequence e True)) (\<lambda>_. retE ()))
              | None \<Rightarrow> bindE (onEpoch EpochSequenceIndex_remove) (\<lambda>_. retE ())) (\<lambda>_.
       bindE (modM (\<lambda>x. x\<lparr>lg_start_sn := new_sn, committed_sn := new_sn - 1\<rparr>)) (\<lambda>_.
       retE OK))))"

definition log_trim :: "int \<Rightarrow> ErrorCode logProg" where
  "log_trim target_sn =
    (if target_sn < LogStartSN then retE INVALID_SEQUENCE
     else
       bindE getM (\<lambda>x.
       if target_sn < log_nextLogSequence x then
         bindE firstBase (\<lambda>first.
         if target_sn < first then log_trimFullyAndStartAt target_sn None
         else
           bindE (onLoglet (loglet_trim target_sn)) (\<lambda>err.
           if err \<noteq> OK then retE err
           else
             bindE (modM (\<lambda>x. x\<lparr>lg_cached := snd (cache_trim target_sn (lg_cached x))\<rparr>)) (\<lambda>_.
             bindE (onEpoch (EpochSequenceIndex_trim target_sn)) (\<lambda>err.
             if err \<noteq> OK then retE err
             else
               bindE (modM (\<lambda>x. x\<lparr>lg_start_sn := min target_sn (lg_start_sn x),
                 committed_sn := (if target_sn < committed_sn x then target_sn else committed_sn x)\<rparr>)) (\<lambda>_.
               retE OK)))))
       else if target_sn = log_nextLogSequence x then onEpoch (EpochSequenceIndex_trim target_sn)
       else retE OK))"

section \<open>Retention\<close>

definition delete_segments ::
  "('c \<Rightarrow> LogSegment \<Rightarrow> LogSegment \<Rightarrow> filesys \<Rightarrow> (bool \<times> 'c) \<times> filesys) \<Rightarrow> 'c \<Rightarrow> int \<Rightarrow> nat logProg" where
  "delete_segments should_delete c applied_sn =
     bindE (onLoglet (deletableSegments should_delete c applied_sn)) (\<lambda>deletable.
     if deletable = [] then retE 0
     else
       bindE (onLoglet (removeSegments deletable None)) (\<lambda>_.
       bindE firstBase (\<lambda>b.
       bindE (modM (\<lambda>x. snd (maybeIncrementLogStartSequence b x))) (\<lambda>_.
       retE (length deletable)))))"

definition start_breached :: "int \<Rightarrow> unit \<Rightarrow> LogSegment \<Rightarrow> LogSegment \<Rightarrow> filesys \<Rightarrow> (bool \<times> unit) \<times> filesys" where
  "start_breached start_sn c prev segment s = ((base_sn segment \<le> start_sn, c), s)"

text \<open>The capture of the next two is \<^verbatim>\<open>total_bytes\<close>, a \<^verbatim>\<open>size_t\<close>.\<close>

definition size_breached :: "nat \<Rightarrow> nat \<Rightarrow> nat \<Rightarrow> LogSegment \<Rightarrow> LogSegment \<Rightarrow> filesys \<Rightarrow> (bool \<times> nat) \<times> filesys" where
  "size_breached retention_bytes keep total_bytes prev segment s =
    (if retention_bytes < total_bytes \<and> seg_size prev < total_bytes \<and> keep < total_bytes - seg_size prev
     then ((True, total_bytes - seg_size prev), s) else ((False, total_bytes), s))"

definition time_breached ::
  "int \<Rightarrow> int \<Rightarrow> nat \<Rightarrow> nat \<Rightarrow> LogSegment \<Rightarrow> LogSegment \<Rightarrow> filesys \<Rightarrow> (bool \<times> nat) \<times> filesys" where
  "time_breached start_ms max_age keep total_bytes prev segment s =
    (case seg_lastModified prev s of (res, s') \<Rightarrow>
       if hasError res then ((False, total_bytes), s')
       else if max_age < start_ms - result res \<and> seg_size prev < total_bytes \<and> keep < total_bytes
         then ((True, total_bytes - seg_size prev), s') else ((False, total_bytes), s'))"

definition deleteLogStartSequenceBreachedSegments :: "int \<Rightarrow> nat logProg" where
  "deleteLogStartSequenceBreachedSegments applied_sn =
     bindE getM (\<lambda>x. delete_segments (start_breached (lg_start_sn x)) () applied_sn)"

definition deleteRetentionSizeBreachedSegments :: "int \<Rightarrow> nat logProg" where
  "deleteRetentionSizeBreachedSegments applied_sn =
     bindE getM (\<lambda>x.
     let config = lgConfig x; total_bytes = loglet_size (lg_loglet x) in
     if retention_size config = 0 then retE 0
     else if total_bytes < retention_size config then retE 0
     else if total_bytes < min_size_to_keep config then retE 0
     else delete_segments (size_breached (retention_size config) (min_size_to_keep config)) total_bytes applied_sn)"

definition deleteRetentionTimeBreachedSegments :: "int \<Rightarrow> nat logProg" where
  "deleteRetentionTimeBreachedSegments applied_sn =
     bindE getM (\<lambda>x.
     let config = lgConfig x; total_bytes = loglet_size (lg_loglet x) in
     if retention_ms config \<le> 0 then retE 0
     else if total_bytes < min_size_to_keep config then retE 0
     else
       bindE (\<lambda>(x, s). (Ret (clock s), (x, s))) (\<lambda>start_ms.
       delete_segments (time_breached start_ms (retention_ms config) (min_size_to_keep config)) total_bytes applied_sn))"

text \<open>
  The three are the operands of \<^verbatim>\<open>+\<close>, whose order of evaluation C++ leaves to the compiler: \<open>order\<close>
  is the list of them in the order they run in.
\<close>

datatype RetentionKind = StartBreached | SizeBreached | TimeBreached

definition deleteBreached :: "int \<Rightarrow> RetentionKind \<Rightarrow> nat logProg" where
  "deleteBreached applied_sn k =
    (case k of
       StartBreached \<Rightarrow> deleteLogStartSequenceBreachedSegments applied_sn
     | SizeBreached \<Rightarrow> deleteRetentionSizeBreachedSegments applied_sn
     | TimeBreached \<Rightarrow> deleteRetentionTimeBreachedSegments applied_sn)"

fun deleteOldSegments :: "RetentionKind list \<Rightarrow> int \<Rightarrow> nat logProg" where
  "deleteOldSegments [] applied_sn = retE 0"
| "deleteOldSegments (k # order) applied_sn =
     bindE (deleteBreached applied_sn k) (\<lambda>n.
     bindE (deleteOldSegments order applied_sn) (\<lambda>m. retE (n + m)))"

section \<open>Epochs\<close>

definition latestLeaderEpoch :: "int option logProg" where
  "latestLeaderEpoch =
     bindE (onEpoch latestLeaderEpochSequence) (\<lambda>res.
     bindE getM (\<lambda>x.
     if hasError res then retE None
     else case result res of
       None \<Rightarrow> retE None
     | Some r \<Rightarrow>
       let next_sn = log_nextLogSequence x in
       if es_sn r < next_sn then retE (Some (es_epoch r))
       else
         bindE (onEpoch (leaderEpochSequenceFor (next_sn - 1))) (\<lambda>res.
         retE (if hasError res then None else map_option es_epoch (result res)))))"

definition LogStartEpoch :: int where "LogStartEpoch = 1"

definition leaderEpochFor :: "int \<Rightarrow> int option logProg" where
  "leaderEpochFor sn =
    (if sn < LogStartSN then retE (Some LogStartEpoch)
     else
       bindE getM (\<lambda>x.
       if sn = log_nextLogSequence x - 1 then latestLeaderEpoch
       else
         bindE (onEpoch (leaderEpochSequenceFor sn)) (\<lambda>res.
         if \<not> hasError res \<and> result res \<noteq> None then retE (map_option es_epoch (result res))
         else
           bindE (log_fetch id sn 1 0 None Committed) (\<lambda>r.
           retE (if fetch_entries (result r) \<noteq> [] then Some 1 else None)))))"

record CommittedSequences =
  epoch_sns :: "EpochSequence list"
  log_next_sn :: int

text \<open>\<^verbatim>\<open>static_cast<int64_t>\<close> of a \<^verbatim>\<open>uint64_t\<close>.\<close>

definition signed64 :: "nat \<Rightarrow> int" where
  "signed64 n = sint (of_nat n :: u64)"

definition committedSequences :: "int \<Rightarrow> nat \<Rightarrow> CommittedSequences CallResult logProg" where
  "committedSequences last_committed_sn max_entries =
     bindE getM (\<lambda>x.
     let next_sn = log_nextLogSequence x; max_entries = signed64 max_entries;
         last_sn = (if LogStartSN < last_committed_sn then min last_committed_sn (committed_sn x) else committed_sn x);
         start_sn = (if lg_start_sn x + max_entries < last_sn then last_sn - max_entries else lg_start_sn x) in
     if last_sn \<le> start_sn + 1 then retE (okR \<lparr>epoch_sns = [], log_next_sn = 0\<rparr>)
     else
       let sequences = cache_epochSequences start_sn last_sn (lg_cached x) in
       if sequences \<noteq> [] then retE (okR \<lparr>epoch_sns = sequences, log_next_sn = next_sn\<rparr>)
       else
         bindE (onLoglet (epochSequences start_sn last_sn)) (\<lambda>res.
         retE (if hasError res then errR \<lparr>epoch_sns = [], log_next_sn = 0\<rparr> (error_code res)
               else okR \<lparr>epoch_sns = result res, log_next_sn = next_sn\<rparr>)))"

section \<open>Removing and renaming\<close>

definition log_remove :: "ErrorCode logProg" where
  "log_remove = bindE (onEpoch EpochSequenceIndex_close) (\<lambda>_. onLoglet loglet_remove)"

definition log_renameDir :: "string \<Rightarrow> ErrorCode logProg" where
  "log_renameDir name = onLoglet (renameDir name)"

end
