(* ===== verification/Nlog_Loglet_Append.thy ===== *)
theory Nlog_Loglet_Append
  imports Nlog_Loglet_Fetch
begin

text \<open>
  Appending to a loglet: \<^verbatim>\<open>Loglet::append\<close> for a batch and for a single entry, \<^verbatim>\<open>Loglet::roll\<close> and
  \<^verbatim>\<open>Loglet::flushActiveSegment\<close> keep the relation between the loglet and the log it holds. Next to what
  a reader needs, \<open>loglet_inv\<close> says under which names the files of the loglet are, so that a write to
  one of them leaves the others alone.
\<close>

section \<open>File names\<close>

lemma logFile_inject:
  assumes "logFile d i a [] = logFile d j b []"
  shows "i = j"
proof -
  have "path_filename (logFile d i a []) = path_filename (logFile d j b [])" using assms by simp
  then have "takeWhile is_digit (pad0 8 (nat_to_dec i) @ ''-'' @ format_int 20 a @ ''.log'')
      = takeWhile is_digit (pad0 8 (nat_to_dec j) @ ''-'' @ format_int 20 b @ ''.log'')"
    by (simp only: filename_logFile)
  moreover have "takeWhile is_digit (pad0 8 (nat_to_dec k) @ ''-'' @ r) = pad0 8 (nat_to_dec k)" for k r
  proof -
    have "\<forall>c \<in> set (pad0 8 (nat_to_dec k)). is_digit c" using pad0_digits(1) [of 8 k] by (simp add: list_all_iff)
    then show ?thesis by (subst takeWhile_append2) (auto simp: is_digit_def)
  qed
  ultimately have "pad0 8 (nat_to_dec i) = pad0 8 (nat_to_dec j)" by simp
  then show ?thesis using dec_value_pad0 by metis
qed

definition posBase :: "string \<Rightarrow> string" where "posBase d = d @ ''/sn-pos.idx''"

definition tsBase :: "string \<Rightarrow> string" where "tsBase d = d @ ''/ts-sn.idx''"

definition epochBase :: "string \<Rightarrow> string" where "epochBase d = d @ ''/epoch-sn.idx''"

lemma mapFiles_prefix: "p \<in> mapFiles (d @ b) \<Longrightarrow> \<exists>r. p = d @ b @ r"
  by (auto simp: mapFiles_def segmentLogPath_def)

lemma logFile_not_index: "logFile d i b sfx \<notin> mapFiles (d @ CHR ''/'' # c # r)" if "\<not> is_digit c"
proof
  assume "logFile d i b sfx \<in> mapFiles (d @ CHR ''/'' # c # r)"
  from mapFiles_prefix [OF this] obtain q where
    "pad0 8 (nat_to_dec i) @ ''-'' @ format_int 20 b @ ''.log'' @ sfx = c # r @ q"
    by (auto simp: logFile_def filenamePrefixFrom_def LOG_FILE_SUFFIX_def)
  then have "hd (pad0 8 (nat_to_dec i)) = c" using pad0_digits(2) [of 8 i] by (cases "pad0 8 (nat_to_dec i)") auto
  moreover have "is_digit (hd (pad0 8 (nat_to_dec i)))" using pad0_digits [of 8 i] by (cases "pad0 8 (nat_to_dec i)") auto
  ultimately show False using that by simp
qed

lemma logFile_outside [simp]:
  "logFile d i b sfx \<notin> mapFiles (posBase d)" "logFile d i b sfx \<notin> mapFiles (tsBase d)"
  "logFile d i b sfx \<notin> mapFiles (epochBase d)"
  using logFile_not_index [of "CHR ''s''" d i b sfx "''n-pos.idx''"] logFile_not_index [of "CHR ''t''" d i b sfx "''s-sn.idx''"]
    logFile_not_index [of "CHR ''e''" d i b sfx "''poch-sn.idx''"]
  by (simp_all add: posBase_def tsBase_def epochBase_def is_digit_def)

lemma index_files_disjoint:
  "mapFiles (posBase d) \<inter> mapFiles (tsBase d) = {}" "mapFiles (posBase d) \<inter> mapFiles (epochBase d) = {}"
  "mapFiles (tsBase d) \<inter> mapFiles (epochBase d) = {}"
  by (auto simp: mapFiles_def segmentLogPath_def posBase_def tsBase_def epochBase_def)

section \<open>The state of a loglet and its files\<close>

definition named :: "string \<Rightarrow> LogSegment \<Rightarrow> bool" where
  "named d g \<longleftrightarrow> fle_file (seg_log g) =
     \<lparr>filename = logFile d (seg_id g) (base_sn g) [], read_only = False, fd = logFile d (seg_id g) (base_sn g) []\<rparr>"

text \<open>A map in a state in which its operations behave.\<close>

definition mapOk :: "'e KeyValueOps \<Rightarrow> ('e \<Rightarrow> bool) \<Rightarrow> string \<Rightarrow> 'e PersistentMonoMap \<Rightarrow> filesys \<Rightarrow> 'e list \<Rightarrow> bool" where
  "mapOk K valid base m s xs \<longleftrightarrow> (\<exists>fulls cur. map_rel K valid base m s fulls cur
     \<and> xs = concat fulls @ cur \<and> (cur \<noteq> [] \<or> fulls = [])) \<and> 0 < pm_max_size m"

lemma mapOkI:
  "map_rel K valid base m s fulls cur \<Longrightarrow> xs = concat fulls @ cur \<Longrightarrow> cur \<noteq> [] \<or> fulls = [] \<Longrightarrow> 0 < pm_max_size m
    \<Longrightarrow> mapOk K valid base m s xs"
  by (auto simp: mapOk_def)

text \<open>A map whose 64-bit file numbers are enough for \<open>k\<close> more records.\<close>

definition mapRoom :: "nat \<Rightarrow> 'e PersistentMonoMap \<Rightarrow> bool" where
  "mapRoom k m \<longleftrightarrow> nextSegmentID m + k \<le> 2 ^ 64"

lemma mapRoom_mono: "mapRoom (Suc k) m \<Longrightarrow> mapRoom k m"
  by (simp add: mapRoom_def)

lemma map_rel_frame:
  assumes "map_rel K valid base m s fulls cur" "\<And>p. p \<in> mapFiles base \<Longrightarrow> content s' p = content s p"
  shows "map_rel K valid base m s' fulls cur"
proof -
  have "list_all2 (seg_rel K s' base) (pm_segs m) fulls"
    using map_relD(6) [OF assms(1)] by (rule segs_rel_frame) (simp add: assms(2) mapFiles_def)
  then show ?thesis using assms by (simp add: map_rel_def mapFiles_def)
qed

lemma mapOk_frame:
  assumes "mapOk K valid base m s xs" "\<And>p. p \<in> mapFiles base \<Longrightarrow> content s' p = content s p"
  shows "mapOk K valid base m s' xs"
  using assms map_rel_frame unfolding mapOk_def by metis

lemma mapOk_upd:
  "mapOk K valid base m s0 xs \<Longrightarrow> content s = (content s0)(f := c) \<Longrightarrow> f \<notin> mapFiles base \<Longrightarrow> mapOk K valid base m s xs"
  by (erule mapOk_frame) auto

context mono_key_value
begin

text \<open>An entry is accepted exactly when its key is above all others.\<close>

lemma maybeIndex_ok:
  assumes ok: "mapOk K valid base m s xs" and q: "outcomes s = []" and v: "valid e" and room: "mapRoom (Suc k) m"
  defines "accept \<equiv> \<forall>a \<in> set xs. kv_key K a < kv_key K e"
  shows "\<exists>m' s'. maybeIndex K e sync (m, s) = (Ret (okR accept), (m', s')) \<and> outcomes s' = []
    \<and> mapOk K valid base m' s' (xs @ (if accept then [e] else [])) \<and> elsewhere base s s' \<and> mapRoom k m'"
proof -
  obtain fulls cur where rel: "map_rel K valid base m s fulls cur" "xs = concat fulls @ cur" "cur \<noteq> [] \<or> fulls = []"
    and mx: "0 < pm_max_size m" using ok by (auto simp: mapOk_def)
  show ?thesis
  proof (cases accept)
    case True
    then obtain m' s' fulls' cur' where "maybeIndex K e sync (m, s) = (Ret (okR True), (m', s'))" "outcomes s' = []"
      "map_rel K valid base m' s' fulls' cur'" "concat fulls' @ cur' = concat fulls @ cur @ [e]" "cur' \<noteq> []"
      "pm_max_size m' = pm_max_size m" "elsewhere base s s'" "nextSegmentID m' \<le> Suc (nextSegmentID m)"
      using maybeIndex_append [OF rel(1) q v rel(3) _ mx, of sync] rel(2) room unfolding accept_def mapRoom_def by auto
    moreover from this have "mapOk K valid base m' s' (xs @ [e])" using rel(2) mx by (intro mapOkI [of _ _ _ _ _ fulls' cur']) simp_all
    ultimately show ?thesis using True room by (intro exI [of _ m'] exI [of _ s']) (simp add: mapRoom_def)
  next
    case False
    have asc: "keys_ascend (kv_key K) (concat fulls @ cur)" using map_relD(8) [OF rel(1)] by (simp add: map_wf_def)
    from False obtain a where a: "a \<in> set (concat fulls @ cur)" "kv_key K e \<le> kv_key K a"
      using rel(2) by (auto simp: accept_def not_less)
    then have ne: "cur \<noteq> []" using rel(3) by auto
    have "kv_key K e \<le> kv_key K (last cur)" using keys_ascend_last [OF asc a(1)] a(2) ne by simp
    from maybeIndex_refuse [OF rel(1) ne this, of sync] False show ?thesis using ok q mapRoom_mono [OF room] by auto
  qed
qed

end

section \<open>Contents that grow\<close>

lemma entryStart_append [simp]: "i \<le> length es \<Longrightarrow> entryStart (es @ fs) i = entryStart es i"
  by (simp add: entryStart_def)

lemma chained_snoc:
  assumes "chained (gs @ [(g, es)])" "base_sn g' = base_sn g" "seg_id g' = seg_id g"
  shows "chained (gs @ [(g', fs)])"
  using assms
proof (induction gs)
  case (Cons x gs)
  then show ?case by (cases x; cases gs) (auto split: prod.splits)
qed simp

lemma before_last:
  assumes "chained (pre @ [(g, es)])" "(f, fs) \<in> set pre"
  shows "base_sn f + int (length fs) \<le> base_sn g \<and> seg_id f < seg_id g"
proof -
  obtain cs ds where "pre = cs @ (f, fs) # ds" using split_list [OF assms(2)] by blast
  then show ?thesis using chained_after [of cs f fs "ds @ [(g, es)]" g es] assms(1) by simp
qed

lemma pointsTo_cases:
  assumes "pointsTo gs r"
  obtains (entry) g es i where "(g, es) \<in> set gs" "i < length es" "sp_sn r = base_sn g + int i" "sp_file_position r = packed g (entryStart es i)"
    | (left_over) "\<forall>(g, es) \<in> set gs. sp_sn r < base_sn g \<and> sp_file_position r < packed g 0"
  using assms unfolding pointsTo_def by blast

lemma pointsTo_entry:
  "(g, es) \<in> set gs \<Longrightarrow> i < length es \<Longrightarrow> sp_sn r = base_sn g + int i \<Longrightarrow>
    sp_file_position r = packed g (entryStart es i) \<Longrightarrow> pointsTo gs r"
  unfolding pointsTo_def by blast

lemma pointsTo_grown:
  assumes "pointsTo (pre @ [(g, es)]) r" "base_sn g' = base_sn g" "seg_id g' = seg_id g"
  shows "pointsTo (pre @ [(g', es @ fs)]) r"
  using assms(1)
proof (cases rule: pointsTo_cases)
  case (entry h hs i)
  show ?thesis
  proof (cases "(h, hs) \<in> set pre")
    case True
    then show ?thesis using entry by (intro pointsTo_entry [of h hs]) auto
  next
    case False
    then have "h = g" "hs = es" using entry(1) by auto
    then show ?thesis using entry assms(2,3) by (intro pointsTo_entry [of g' "es @ fs" _ i]) (simp_all add: packed_def)
  qed
next
  case left_over
  then show ?thesis using assms(2,3) by (auto simp: pointsTo_def packed_def)
qed

lemma index_below_end:
  assumes ch: "chained (pre @ [(g, es)])" and h: "\<forall>(g, es) \<in> set (pre @ [(g, es)]). holds s g es"
    and pt: "pointsTo (pre @ [(g, es)]) r"
  shows "sp_sn r < base_sn g + int (length es) \<and> sp_file_position r < packed g (length (logBytes es))"
  using pt
proof (cases rule: pointsTo_cases)
  case (entry f fs i)
  show ?thesis
  proof (cases "(f, fs) \<in> set pre")
    case True
    then have lt: "base_sn f + int (length fs) \<le> base_sn g" "seg_id f < seg_id g" using before_last [OF ch] by simp_all
    have "holds s f fs" using h True by auto
    then have "entryStart fs i < 2 ^ 36" using holdsD(7) entryStart_le [of fs i] by (meson le_less_trans)
    then have "packed f (entryStart fs i) < packed g 0" using lt(2) by (simp add: packed_def)
    then show ?thesis using entry lt(1) by (simp add: packed_def)
  next
    case False
    then have "f = g" "fs = es" using entry(1) by auto
    then show ?thesis using entry entryStart_less [of i "length es" es] by (simp add: packed_def)
  qed
next
  case left_over
  then show ?thesis by (auto simp: packed_def)
qed

section \<open>The invariant\<close>

abbreviation posOk :: "Loglet \<Rightarrow> filesys \<Rightarrow> SequencePosition list \<Rightarrow> bool" where
  "posOk l s \<equiv> mapOk SequencePosition_ops valid_SequencePosition (posBase (log_dir l)) (sn_pos_index l) s"

abbreviation tsOk :: "Loglet \<Rightarrow> filesys \<Rightarrow> TimestampSequence list \<Rightarrow> bool" where
  "tsOk l s \<equiv> mapOk TimestampSequence_ops valid_TimestampSequence (tsBase (log_dir l)) (event_ts_sn_index l) s"

text \<open>No file is where the next segments will be.\<close>

definition freshAbove :: "string \<Rightarrow> nat \<Rightarrow> filesys \<Rightarrow> bool" where
  "freshAbove d n s \<longleftrightarrow> (\<forall>i b. n < i \<longrightarrow> content s (logFile d i b []) = None)"

definition loglet_inv :: "Loglet \<Rightarrow> filesys \<Rightarrow> contents \<Rightarrow> SequencePosition list \<Rightarrow> bool" where
  "loglet_inv l s gs idx \<longleftrightarrow> log_rel l s gs idx \<and> (\<forall>(g, es) \<in> set gs. named (log_dir l) g)
     \<and> posOk l s idx \<and> (\<exists>ts. tsOk l s ts) \<and> valid_TimestampSequence (max_etimestamp_and_sn_so_far l)
     \<and> freshAbove (log_dir l) (seg_id (fst (last gs))) s"

definition loglet_room :: "nat \<Rightarrow> Loglet \<Rightarrow> bool" where
  "loglet_room k l \<longleftrightarrow> mapRoom k (sn_pos_index l) \<and> mapRoom k (event_ts_sn_index l)"

lemma index_relI:
  assumes "mapOk SequencePosition_ops valid_SequencePosition base m s idx"
    and "keys_ascend (\<lambda>r. int (sp_file_position r)) idx" "\<forall>r \<in> set idx. pointsTo gs r"
  shows "index_rel m s gs idx"
  using assms by (auto simp: index_rel_def mapOk_def)

definition outsideIndexes :: "string \<Rightarrow> filesys \<Rightarrow> filesys \<Rightarrow> bool" where
  "outsideIndexes d s s' \<longleftrightarrow> (\<forall>p. p \<notin> mapFiles (posBase d) \<union> mapFiles (tsBase d) \<longrightarrow> content s' p = content s p)"

text \<open>The files of the epoch index, which the loglet does not know of, are left alone.\<close>

definition epochSame :: "string \<Rightarrow> filesys \<Rightarrow> filesys \<Rightarrow> bool" where
  "epochSame d s s' \<longleftrightarrow> (\<forall>p \<in> mapFiles (epochBase d). content s' p = content s p)"

lemma epochSame_refl [simp]: "epochSame d s s"
  by (simp add: epochSame_def)

lemma epochSame_trans: "epochSame d s s1 \<Longrightarrow> epochSame d s1 s2 \<Longrightarrow> epochSame d s s2"
  by (simp add: epochSame_def)

lemma epochSame_indexes: "outsideIndexes d s s' \<Longrightarrow> epochSame d s s'"
  using index_files_disjoint [of d] by (auto simp: outsideIndexes_def epochSame_def)

lemma epochSame_upd: "content s' = (content s)(logFile d i b sfx \<mapsto> c) \<Longrightarrow> epochSame d s s'"
  using logFile_outside(3) [of d i b sfx] by (auto simp: epochSame_def)

lemma onTs_ok:
  assumes ts: "tsOk l s ts" and pos: "posOk l s idx" and q: "outcomes s = []" and room: "mapRoom (Suc k) (event_ts_sn_index l)"
    and v: "valid_TimestampSequence t"
  shows "\<exists>b m s' ts'. onTs (TimestampSequenceIndex_maybeIndex t sync) (l, s) = (Ret (okR b), (l\<lparr>event_ts_sn_index := m\<rparr>, s'))
    \<and> outcomes s' = [] \<and> mapOk TimestampSequence_ops valid_TimestampSequence (tsBase (log_dir l)) m s' ts'
    \<and> posOk l s' idx \<and> elsewhere (tsBase (log_dir l)) s s' \<and> mapRoom k m"
proof -
  from ts.maybeIndex_ok [OF ts q v room, of sync] obtain b m s' ts' where
    r: "maybeIndex TimestampSequence_ops t sync (event_ts_sn_index l, s) = (Ret (okR b), (m, s'))" "outcomes s' = []"
    "mapOk TimestampSequence_ops valid_TimestampSequence (tsBase (log_dir l)) m s' ts'" "elsewhere (tsBase (log_dir l)) s s'"
    "mapRoom k m" by blast
  have "posOk l s' idx"
    using pos by (rule mapOk_frame) (use r(4) index_files_disjoint(1) in \<open>auto simp: elsewhere_def\<close>)
  with r show ?thesis
    by (intro exI [of _ b] exI [of _ m] exI [of _ s'] exI [of _ ts'])
      (simp add: onTs_def onPart_def TimestampSequenceIndex_maybeIndex_def)
qed

lemma index_position_ok:
  assumes ts: "tsOk l s ts" and pos: "posOk l s idx" and q: "outcomes s = []" and room: "loglet_room (Suc k) l"
    and v: "valid_TimestampSequence (max_etimestamp_and_sn_so_far l)" "int64 sn" "seg_id g < 2 ^ 28" "p < 2 ^ 36"
    and above: "\<forall>r \<in> set idx. sp_sn r < sn"
  shows "\<exists>m1 m2 s' ts'. index_position g p sn (l, s) = (Ret (),
      (l\<lparr>event_ts_sn_index := m1, sn_pos_index := m2, bytes_since_last_index_entry := 0\<rparr>, s'))
    \<and> outcomes s' = [] \<and> mapOk TimestampSequence_ops valid_TimestampSequence (tsBase (log_dir l)) m1 s' ts'
    \<and> mapOk SequencePosition_ops valid_SequencePosition (posBase (log_dir l)) m2 s'
        (idx @ [\<lparr>sp_sn = sn, sp_file_position = packed g p\<rparr>])
    \<and> outsideIndexes (log_dir l) s s' \<and> mapRoom k m1 \<and> mapRoom k m2"
proof -
  let ?r = "\<lparr>sp_sn = sn, sp_file_position = packed g p\<rparr>"
  have rm: "mapRoom (Suc k) (event_ts_sn_index l)" "mapRoom (Suc k) (sn_pos_index l)" using room by (simp_all add: loglet_room_def)
  obtain b m1 s1 ts1 where t: "onTs (TimestampSequenceIndex_maybeIndex (max_etimestamp_and_sn_so_far l) True) (l, s)
      = (Ret (okR b), (l\<lparr>event_ts_sn_index := m1\<rparr>, s1))" "outcomes s1 = []"
    "mapOk TimestampSequence_ops valid_TimestampSequence (tsBase (log_dir l)) m1 s1 ts1" "posOk l s1 idx"
    "elsewhere (tsBase (log_dir l)) s s1" "mapRoom k m1"
    using onTs_ok [OF ts pos q rm(1) v(1), of True] by blast
  have "packed g p < 2 ^ 64" using v(3,4) by (simp add: packed_def)
  then have valid: "valid_SequencePosition ?r" using v(2) by (simp add: valid_SequencePosition_def)
  from sp.maybeIndex_ok [OF t(4,2) valid rm(2), of True] above obtain m2 s2 where
    u: "maybeIndex SequencePosition_ops ?r True (sn_pos_index l, s1) = (Ret (okR True), (m2, s2))" "outcomes s2 = []"
    "mapOk SequencePosition_ops valid_SequencePosition (posBase (log_dir l)) m2 s2 (idx @ [?r])"
    "elsewhere (posBase (log_dir l)) s1 s2" "mapRoom k m2" by auto
  have "mapOk TimestampSequence_ops valid_TimestampSequence (tsBase (log_dir l)) m1 s2 ts1"
    using t(3) by (rule mapOk_frame) (use u(4) index_files_disjoint(1) in \<open>auto simp: elsewhere_def\<close>)
  moreover have "outsideIndexes (log_dir l) s s2" using t(5) u(4) by (simp add: outsideIndexes_def elsewhere_def)
  moreover have "index_position g p sn (l, s) = (Ret (),
      (l\<lparr>event_ts_sn_index := m1, sn_pos_index := m2, bytes_since_last_index_entry := 0\<rparr>, s2))"
    using t(1) u(1) unat_globalSegmentFilePosition [OF v(3,4)]
    by (simp add: index_position_def onSnPos_def onPart_def SequencePositionIndex_maybeIndex_def packed_def)
  ultimately show ?thesis using u(2,3,5) t(6) by blast
qed

section \<open>Appending to the active segment\<close>

lemma holds_frame:
  "holds s g es \<Longrightarrow> content s' (fd (fle_file (seg_log g))) = content s (fd (fle_file (seg_log g))) \<Longrightarrow> holds s' g es"
  by (simp add: holds_def segOf_def entriesOf_def)

lemma append_batch_quiet:
  assumes "outcomes s = []" "content s (fd a) = Some bs" "length batch \<le> IOV_MAX"
  shows "append_batch a batch (length (concat batch)) s
    = (Ret (okR (length (concat batch))), setContent (fd a) (bs @ concat batch) s)"
  using assms by (simp add: append_batch_def append_batch_loop.simps sys_writev_def sys_write_def granted_def)

definition enlarge :: "LogSegment \<Rightarrow> Entry list \<Rightarrow> LogSegment" where
  "enlarge g fs = g\<lparr>seg_log := (seg_log g)\<lparr>fle_bytes := seg_size g + length (logBytes fs)\<rparr>\<rparr>"

lemma enlarge_sel [simp]: "seg_id (enlarge g fs) = seg_id g" "base_sn (enlarge g fs) = base_sn g"
  "fle_file (seg_log (enlarge g fs)) = fle_file (seg_log g)" "seg_size (enlarge g fs) = seg_size g + length (logBytes fs)"
  "named d (enlarge g fs) \<longleftrightarrow> named d g"
  by (simp_all add: enlarge_def seg_size_def named_def)

text \<open>What may be appended: whole entries that follow the last one and fit into the segment.\<close>

definition appendable :: "contents \<Rightarrow> Entry list \<Rightarrow> bool" where
  "appendable gs fs \<longleftrightarrow> fs \<noteq> [] \<and> contiguous (logStart gs + int (length (logEntries gs))) fs
     \<and> (\<forall>e \<in> set fs. wfEntry e \<and> metaFits e) \<and> length (logBytes (snd (last gs) @ fs)) < 2 ^ 36"

lemma holds_enlarge:
  assumes h: "holds s g es" and fs: "contiguous (base_sn g + int (length es)) fs" "\<forall>e \<in> set fs. wfEntry e \<and> metaFits e"
    and size: "length (logBytes (es @ fs)) < 2 ^ 36" and c: "content s' (fd (fle_file (seg_log g))) = Some (logBytes (es @ fs))"
  shows "holds s' (enlarge g fs) (es @ fs)"
  using h fs size c by (auto simp: holds_def segOf_def entriesOf_def enlarge_def seg_size_def)

lemma concat_entryBytes: "concat (map entryBytes fs) = logBytes fs"
  by (simp add: logBytes_def)

lemma seg_append_batch_quiet:
  assumes q: "outcomes s = []" and h: "holds s g es" and n: "length fs \<le> IOV_MAX"
  shows "seg_append_batch g (map entryBytes fs) (length (logBytes fs)) s
    = (Ret (okR (length (logBytes fs)), enlarge g fs), setContent (fd (fle_file (seg_log g))) (logBytes (es @ fs)) s)"
  using append_batch_quiet [OF q, of "fle_file (seg_log g)" "logBytes es" "map entryBytes fs"] holdsD(1) [OF h] n
  by (simp add: seg_append_batch_def append_entries_def concat_entryBytes recode_def enlarge_def seg_size_def)

lemma seg_append_quiet:
  assumes q: "outcomes s = []" and h: "holds s g es"
  shows "seg_append g (entryBytes e) s = ((okR (length (entryBytes e)), enlarge g [e]),
    setContent (fd (fle_file (seg_log g))) (logBytes (es @ [e])) s)"
  using append_file_quiet [OF q, of "fle_file (seg_log g)" "logBytes es" "entryBytes e"] holdsD(1) [OF h]
  by (simp add: seg_append_def append_entry_def recode_def enlarge_def seg_size_def entryBytes_eq)

lemma active_last:
  assumes "log_rel l s (pre @ [(g, es)]) idx"
  shows "activeSegment (segments l) = Some g"
proof -
  have "map snd (segments l) = map fst pre @ [g]" using assms by (simp add: log_rel_def allSegments_def)
  then obtain xs x where "segments l = xs @ [x]" "snd x = g" by (cases "segments l" rule: rev_cases) auto
  then show ?thesis by (simp add: activeSegment_def lastSegment_def)
qed

lemma put_same:
  assumes "segs_wf xs" "g \<in> snd ` set xs"
  shows "segs_put g xs = xs"
proof -
  have "(base_sn g, g) \<in> set xs" using assms by (auto simp: segs_wf_def)
  moreover have "distinct (map fst xs)" by (rule segs_wf_distinct [OF assms(1)])
  ultimately have "(if fst x = base_sn g then (fst x, g) else x) = x" if "x \<in> set xs" for x
    using that eq_key_imp_eq_value [of xs "base_sn g" g "snd x"] by (cases x) auto
  then show ?thesis unfolding segs_put_def by (intro map_idI)
qed

lemma put_last:
  assumes rel: "log_rel l s (pre @ [(g, es)]) idx" and b: "base_sn g' = base_sn g"
  shows "allSegments (segs_put g' (segments l)) = map fst pre @ [g']" "segs_wf (segs_put g' (segments l))"
proof -
  have wf: "segs_wf (segments l)" and segs: "map snd (segments l) = map fst pre @ [g]"
    using rel by (simp_all add: log_rel_def allSegments_def)
  from wf show "segs_wf (segs_put g' (segments l))" by (rule segs_wf_put)
  obtain xs x where x: "segments l = xs @ [x]" using segs by (cases "segments l" rule: rev_cases) auto
  then have "snd x = g" "map snd xs = map fst pre" using segs by simp_all
  moreover have "fst x = base_sn g" "\<forall>y \<in> set xs. fst y \<noteq> base_sn g"
    using wf x \<open>snd x = g\<close> by (auto simp: segs_wf_def sorted_wrt_append)
  ultimately show "allSegments (segs_put g' (segments l)) = map fst pre @ [g']"
    using b x by (simp add: segs_put_def allSegments_def comp_def) (smt (verit) map_eq_conv snd_conv)
qed

lemma file_of_other_segment:
  assumes rel: "log_rel l s gs idx" and named: "\<forall>(g, es) \<in> set gs. named d g"
    and "(g, es) \<in> set gs" "(h, fs) \<in> set gs" "fd (fle_file (seg_log g)) = fd (fle_file (seg_log h))"
  shows "(g, es) = (h, fs)"
proof -
  have "named d g" "named d h" using named assms(3,4) by auto
  then have "seg_id g = seg_id h" using assms(5) by (auto simp: named_def dest: logFile_inject)
  then show ?thesis using same_segment [OF _ assms(3,4)] rel by (simp add: log_rel_def)
qed

text \<open>The index of the longer log: the old records, and one for the first new entry if it was time for it.\<close>

lemma index_rel_grown:
  assumes rel: "log_rel l s (pre @ [(g, es)]) idx" and fs: "fs \<noteq> []"
    and pos: "mapOk SequencePosition_ops valid_SequencePosition base m s' idx'"
    and idx': "idx' = idx \<or> idx' = idx @ [\<lparr>sp_sn = base_sn g + int (length es), sp_file_position = packed g (seg_size g)\<rparr>]"
  shows "index_rel m s' (pre @ [(enlarge g fs, es @ fs)]) idx'"
proof -
  have h: "\<forall>(g, es) \<in> set (pre @ [(g, es)]). holds s g es" and ch: "chained (pre @ [(g, es)])"
    and ix: "index_rel (sn_pos_index l) s (pre @ [(g, es)]) idx" using rel by (simp_all add: log_rel_def)
  have size: "seg_size g = length (logBytes es)" using h holdsD(2) by auto
  have below: "sp_file_position r < packed g (seg_size g)" if "r \<in> set idx" for r
    using index_below_end [OF ch h] ix that size by (auto simp: index_rel_def)
  have "keys_ascend (\<lambda>r. int (sp_file_position r)) idx'"
    using idx' below ix by (auto simp: index_rel_def keys_ascend_append keys_ascend_Cons)
  moreover have "pointsTo (pre @ [(enlarge g fs, es @ fs)]) r" if "r \<in> set idx" for r
    using ix that pointsTo_grown [of pre g es r "enlarge g fs"] by (simp add: index_rel_def)
  moreover have "pointsTo (pre @ [(enlarge g fs, es @ fs)])
      \<lparr>sp_sn = base_sn g + int (length es), sp_file_position = packed g (seg_size g)\<rparr>"
    using fs size by (intro pointsTo_entry [of "enlarge g fs" "es @ fs" _ "length es"]) (auto simp: packed_def)
  ultimately show ?thesis using idx' by (intro index_relI [OF pos]) auto
qed

lemma loglet_inv_grown:
  assumes inv: "loglet_inv l s0 (pre @ [(g, es)]) idx" and app: "appendable (pre @ [(g, es)]) fs"
    and s: "content s = (content s0)(fd (fle_file (seg_log g)) \<mapsto> logBytes (es @ fs))" "outsideIndexes (log_dir l) s s'"
    and l': "segments l' = segs_put (enlarge g fs) (segments l)" "next_sn_meta l' = endMeta (enlarge g fs, es @ fs)"
      "log_dir l' = log_dir l" "valid_TimestampSequence (max_etimestamp_and_sn_so_far l')"
    and maps: "tsOk l' s' ts" "posOk l' s' idx'"
    and idx': "idx' = idx \<or> idx' = idx @ [\<lparr>sp_sn = base_sn g + int (length es), sp_file_position = packed g (seg_size g)\<rparr>]"
  shows "loglet_inv l' s' (pre @ [(enlarge g fs, es @ fs)]) idx'"
proof -
  let ?gs = "pre @ [(enlarge g fs, es @ fs)]" and ?d = "log_dir l"
  have rel: "log_rel l s0 (pre @ [(g, es)]) idx" and nm: "\<forall>(g, es) \<in> set (pre @ [(g, es)]). named ?d g"
    using inv by (simp_all add: loglet_inv_def)
  have h: "\<forall>(g, es) \<in> set (pre @ [(g, es)]). holds s0 g es" and ch: "chained (pre @ [(g, es)])"
    using rel by (simp_all add: log_rel_def)
  have same: "content s' (fd (fle_file (seg_log h))) = content s (fd (fle_file (seg_log h)))" if "named ?d h" for h
    using s(2) that by (simp add: outsideIndexes_def named_def)
  have "holds s' h hs" if hs: "(h, hs) \<in> set pre" for h hs
  proof -
    have "h \<noteq> g" using before_last [OF ch hs] by auto
    then have "fd (fle_file (seg_log h)) \<noteq> fd (fle_file (seg_log g))"
      using file_of_other_segment [OF rel nm, of h hs g es] that by auto
    moreover have "holds s0 h hs" "named ?d h" using h nm that by auto
    ultimately show ?thesis using same s(1) holds_frame [of s0 h hs s'] by simp
  qed
  moreover have "holds s' (enlarge g fs) (es @ fs)"
  proof (rule holds_enlarge)
    show "holds s0 g es" using h by simp
    show "contiguous (base_sn g + int (length es)) fs"
      using app entry_position [OF ch] by (simp add: appendable_def algebra_simps)
    show "content s' (fd (fle_file (seg_log g))) = Some (logBytes (es @ fs))" using same [of g] nm s(1) by simp
  qed (use app in \<open>simp_all add: appendable_def\<close>)
  ultimately have "log_rel l' s' ?gs idx'"
    using put_last [OF rel, of "enlarge g fs"] chained_snoc [OF ch] l'(1,2) app
      index_rel_grown [OF rel _ maps(2) idx', of fs]
    by (auto simp: log_rel_def appendable_def)
  moreover have "freshAbove ?d (seg_id g) s'"
    using inv s nm by (auto simp: loglet_inv_def freshAbove_def outsideIndexes_def named_def dest: logFile_inject)
  ultimately show ?thesis using nm l'(3,4) maps by (auto simp: loglet_inv_def)
qed

lemma appended_sns:
  assumes ch: "chained (pre @ [(g, es)])" and app: "appendable (pre @ [(g, es)]) fs"
  shows "e_sn (hd fs) = base_sn g + int (length es)" "e_sn (last fs) + 1 = base_sn g + int (length (es @ fs))"
proof -
  have c: "contiguous (base_sn g + int (length es)) fs" "fs \<noteq> []"
    using app entry_position [OF ch] by (simp_all add: appendable_def algebra_simps)
  then show "e_sn (hd fs) = base_sn g + int (length es)" by (cases fs) simp_all
  show "e_sn (last fs) + 1 = base_sn g + int (length (es @ fs))" using contiguous_last [OF c] by simp
qed

text \<open>
  The end of an append: from a state in which the segment and its file have grown but the rest of the
  loglet has not followed, \<^verbatim>\<open>account_append\<close> leads to one that holds the longer log.
\<close>

lemma account_append_ok:
  assumes inv: "loglet_inv l s0 gs idx" and gs: "gs = pre @ [(g, es)]" and q: "outcomes s = []" and room: "loglet_room (Suc k) l"
    and app: "appendable gs fs" and s: "content s = (content s0)(fd (fle_file (seg_log g)) \<mapsto> logBytes (es @ fs))"
    and v: "valid_TimestampSequence mts" and sns: "first_sn = e_sn (hd fs)" "last_sn = e_sn (last fs)"
  defines "l1 \<equiv> l\<lparr>segments := segs_put (enlarge g fs) (segments l)\<rparr>"
  shows "\<exists>l' s' idx'. account_append (enlarge g fs) (seg_size g) written start_of_log first_sn last_sn mts (l1, s) = (Ret (), (l', s'))
    \<and> outcomes s' = [] \<and> loglet_inv l' s' (pre @ [(enlarge g fs, es @ fs)]) idx'
    \<and> log_dir l' = log_dir l \<and> log_config l' = log_config l \<and> deletions l' = deletions l \<and> loglet_room k l'
    \<and> outsideIndexes (log_dir l) s s'"
proof -
  let ?g = "enlarge g fs" and ?d = "log_dir l" and ?rec = "\<lparr>sp_sn = first_sn, sp_file_position = packed g (seg_size g)\<rparr>"
  note inv' = inv [unfolded gs] and app' = app [unfolded gs]
  have rel: "log_rel l s0 (pre @ [(g, es)]) idx" and nm: "named ?d g" and pos0: "posOk l s0 idx"
    and vm: "valid_TimestampSequence (max_etimestamp_and_sn_so_far l)" using inv' by (simp_all add: loglet_inv_def)
  obtain ts where ts0: "tsOk l s0 ts" using inv' by (auto simp: loglet_inv_def)
  have h: "\<forall>(g, es) \<in> set (pre @ [(g, es)]). holds s0 g es" and ch: "chained (pre @ [(g, es)])"
    and ix: "index_rel (sn_pos_index l) s0 (pre @ [(g, es)]) idx" using rel by (simp_all add: log_rel_def)
  have hg: "holds s0 g es" using h by simp
  have first: "first_sn = base_sn g + int (length es)" and last: "last_sn + 1 = base_sn g + int (length (es @ fs))"
    using appended_sns [OF ch app'] sns by simp_all
  define l2 where "l2 = l1\<lparr>max_etimestamp_and_sn_so_far :=
       (if ts_timestamp (max_etimestamp_and_sn_so_far l1) < ts_timestamp mts then mts else max_etimestamp_and_sn_so_far l1),
     unflushed_bytes := unflushed_bytes l1 + int written,
     bytes_since_last_index_entry := add64 (bytes_since_last_index_entry l1) written\<rparr>"
  have l2: "log_dir l2 = ?d" "sn_pos_index l2 = sn_pos_index l" "event_ts_sn_index l2 = event_ts_sn_index l"
    "valid_TimestampSequence (max_etimestamp_and_sn_so_far l2)" "loglet_room (Suc k) l2"
    "segments l2 = segs_put ?g (segments l)" "log_config l2 = log_config l" "deletions l2 = deletions l"
    using v vm room by (simp_all add: l2_def l1_def loglet_room_def)
  have maps: "tsOk l2 s ts" "posOk l2 s idx"
    using mapOk_upd [OF ts0 s] mapOk_upd [OF pos0 s] nm l2 by (simp_all add: named_def)
  define fin where "fin = updateNextLogSequence (last_sn + 1) (base_sn ?g) (seg_size ?g)"
  have fin: "next_sn_meta (fin l3) = endMeta (?g, es @ fs)" "segments (fin l3) = segments l3" "log_dir (fin l3) = log_dir l3"
    "max_etimestamp_and_sn_so_far (fin l3) = max_etimestamp_and_sn_so_far l3" "event_ts_sn_index (fin l3) = event_ts_sn_index l3"
    "sn_pos_index (fin l3) = sn_pos_index l3" "log_config (fin l3) = log_config l3" "deletions (fin l3) = deletions l3" for l3
    using last holdsD(2) [OF hg] by (simp_all add: fin_def updateNextLogSequence_def endMeta_def)
  let ?due = "index_interval_bytes (log_config l2) \<le> bytes_since_last_index_entry l2 \<or> start_of_log"
  have run: "account_append ?g (seg_size g) written start_of_log first_sn last_sn mts (l1, s)
      = bindE (if ?due then index_position ?g (seg_size g) first_sn else retE ()) (\<lambda>_. modM fin) (l2, s)"
    by (simp add: account_append_def l2_def fin_def)
  show ?thesis
  proof (cases ?due)
    case True
    have "int64 first_sn" using sns(1) app' by (cases fs) (auto simp: appendable_def wfEntry_def)
    moreover have "\<forall>r \<in> set idx. sp_sn r < first_sn" using index_below_end [OF ch h] ix first by (auto simp: index_rel_def)
    ultimately obtain m1 m2 s' ts' where i: "index_position ?g (seg_size g) first_sn (l2, s) = (Ret (),
        (l2\<lparr>event_ts_sn_index := m1, sn_pos_index := m2, bytes_since_last_index_entry := 0\<rparr>, s'))" "outcomes s' = []"
      "mapOk TimestampSequence_ops valid_TimestampSequence (tsBase ?d) m1 s' ts'"
      "mapOk SequencePosition_ops valid_SequencePosition (posBase ?d) m2 s' (idx @ [?rec])" "outsideIndexes ?d s s'" "mapRoom k m1" "mapRoom k m2"
      using index_position_ok [OF maps q l2(5,4), of first_sn ?g "seg_size g"] holdsD(2,6,7) [OF hg] l2(1)
      by (simp add: packed_def) blast
    let ?l3 = "l2\<lparr>event_ts_sn_index := m1, sn_pos_index := m2, bytes_since_last_index_entry := 0\<rparr>"
    have "loglet_inv (fin ?l3) s' (pre @ [(?g, es @ fs)]) (idx @ [?rec])"
      by (rule loglet_inv_grown [OF inv' app' s i(5), where ts = ts']) (use i(3,4) l2 first in \<open>simp_all add: fin\<close>)
    then show ?thesis using run True i(1,2,5-7) l2 by (intro exI) (auto simp: fin loglet_room_def)
  next
    case False
    have "loglet_inv (fin l2) s (pre @ [(?g, es @ fs)]) idx"
      by (rule loglet_inv_grown [OF inv' app' s, where ts = ts]) (use maps l2 in \<open>simp_all add: fin outsideIndexes_def\<close>)
    then show ?thesis using run False q l2 by (intro exI) (auto simp: fin loglet_room_def mapRoom_mono outsideIndexes_def)
  qed
qed

text \<open>Both appends make the log longer by the entries they are given.\<close>

definition keeps :: "Loglet \<Rightarrow> Loglet \<Rightarrow> bool" where
  "keeps l l' \<longleftrightarrow> log_dir l' = log_dir l \<and> log_config l' = log_config l \<and> deletions l' = deletions l"

lemma logEntries_grown:
  "logEntries (pre @ [(enlarge g fs, es @ fs)]) = logEntries (pre @ [(g, es)]) @ fs"
  "logStart (pre @ [(enlarge g fs, es @ fs)]) = logStart (pre @ [(g, es)])"
  by simp (cases pre; simp add: logStart_def)

lemma loglet_append_batch_ok:
  assumes inv: "loglet_inv l s gs idx" and q: "outcomes s = []" and room: "loglet_room (Suc k) l" and app: "appendable gs fs"
    and n: "length fs \<le> IOV_MAX" and v: "valid_TimestampSequence mts" and batch: "map e_sn batch = map e_sn fs"
  shows "\<exists>l' s' gs' idx'. loglet_append_batch batch (map entryBytes fs) (length (logBytes fs)) mts (l, s)
      = (Ret (okR (length (logBytes fs))), (l', s')) \<and> outcomes s' = [] \<and> loglet_inv l' s' gs' idx' \<and> keeps l l' \<and> loglet_room k l'
    \<and> gs' = butlast gs @ [(enlarge (fst (last gs)) fs, snd (last gs) @ fs)] \<and> epochSame (log_dir l) s s'"
proof -
  have "gs \<noteq> []" using inv by (simp add: loglet_inv_def log_rel_def)
  then obtain pre g es where gs: "gs = pre @ [(g, es)]" by (cases gs rule: rev_cases) auto
  have rel: "log_rel l s (pre @ [(g, es)]) idx" using inv gs by (simp add: loglet_inv_def)
  then have hg: "holds s g es" by (auto simp: log_rel_def)
  let ?s = "setContent (fd (fle_file (seg_log g))) (logBytes (es @ fs)) s"
  let ?l = "l\<lparr>segments := segs_put (enlarge g fs) (segments l)\<rparr>"
  have fs: "fs \<noteq> []" using app by (simp add: appendable_def)
  moreover have ne: "batch \<noteq> []" using fs batch by auto
  ultimately have b: "e_sn (hd batch) = e_sn (hd fs)" "e_sn (last batch) = e_sn (last fs)"
    using arg_cong [OF batch, of hd] arg_cong [OF batch, of last] by (simp_all add: hd_map last_map)
  have c: "content ?s = (content s)(fd (fle_file (seg_log g)) \<mapsto> logBytes (es @ fs))" "outcomes ?s = []" using q by simp_all
  from account_append_ok [OF inv gs c(2) room app c(1) v b, of "length (logBytes fs)" "seg_size g = 0"]
  obtain l' s' idx' where r: "account_append (enlarge g fs) (seg_size g) (length (logBytes fs)) (seg_size g = 0)
      (e_sn (hd batch)) (e_sn (last batch)) mts (?l, ?s) = (Ret (), (l', s'))" "outcomes s' = []"
    "loglet_inv l' s' (pre @ [(enlarge g fs, es @ fs)]) idx'" "keeps l l'" "loglet_room k l'" "outsideIndexes (log_dir l) ?s s'"
    by (auto simp: keeps_def)
  have "named (log_dir l) g" using inv gs by (simp add: loglet_inv_def)
  then have e: "epochSame (log_dir l) s s'"
    using c(1) r(6) by (intro epochSame_trans [OF epochSame_upd epochSame_indexes]) (simp_all add: named_def)
  have "loglet_append_batch batch (map entryBytes fs) (length (logBytes fs)) mts (l, s) = (Ret (okR (length (logBytes fs))), (l', s'))"
    using active_last [OF rel] seg_append_batch_quiet [OF q hg n] ne r(1)
    by (simp add: loglet_append_batch_def getActive_def putSegment_def Let_def)
  then show ?thesis using r(2-5) gs e by auto
qed

lemma loglet_inv_split:
  assumes "loglet_inv l s gs idx"
  obtains pre g es where "gs = pre @ [(g, es)]" "log_rel l s (pre @ [(g, es)]) idx" "holds s g es" "named (log_dir l) g"
proof -
  have "gs \<noteq> []" using assms by (simp add: loglet_inv_def log_rel_def)
  then obtain pre g es where gs: "gs = pre @ [(g, es)]" by (cases gs rule: rev_cases) auto
  moreover have "log_rel l s (pre @ [(g, es)]) idx" "named (log_dir l) g" using assms gs by (simp_all add: loglet_inv_def)
  ultimately show thesis using that by (auto simp: log_rel_def)
qed

lemma loglet_append_ok:
  assumes inv: "loglet_inv l s gs idx" and q: "outcomes s = []" and room: "loglet_room (Suc k) l" and app: "appendable gs [e]"
  shows "\<exists>l' s' gs' idx'. loglet_append (entryBytes e) (storedEntry e) (l, s)
      = (Ret (okR (length (entryBytes e))), (l', s')) \<and> outcomes s' = [] \<and> loglet_inv l' s' gs' idx' \<and> keeps l l' \<and> loglet_room k l'
    \<and> gs' = butlast gs @ [(enlarge (fst (last gs)) [e], snd (last gs) @ [e])] \<and> epochSame (log_dir l) s s'"
proof -
  obtain pre g es where gs: "gs = pre @ [(g, es)]" and rel: "log_rel l s (pre @ [(g, es)]) idx" and hg: "holds s g es"
    using loglet_inv_split [OF inv] .
  let ?s = "setContent (fd (fle_file (seg_log g))) (logBytes (es @ [e])) s"
  let ?l = "l\<lparr>segments := segs_put (enlarge g [e]) (segments l)\<rparr>"
  let ?t = "\<lparr>ts_timestamp = e_max_event_timestamp e, ts_sn = e_sn e\<rparr>"
  have c: "content ?s = (content s)(fd (fle_file (seg_log g)) \<mapsto> logBytes (es @ [e]))" "outcomes ?s = []" using q by simp_all
  have "wfEntry e" using app by (simp add: appendable_def)
  then have v: "valid_TimestampSequence ?t" by (simp add: wfEntry_def valid_TimestampSequence_def)
  have sns: "e_sn e = e_sn (hd [e])" "e_sn e = e_sn (last [e])" by simp_all
  from account_append_ok [OF inv gs c(2) room app c(1) v sns, of "length (entryBytes e)" "e_sn e = LogStartSN"]
  obtain l' s' idx' where r: "account_append (enlarge g [e]) (seg_size g) (length (entryBytes e)) (e_sn e = LogStartSN)
      (e_sn e) (e_sn e) ?t (?l, ?s) = (Ret (), (l', s'))" "outcomes s' = []"
    "loglet_inv l' s' (pre @ [(enlarge g [e], es @ [e])]) idx'" "keeps l l'" "loglet_room k l'" "outsideIndexes (log_dir l) ?s s'"
    unfolding keeps_def by blast
  have "named (log_dir l) g" using inv gs by (simp add: loglet_inv_def)
  then have ep: "epochSame (log_dir l) s s'"
    using c(1) r(6) by (intro epochSame_trans [OF epochSame_upd epochSame_indexes]) (simp_all add: named_def)
  have "loglet_append (entryBytes e) (storedEntry e) (l, s) = (Ret (okR (length (entryBytes e))), (l', s'))"
    using active_last [OF rel] seg_append_quiet [OF q hg, of e] r(1)
    by (simp add: loglet_append_def getActive_def putSegment_def Let_def del: length_entryBytes)
  then show ?thesis using r(2-5) gs ep by (intro exI conjI) simp_all
qed

section \<open>Flushing and rolling\<close>

definition synced :: "LogSegment \<Rightarrow> LogSegment" where
  "synced g = g\<lparr>last_sync_offset := seg_size g\<rparr>"

lemma synced_sel [simp]: "seg_id (synced g) = seg_id g" "base_sn (synced g) = base_sn g" "seg_log (synced g) = seg_log g"
  "seg_size (synced g) = seg_size g" "named d (synced g) \<longleftrightarrow> named d g" "holds s (synced g) es \<longleftrightarrow> holds s g es"
  by (simp_all add: synced_def seg_size_def named_def holds_def segOf_def)

lemma synced_twice [simp]: "synced (synced g) = synced g"
  by (simp add: synced_def seg_size_def)

lemma seg_flush_quiet:
  assumes "outcomes s = []" "holds s g es"
  shows "seg_flush g inc s = ((OK, synced g), s)"
  using assms holdsD(1) [OF assms(2)] by (simp add: seg_flush_def syncTail_file_def sync_file_def synced_def)

lemma pointsTo_synced:
  "pointsTo (pre @ (g, es) # post) r \<Longrightarrow> pointsTo (pre @ (synced g, es) # post) r"
  by (auto simp: pointsTo_def packed_def)

lemma chained_synced: "chained (pre @ [(g, es)]) \<Longrightarrow> chained (pre @ [(synced g, es)])"
  by (erule chained_snoc) simp_all

lemma flushActiveSegment_ok:
  assumes inv: "loglet_inv l s gs idx" and q: "outcomes s = []"
  shows "\<exists>l'. flushActiveSegment (l, s) = (Ret OK, (l', s)) \<and> keeps l l'
    \<and> sn_pos_index l' = sn_pos_index l \<and> event_ts_sn_index l' = event_ts_sn_index l
    \<and> loglet_inv l' s (butlast gs @ [(synced (fst (last gs)), snd (last gs))]) idx
    \<and> last_flushed_sn l' = nextLogSequence l \<and> unflushed_bytes l' = 0"
proof -
  obtain pre g es where gs: "gs = pre @ [(g, es)]" and rel: "log_rel l s (pre @ [(g, es)]) idx" and hg: "holds s g es"
    using loglet_inv_split [OF inv] .
  let ?l = "l\<lparr>segments := segs_put (synced g) (segments l), last_flushed_sn := nextLogSequence l, unflushed_bytes := 0,
    last_flushed_ms := clock s\<rparr>"
  have ch: "chained (pre @ [(g, es)])" using rel by (simp add: log_rel_def)
  have run: "flushActiveSegment (l, s) = (Ret OK, (?l, s))"
    using active_last [OF rel] seg_flush_quiet [OF q hg]
    by (simp add: flushActiveSegment_def getActive_def putSegment_def)
  have "index_rel (sn_pos_index l) s (pre @ [(g, es)]) idx" using rel by (simp add: log_rel_def)
  then have "index_rel (sn_pos_index ?l) s (pre @ [(synced g, es)]) idx"
    unfolding index_rel_def using pointsTo_synced [of pre g es "[]"] by simp
  moreover have "\<forall>(h, hs) \<in> set (pre @ [(synced g, es)]). holds s h hs" using rel by (simp add: log_rel_def)
  moreover have "next_sn_meta ?l = endMeta (synced g, es)" using rel by (simp add: log_rel_def endMeta_def)
  ultimately have "log_rel ?l s (pre @ [(synced g, es)]) idx"
    using put_last [OF rel, of "synced g"] chained_synced [OF ch] by (simp add: log_rel_def)
  then have "loglet_inv ?l s (pre @ [(synced g, es)]) idx" using inv gs by (simp add: loglet_inv_def)
  then show ?thesis using run gs by (intro exI [of _ ?l]) (simp add: keeps_def)
qed

text \<open>
  A roll syncs the active segment and adds the next one behind it. A segment without entries is replaced: the
  new one has the same base sequence.
\<close>

definition rolled :: "string \<Rightarrow> contents \<Rightarrow> contents" where
  "rolled d gs = (let (g, es) = last gs in
     (if es = [] then butlast gs else butlast gs @ [(synced g, es)])
     @ [(segmentOf d (seg_id g + 1) (base_sn g + int (length es)) [], [])])"

lemma newLogSegment_quiet:
  assumes "outcomes s = []" "content s (logFile d i b []) = None"
  shows "newLogSegment d i b False [] s = (Ret (segmentOf d i b []), setContent (logFile d i b []) [] s)"
  using assms size_file_quiet [of "setContent (logFile d i b []) [] s" "\<lparr>filename = logFile d i b [], read_only = False, fd = logFile d i b []\<rparr>" "[]"]
  by (simp add: newLogSegment_def open_entries_def openFile_def sys_open_def exists_file_def O_CREAT_of_fileOpenFlags_def
      newFileLogEntries_def segmentOf_def)

lemma named_segmentOf [simp]: "named d (segmentOf d i b es)"
  by (simp add: named_def segmentOf_def)

lemma map_insert_end: "\<forall>x \<in> set xs. fst x < k \<Longrightarrow> map_insert k v xs = xs @ [(k, v)]"
  by (induction xs) auto

lemma map_insert_last: "\<forall>x \<in> set xs. fst x < k \<Longrightarrow> map_insert k v (xs @ [(k, w)]) = xs @ [(k, v)]"
  by (induction xs) auto

lemma add_last:
  assumes rel: "log_rel l s (pre @ [(g, es)]) idx" and b: "base_sn h = base_sn g + int (length es)"
  shows "allSegments (segs_add h (segments l)) = map fst (if es = [] then pre else pre @ [(g, es)]) @ [h]"
    "segs_wf (segs_add h (segments l))"
proof -
  have wf: "segs_wf (segments l)" and segs: "map snd (segments l) = map fst pre @ [g]"
    using rel by (simp_all add: log_rel_def allSegments_def)
  from wf show "segs_wf (segs_add h (segments l))" by (rule segs_wf_add)
  obtain xs x where x: "segments l = xs @ [x]" using segs by (cases "segments l" rule: rev_cases) auto
  then have g: "snd x = g" "map snd xs = map fst pre" using segs by simp_all
  have "fst x = base_sn g" and below: "\<forall>y \<in> set xs. fst y < base_sn g"
    using wf x g(1) by (auto simp: segs_wf_def sorted_wrt_append)
  then have xs: "segments l = xs @ [(base_sn g, g)]" using x g(1) by (cases x) simp
  show "allSegments (segs_add h (segments l)) = map fst (if es = [] then pre else pre @ [(g, es)]) @ [h]"
  proof (cases "es = []")
    case True
    then show ?thesis using below b g(2) by (simp add: xs segs_add_def map_insert_last allSegments_def)
  next
    case False
    then have "\<forall>y \<in> set (segments l). fst y < base_sn h" using below b xs by fastforce
    then show ?thesis using False g(2) by (simp add: segs_add_def map_insert_end) (simp add: allSegments_def xs)
  qed
qed

lemma chained_roll:
  assumes ch: "chained (pre @ [(g, es)])" and h: "base_sn h = base_sn g + int (length es)" "seg_id h = seg_id g + 1"
  shows "chained ((if es = [] then pre else pre @ [(synced g, es)]) @ [(h, [])])"
  using ch
proof (induction pre)
  case Nil
  then show ?case using h by simp
next
  case (Cons x pre)
  from Cons.IH [OF chained_Cons] Cons.prems show ?case using h by (cases x; cases pre) auto
qed

lemma pointsTo_roll:
  assumes pt: "pointsTo (pre @ [(g, es)]) r" and ch: "chained (pre @ [(g, es)])" and s: "\<forall>(g, es) \<in> set (pre @ [(g, es)]). holds s g es"
    and h: "base_sn h = base_sn g + int (length es)" "seg_id h = seg_id g + 1"
  shows "pointsTo ((if es = [] then pre else pre @ [(synced g, es)]) @ [(h, [])]) r"
  using pt
proof (cases rule: pointsTo_cases)
  case (entry f fs i)
  show ?thesis
  proof (cases "(f, fs) \<in> set pre")
    case True
    then show ?thesis using entry by (intro pointsTo_entry [of f fs _ i]) auto
  next
    case False
    then have "f = g" "fs = es" using entry(1) by auto
    then show ?thesis using entry by (intro pointsTo_entry [of "synced g" es _ i]) (auto simp: packed_def)
  qed
next
  case left_over
  then have "sp_sn r < base_sn h \<and> sp_file_position r < packed h 0" using h by (auto simp: packed_def)
  then show ?thesis using left_over by (auto simp: pointsTo_def packed_def)
qed

lemma holds_segmentOf_new: "content s (logFile d i b []) = Some [] \<Longrightarrow> i < 2 ^ 28 \<Longrightarrow> holds s (segmentOf d i b []) []"
  by (simp add: holds_def segOf_def entriesOf_def segmentOf_def)

lemma loglet_inv_rolled:
  assumes inv: "loglet_inv l s (pre @ [(synced g, es)]) idx" and id: "seg_id g + 1 < 2 ^ 28"
    and s': "elsewhere (tsBase (log_dir l)) s s1"
      "content s' = (content s1)(logFile (log_dir l) (seg_id g + 1) (base_sn g + int (length es)) [] \<mapsto> [])"
    and l': "segments l' = segs_add (segmentOf (log_dir l) (seg_id g + 1) (base_sn g + int (length es)) []) (segments l)"
      "next_sn_meta l' = endMeta (segmentOf (log_dir l) (seg_id g + 1) (base_sn g + int (length es)) [], [])"
      "log_dir l' = log_dir l" "max_etimestamp_and_sn_so_far l' = max_etimestamp_and_sn_so_far l"
    and maps: "tsOk l' s1 ts" "posOk l' s1 idx"
  shows "loglet_inv l' s' (rolled (log_dir l) (pre @ [(g, es)])) idx"
proof -
  let ?d = "log_dir l" and ?h = "segmentOf (log_dir l) (seg_id g + 1) (base_sn g + int (length es)) []"
  let ?f = "logFile ?d (seg_id g + 1) (base_sn g + int (length es)) []"
  have rel: "log_rel l s (pre @ [(synced g, es)]) idx" and nm: "\<forall>(g, es) \<in> set (pre @ [(synced g, es)]). named ?d g"
    and fresh: "freshAbove ?d (seg_id g) s" and vm: "valid_TimestampSequence (max_etimestamp_and_sn_so_far l)"
    using inv by (simp_all add: loglet_inv_def)
  have hs: "\<forall>(g, es) \<in> set (pre @ [(synced g, es)]). holds s g es" and ch: "chained (pre @ [(synced g, es)])"
    and ix: "index_rel (sn_pos_index l) s (pre @ [(synced g, es)]) idx" using rel by (simp_all add: log_rel_def)
  have r: "rolled ?d (pre @ [(g, es)]) = (if es = [] then pre else pre @ [(synced g, es)]) @ [(?h, [])]"
    by (simp add: rolled_def)
  have files: "content s' (logFile ?d i b []) = content s (logFile ?d i b [])" if "i \<noteq> seg_id g + 1" for i b
    using s' that by (auto simp: elsewhere_def dest: logFile_inject)
  have "holds s' f fs" if "(f, fs) \<in> set (pre @ [(synced g, es)])" for f fs
  proof -
    have "seg_id f \<noteq> seg_id g + 1" using that before_last [OF ch, of f fs] by auto
    moreover have "named ?d f" "holds s f fs" using nm hs that by auto
    ultimately show ?thesis using files holds_frame [of s f fs s'] by (simp add: named_def)
  qed
  moreover from this [of "synced g" es] have "holds s' g es" by simp
  moreover have "holds s' ?h []" using s'(2) id by (intro holds_segmentOf_new) simp_all
  moreover have "mapOk SequencePosition_ops valid_SequencePosition (posBase ?d) (sn_pos_index l') s' idx"
    "mapOk TimestampSequence_ops valid_TimestampSequence (tsBase ?d) (event_ts_sn_index l') s' ts"
    using mapOk_upd [OF maps(2) s'(2)] mapOk_upd [OF maps(1) s'(2)] l'(3) by simp_all
  moreover have "freshAbove ?d (seg_id ?h) s'" using fresh files by (simp add: freshAbove_def)
  moreover have "index_rel (sn_pos_index l') s' (rolled ?d (pre @ [(g, es)])) idx"
  proof (rule index_relI)
    show "mapOk SequencePosition_ops valid_SequencePosition (posBase ?d) (sn_pos_index l') s' idx" by fact
    show "\<forall>r \<in> set idx. pointsTo (rolled ?d (pre @ [(g, es)])) r"
    proof
      fix a
      assume "a \<in> set idx"
      then have "pointsTo (pre @ [(synced g, es)]) a" using ix by (simp add: index_rel_def)
      from pointsTo_roll [OF this ch hs, of ?h] show "pointsTo (rolled ?d (pre @ [(g, es)])) a"
        unfolding r by (cases "es = []") simp_all
    qed
  qed (use ix in \<open>simp add: index_rel_def\<close>)
  ultimately show ?thesis
    using add_last [OF rel, of ?h] chained_roll [OF ch, of ?h] l' nm vm unfolding r
    by (auto simp: loglet_inv_def log_rel_def)
qed

lemma loglet_roll_ok:
  assumes inv: "loglet_inv l s gs idx" and q: "outcomes s = []" and room: "loglet_room (Suc k) l"
    and id: "seg_id (fst (last gs)) + 1 < 2 ^ 28"
    and next_sn: "(case expected of None \<Rightarrow> 0 | Some n \<Rightarrow> n) \<le> nextLogSequence l"
  shows "\<exists>l' s'. loglet_roll expected (l, s) = (Ret (okR (Some (fst (last (rolled (log_dir l) gs))))), (l', s')) \<and> outcomes s' = []
    \<and> loglet_inv l' s' (rolled (log_dir l) gs) idx \<and> keeps l l' \<and> loglet_room k l' \<and> epochSame (log_dir l) s s'
    \<and> last_flushed_sn l' = nextLogSequence l - 1 \<and> unflushed_bytes l' = 0"
proof -
  obtain pre g es where gs: "gs = pre @ [(g, es)]" and rel0: "log_rel l s (pre @ [(g, es)]) idx"
    using loglet_inv_split [OF inv] by metis
  let ?d = "log_dir l" and ?b = "base_sn g + int (length es)"
  from flushActiveSegment_ok [OF inv q] gs obtain l1 where
    f: "flushActiveSegment (l, s) = (Ret OK, (l1, s))" "keeps l l1" "sn_pos_index l1 = sn_pos_index l"
    "event_ts_sn_index l1 = event_ts_sn_index l" "loglet_inv l1 s (pre @ [(synced g, es)]) idx"
    "last_flushed_sn l1 = nextLogSequence l" "unflushed_bytes l1 = 0" by auto
  have dir: "log_dir l1 = ?d" using f(2) by (simp add: keeps_def)
  have rel: "log_rel l1 s (pre @ [(synced g, es)]) idx" and vm: "valid_TimestampSequence (max_etimestamp_and_sn_so_far l1)"
    and pos: "posOk l1 s idx" and nm: "\<forall>(g, es) \<in> set (pre @ [(synced g, es)]). named ?d g"
    and fresh: "freshAbove ?d (seg_id g) s"
    using f(5) dir by (simp_all add: loglet_inv_def)
  obtain ts where ts: "tsOk l1 s ts" using f(5) by (auto simp: loglet_inv_def)
  have rm: "mapRoom (Suc k) (event_ts_sn_index l1)" "mapRoom k (sn_pos_index l1)"
    using room f(3,4) by (simp_all add: loglet_room_def mapRoom_mono)
  obtain b m1 s1 ts1 where t: "onTs (TimestampSequenceIndex_maybeIndex (max_etimestamp_and_sn_so_far l1) True) (l1, s)
      = (Ret (okR b), (l1\<lparr>event_ts_sn_index := m1\<rparr>, s1))" "outcomes s1 = []"
    "mapOk TimestampSequence_ops valid_TimestampSequence (tsBase ?d) m1 s1 ts1" "posOk l1 s1 idx"
    "elsewhere (tsBase ?d) s s1" "mapRoom k m1"
    using onTs_ok [OF ts pos q rm(1) vm, of True] dir by auto
  let ?h = "segmentOf ?d (seg_id g + 1) ?b []" and ?f = "logFile ?d (seg_id g + 1) ?b []"
  let ?l2 = "l1\<lparr>event_ts_sn_index := m1, segments := segs_add ?h (segments l1)\<rparr>"
  let ?l3 = "updateNextLogSequence (nextLogSequence ?l2) (base_sn ?h) (seg_size ?h) ?l2"
  have sn: "nextLogSequence l1 = ?b" using rel by (simp add: log_rel_def nextLogSequence_def endMeta_def)
  moreover have sn0: "nextLogSequence l = ?b" using rel0 by (simp add: log_rel_def nextLogSequence_def endMeta_def)
  ultimately have mx: "max (case expected of None \<Rightarrow> 0 | Some n \<Rightarrow> n) (nextLogSequence l1) = ?b" using next_sn by simp
  have "content s1 ?f = None" using fresh t(5) by (simp add: freshAbove_def elsewhere_def)
  from newLogSegment_quiet [OF t(2) this]
  have run: "loglet_roll expected (l, s) = (Ret (okR (Some ?h)), (?l3, setContent ?f [] s1))"
    using f(1) active_last [OF rel] t(1) mx dir by (simp add: loglet_roll_def getActive_def Let_def nextLogSequence_def)
  have "loglet_inv ?l3 (setContent ?f [] s1) (rolled (log_dir l1) (pre @ [(g, es)])) idx"
    by (rule loglet_inv_rolled [OF f(5), of s1 _ _ ts1])
      (use t dir id gs sn in \<open>simp_all add: updateNextLogSequence_def endMeta_def nextLogSequence_def segmentOf_def seg_size_def\<close>)
  moreover have "fst (last (rolled ?d gs)) = ?h" by (simp add: rolled_def gs)
  moreover have "keeps l ?l3" "loglet_room k ?l3" using f(2) rm(2) t(6) by (simp_all add: keeps_def updateNextLogSequence_def loglet_room_def)
  moreover have "last_flushed_sn ?l3 = nextLogSequence l - 1" "unflushed_bytes ?l3 = 0"
    using f(6,7) sn sn0 by (simp_all add: updateNextLogSequence_def nextLogSequence_def)
  moreover have "epochSame ?d s (setContent ?f [] s1)"
  proof (rule epochSame_trans)
    show "epochSame ?d s s1" using t(5) index_files_disjoint [of ?d] by (auto simp: elsewhere_def epochSame_def)
    show "epochSame ?d s1 (setContent ?f [] s1)" by (rule epochSame_upd) simp
  qed
  ultimately show ?thesis
    using run t(2) dir gs by (intro exI [of _ ?l3] exI [of _ "setContent ?f [] s1"]) simp
qed

text \<open>A failing sync ends the roll before anything has changed.\<close>

lemma loglet_roll_unsynced:
  assumes inv: "loglet_inv l s gs idx" and o: "outcomes s = Fail e # cs" "e \<noteq> 0"
  shows "loglet_roll expected (l, s) = (Ret (errR None CANNOT_FLUSH_FILE), (l, s\<lparr>outcomes := cs\<rparr>))"
proof -
  obtain pre g es where gs: "gs = pre @ [(g, es)]" and rel: "log_rel l s (pre @ [(g, es)]) idx" and hg: "holds s g es"
    using loglet_inv_split [OF inv] .
  have "exists_file (s\<lparr>outcomes := cs\<rparr>) (fd (fle_file (seg_log g)))"
    using holdsD(1) [OF hg] by (simp add: exists_file_def content_def)
  then have f: "seg_flush g i s = ((CANNOT_FLUSH_FILE, g), s\<lparr>outcomes := cs\<rparr>)" for i
    using o by (simp add: seg_flush_def syncTail_file_def sync_file_def sys_call_def nextOutcome_def)
  have "segs_put g (segments l) = segments l" 
  proof (rule put_same)
    show "segs_wf (segments l)" using rel by (simp add: log_rel_def)
    have "map fst (pre @ [(g, es)]) = map snd (segments l)" using rel by (simp add: log_rel_def allSegments_def)
    from arg_cong [OF this, of set] show "g \<in> snd ` set (segments l)" by auto
  qed
  then show ?thesis using active_last [OF rel] f by (simp add: loglet_roll_def flushActiveSegment_def getActive_def putSegment_def)
qed

section \<open>Properties\<close>

lemma loglet_inv_entries:
  assumes "loglet_inv l s gs idx"
  shows "nextLogSequence l = logStart gs + int (length (logEntries gs))"
  by (rule end_of_log [of l s gs idx]) (use assms in \<open>simp add: loglet_inv_def\<close>)

lemma rolled_entries:
  assumes "chained gs" "gs \<noteq> []"
  shows "logEntries (rolled d gs) = logEntries gs" "logStart (rolled d gs) = logStart gs"
proof -
  obtain pre g es where gs: "gs = pre @ [(g, es)]" using assms(2) by (cases gs rule: rev_cases) auto
  show "logEntries (rolled d gs) = logEntries gs" by (simp add: gs rolled_def)
  show "logStart (rolled d gs) = logStart gs" by (cases pre) (simp_all add: gs rolled_def logStart_def)
qed

text \<open>The loglet in use keeps the invariant too.\<close>

lemma demo_fresh: "freshAbove ''d'' 2 demoLogFs"
  unfolding freshAbove_def
proof (intro allI impI)
  fix i b
  assume i: "2 < (i :: nat)"
  have "logFile ''d'' i b [] \<noteq> logFile ''d'' 1 1 []" "logFile ''d'' i b [] \<noteq> logFile ''d'' 2 4 []" using i by (auto dest: logFile_inject)
  moreover have "logFile ''d'' i b [] \<noteq> ''d/sn-pos.idx''" "logFile ''d'' i b [] \<noteq> ''d/ts-sn.idx''" "logFile ''d'' i b [] \<noteq> ''d/epoch-sn.idx''"
    using logFile_outside [of "''d''" i b "[]"] by (auto simp: mapFiles_def posBase_def tsBase_def epochBase_def)
  ultimately show "content demoLogFs (logFile ''d'' i b []) = None" by (simp add: demoLogFs_def content_def)
qed

lemma demo_loglet_inv: "loglet_inv demoLoglet demoLogFs demoContents demoIndex" "loglet_room 9 demoLoglet"
proof -
  have "map_rel TimestampSequence_ops valid_TimestampSequence ''d/ts-sn.idx'' (loadedMap TimestampSequence_ops ''d/ts-sn.idx'' []) demoLogFs [] []"
    by (rule map_rel_loadedMap) (simp_all add: demoFiles)
  then have ts: "tsOk demoLoglet demoLogFs []"
    by (intro mapOkI [of _ _ _ _ _ "[]" "[]"]) (simp_all add: demoLoglet_def tsBase_def loadedMap_def)
  have "map_rel SequencePosition_ops valid_SequencePosition ''d/sn-pos.idx'' (loadedMap SequencePosition_ops ''d/sn-pos.idx'' demoIndex) demoLogFs [] demoIndex"
    by (rule map_rel_loadedMap [OF demoFiles(3)]) (simp_all add: demoIndex_def keys_ascend_def valid_SequencePosition_def int64_def)
  then have pos: "posOk demoLoglet demoLogFs demoIndex"
    by (intro mapOkI [of _ _ _ _ _ "[]" demoIndex]) (simp_all add: demoLoglet_def posBase_def loadedMap_def)
  show "loglet_inv demoLoglet demoLogFs demoContents demoIndex"
    using demo_log_rel(1) ts pos demo_fresh
    by (auto simp: loglet_inv_def demoLoglet_def demoContents_def valid_TimestampSequence_def int64_def)
  show "loglet_room 9 demoLoglet" by (simp add: loglet_room_def mapRoom_def nextSegmentID_def demoLoglet_def loadedMap_def)
qed

definition demoBatch :: "Entry list" where "demoBatch = [demoEntry 5 [1], demoEntry 6 [2, 3]]"

lemma demoBatch_appendable: "appendable demoContents demoBatch"
proof -
  have "metaFits (demoEntry 5 [1])" "metaFits (demoEntry 6 [2, 3])" by code_simp+
  moreover have "length (logBytes (demoTail @ demoBatch)) < 2 ^ 36"
    using demoTail_facts(3) length_entryBytes_le [of "demoEntry 5 [1]"] length_entryBytes_le [of "demoEntry 6 [2, 3]"]
    by (simp add: demoBatch_def) (simp add: demoEntry_def)
  moreover have "contiguous 5 demoBatch" "demoBatch \<noteq> []" by (simp_all add: demoBatch_def demoEntry_def)
  moreover have "wfEntry (demoEntry 5 [1])" "wfEntry (demoEntry 6 [2, 3])" by (simp_all add: demoEntry_wf)
  moreover have "snd (last demoContents) = demoTail" by (simp add: demoContents_def)
  ultimately show ?thesis by (simp add: appendable_def demo_entries) (simp add: demoBatch_def)
qed

text \<open>
  Property C9: \<^verbatim>\<open>Loglet::append\<close> of a batch to a loglet in a consistent state: the log it holds
  afterwards is the log it held before with the entries of the batch behind it, in a state that is
  consistent again, with the next sequence, the file, the recorded size and the index following.
\<close>

theorem loglet_append_extends_log:
  assumes "loglet_inv l s gs idx" "outcomes s = []" "loglet_room (Suc k) l" "appendable gs fs" "length fs \<le> IOV_MAX"
    and "valid_TimestampSequence mts"
  shows "\<exists>l' s' gs' idx'. loglet_append_batch (map storedEntry fs) (map entryBytes fs) (length (logBytes fs)) mts (l, s)
      = (Ret (okR (length (logBytes fs))), (l', s'))
    \<and> loglet_inv l' s' gs' idx' \<and> outcomes s' = []
    \<and> logEntries gs' = logEntries gs @ fs \<and> logStart gs' = logStart gs \<and> nextLogSequence l' = nextLogSequence l + int (length fs)"
proof -
  from loglet_append_batch_ok [OF assms, of "map storedEntry fs"] obtain l' s' gs' idx' where
    r: "loglet_append_batch (map storedEntry fs) (map entryBytes fs) (length (logBytes fs)) mts (l, s) = (Ret (okR (length (logBytes fs))), (l', s'))"
    "outcomes s' = []" "loglet_inv l' s' gs' idx'" "gs' = butlast gs @ [(enlarge (fst (last gs)) fs, snd (last gs) @ fs)]" by auto
  obtain pre g es where gs: "gs = pre @ [(g, es)]" using loglet_inv_split [OF assms(1)] by metis
  then have "logEntries gs' = logEntries gs @ fs" "logStart gs' = logStart gs" using r(4) logEntries_grown [of pre g fs es] by simp_all
  then show ?thesis using r(1-3) loglet_inv_entries [OF assms(1)] loglet_inv_entries [OF r(3)]
    by (intro exI [of _ l'] exI [of _ s'] exI [of _ gs'] exI [of _ idx'] conjI) simp_all
qed

theorem loglet_append_extends_log_witness:
  "\<exists>l' s' gs' idx'. loglet_append_batch (map storedEntry demoBatch) (map entryBytes demoBatch) (length (logBytes demoBatch))
      \<lparr>ts_timestamp = 7, ts_sn = 5\<rparr> (demoLoglet, demoLogFs) = (Ret (okR (length (logBytes demoBatch))), (l', s'))
    \<and> loglet_inv l' s' gs' idx' \<and> logEntries gs' = demoLog @ demoTail @ demoBatch"
  using loglet_append_extends_log [OF demo_loglet_inv(1) demo_log_rel(2) _ demoBatch_appendable, of 8 "\<lparr>ts_timestamp = 7, ts_sn = 5\<rparr>"]
    demo_loglet_inv(2)
  by (auto simp: demoBatch_def IOV_MAX_def valid_TimestampSequence_def int64_def demo_entries)



end
