(* ===== verification/Nlog_Log_Store.thy ===== *)
theory Nlog_Log_Store
  imports Nlog_Log Nlog_Loglet_Append
begin

text \<open>
  The log as a store of entries: the loglet, the cache of its tail, the epoch index and the committed
  sequence in one invariant, \<open>log_inv\<close>, which \<^verbatim>\<open>Log::append\<close>, \<^verbatim>\<open>Log::appendLocal\<close> and \<^verbatim>\<open>Log::fetch\<close> keep.
  A fetch returns the same entries whether the cache or the files serve it, and a reader of the log
  gets everything that was appended. The logs meant here are those on disk.
\<close>

section \<open>Hints\<close>

text \<open>A hint that names the start of an entry, or the end of a segment.\<close>

definition hintAt :: "contents \<Rightarrow> FetchHint \<Rightarrow> bool" where
  "hintAt gs h \<longleftrightarrow> (\<exists>(g, es) \<in> set gs. \<exists>i \<le> length es. fh_sn h = base_sn g + int i
     \<and> fh_segment_base_sn h = base_sn g \<and> fh_file_position h = entryStart es i)"

lemma hintAtI:
  "(g, es) \<in> set gs \<Longrightarrow> i \<le> length es \<Longrightarrow> fh_sn h = base_sn g + int i \<Longrightarrow> fh_segment_base_sn h = base_sn g \<Longrightarrow>
    fh_file_position h = entryStart es i \<Longrightarrow> hintAt gs h"
  unfolding hintAt_def by blast

lemma hintAtE:
  assumes "hintAt gs h"
  obtains g es i where "(g, es) \<in> set gs" "i \<le> length es" "fh_sn h = base_sn g + int i"
    "fh_segment_base_sn h = base_sn g" "fh_file_position h = entryStart es i"
  using assms unfolding hintAt_def by blast

lemma hintAt_grown:
  assumes "hintAt (pre @ [(g, es)]) h" "base_sn g' = base_sn g"
  shows "hintAt (pre @ [(g', es @ fs)]) h"
proof (rule hintAtE [OF assms(1)])
  fix f hs i
  assume f: "(f, hs) \<in> set (pre @ [(g, es)])" "i \<le> length hs" "fh_sn h = base_sn f + int i"
    "fh_segment_base_sn h = base_sn f" "fh_file_position h = entryStart hs i"
  show ?thesis
  proof (cases "(f, hs) \<in> set pre")
    case True
    then show ?thesis using f by (intro hintAtI [of f hs _ i]) simp_all
  next
    case False
    then show ?thesis using f assms(2) by (intro hintAtI [of g' "es @ fs" _ i]) simp_all
  qed
qed

lemma hintAt_rolled:
  assumes "hintAt gs h" "gs \<noteq> []"
  shows "hintAt (rolled d gs) h"
proof -
  obtain pre g es where gs: "gs = pre @ [(g, es)]" using assms(2) by (cases gs rule: rev_cases) auto
  from assms(1) show ?thesis
  proof (rule hintAtE)
    fix f fs i
    assume f: "(f, fs) \<in> set gs" "i \<le> length fs" "fh_sn h = base_sn f + int i"
      "fh_segment_base_sn h = base_sn f" "fh_file_position h = entryStart fs i"
    consider "(f, fs) \<in> set pre" | "f = g" "fs = es" "es \<noteq> []" | "f = g" "fs = es" "es = []" using f(1) gs by auto
    then show ?thesis
    proof cases
      case 1
      then show ?thesis using f by (intro hintAtI [of f fs _ i]) (simp_all add: rolled_def gs)
    next
      case 2
      then show ?thesis using f by (intro hintAtI [of "synced g" es _ i]) (simp_all add: rolled_def gs)
    next
      case 3
      then show ?thesis using f
        by (intro hintAtI [of "segmentOf d (seg_id g + 1) (base_sn g) []" "[]" _ 0]) (simp_all add: rolled_def gs segmentOf_def)
    qed
  qed
qed

lemma goodHint_hintAt:
  assumes rel: "log_rel l s gs idx" and h: "hintAt gs h"
  shows "goodHint gs (fh_sn h) (Some h)"
proof (rule goodHintI)
  fix f fs k
  assume f: "(f, fs) \<in> set gs" "k < length fs" "fh_sn h = base_sn f + int k"
  obtain g es i where g: "(g, es) \<in> set gs" "i \<le> length es" "fh_sn h = base_sn g + int i"
    "fh_segment_base_sn h = base_sn g" "fh_file_position h = entryStart es i" by (rule hintAtE [OF h])
  show "validateFetchHint f (fh_sn h) (Some h) \<in> {None, Some (entryStart fs k)}"
  proof (cases "base_sn g = base_sn f")
    case True
    then have "g = f" "es = fs" using bases_distinct [OF rel g(1) f(1)] by simp_all
    then show ?thesis using f(3) g by (simp add: validateFetchHint_def)
  next
    case False
    then show ?thesis using g(4) by (simp add: validateFetchHint_def)
  qed
qed

section \<open>The invariant\<close>

abbreviation epochOk :: "Log \<Rightarrow> filesys \<Rightarrow> EpochSequence list \<Rightarrow> bool" where
  "epochOk x s \<equiv> mapOk EpochSequence_ops valid_EpochSequence (epochBase (log_dir (lg_loglet x))) (epoch_sn_index x) s"

text \<open>
  The cache holds the tail of what was ever appended: retention does not look at it, so it may reach
  back behind the start of the log, by entries \<open>old\<close> whose segments are gone.
\<close>

definition cacheOk :: "contents \<Rightarrow> LogEntryCache \<Rightarrow> bool" where
  "cacheOk gs c \<longleftrightarrow>
     (\<exists>old. cacheTail (lc_max c) (logStart gs - int (length old)) (old @ map storedEntry (logEntries gs)) c)
     \<and> (\<forall>y \<in> set (lc_entries c). logStart gs < fh_sn (cm_hint y) \<longrightarrow> hintAt gs (cm_hint y))"

text \<open>What reading needs, and what appending needs beside it.\<close>

definition log_core :: "Log \<Rightarrow> filesys \<Rightarrow> contents \<Rightarrow> SequencePosition list \<Rightarrow> bool" where
  "log_core x s gs idx \<longleftrightarrow> loglet_inv (lg_loglet x) s gs idx \<and> \<not> log_isInmemory x \<and> cacheOk gs (lg_cached x)
     \<and> lg_start_sn x = logStart gs \<and> LogStartSN \<le> logStart gs \<and> committed_sn x < log_nextLogSequence x
     \<and> committed_epoch x \<le> 1"

definition log_inv :: "Log \<Rightarrow> filesys \<Rightarrow> contents \<Rightarrow> SequencePosition list \<Rightarrow> bool" where
  "log_inv x s gs idx \<longleftrightarrow> log_core x s gs idx \<and> (\<exists>xs. epochOk x s xs)"

lemma log_inv_core: "log_inv x s gs idx \<Longrightarrow> log_core x s gs idx"
  by (simp add: log_inv_def)

text \<open>
  What is left of the numbers of index files and of the segment ids, which have 64 and 28 bits, lasts
  for \<open>k\<close> more appends; a segment position has 36 bits.
\<close>

definition log_room :: "nat \<Rightarrow> Log \<Rightarrow> contents \<Rightarrow> bool" where
  "log_room k x gs \<longleftrightarrow> loglet_room (2 * k) (lg_loglet x) \<and> mapRoom k (epoch_sn_index x)
     \<and> seg_id (fst (last gs)) + k < 2 ^ 28 \<and> segment_size (lgConfig x) < 2 ^ 36"

section \<open>Fetching\<close>

text \<open>The first sequence a fetch does not return.\<close>

definition fetchEnd :: "FetchIsolation \<Rightarrow> Log \<Rightarrow> int" where
  "fetchEnd isolation x = (case isolation of Committed \<Rightarrow> committed_sn x + 1 | LogEnd \<Rightarrow> log_nextLogSequence x)"

lemma onLoglet_eq: "p (lg_loglet x, s) = (r, (l, s')) \<Longrightarrow> onLoglet p (x, s) = (r, (x\<lparr>lg_loglet := l\<rparr>, s'))"
  by (simp add: onLoglet_def onPart_def)

lemma onEpoch_eq: "p (epoch_sn_index x, s) = (r, (m, s')) \<Longrightarrow> onEpoch p (x, s) = (r, (x\<lparr>epoch_sn_index := m\<rparr>, s'))"
  by (simp add: onEpoch_def onPart_def)

lemma getActive_log:
  assumes "log_rel (lg_loglet x) s gs idx"
  shows "onLoglet getActive (x, s) = (Ret (fst (last gs)), (x, s))"
proof -
  obtain pre g es where gs: "gs = pre @ [(g, es)]" using assms by (cases gs rule: rev_cases) (auto simp: log_rel_def)
  then have "getActive (lg_loglet x, s) = (Ret g, (lg_loglet x, s))" using active_last [of "lg_loglet x" s pre g es idx] assms
    by (simp add: getActive_def)
  then show ?thesis by (simp add: onLoglet_def onPart_def gs)
qed

lemma nextSequenceMetadata_ok:
  assumes "log_rel (lg_loglet x) s gs idx"
  shows "\<exists>meta. nextSequenceMetadata isolation (x, s) = (Ret meta, (x, s)) \<and> entry_sn meta = fetchEnd isolation x \<and> goodEnd gs meta"
proof (cases isolation)
  case Committed
  then show ?thesis using getActive_log [OF assms]
    by (simp add: nextSequenceMetadata_def activeBase_def fetchEnd_def goodEnd_def split: prod.splits)
next
  case LogEnd
  then show ?thesis using goodEnd_end [OF assms]
    by (simp add: nextSequenceMetadata_def fetchEnd_def nextLogSequenceMetadata_def log_nextLogSequence_def nextLogSequence_def)
qed

lemma loglet_inv_queried:
  assumes inv: "loglet_inv l s gs idx" and rel: "log_rel l' s gs idx" and q: "queried l l'"
  shows "loglet_inv l' s gs idx"
proof -
  obtain m where l': "l' = l\<lparr>sn_pos_index := m\<rparr>" and same: "same_but_segs (sn_pos_index l) m" using q by (auto simp: queried_def)
  note E = same_but_segsD [OF same]
  obtain base fulls cur where m: "map_rel SequencePosition_ops valid_SequencePosition base m s fulls cur"
    "idx = concat fulls @ cur" "cur \<noteq> [] \<or> fulls = []" using rel l' by (auto simp: log_rel_def index_rel_def)
  have pos: "posOk l s idx" using inv by (simp add: loglet_inv_def)
  then have "filename (pm_log_file (sn_pos_index l)) = posBase (log_dir l)" by (auto simp: mapOk_def dest: map_relD(1))
  moreover have "filename (pm_log_file m) = base" using map_relD(1) [OF m(1)] by simp
  ultimately have "base = posBase (log_dir l)" using E(2) by simp
  then have "posOk l' s idx" using m pos E(4) l' by (intro mapOkI [of _ _ _ _ _ fulls cur]) (simp_all add: mapOk_def)
  then show ?thesis using inv rel l' by (simp add: loglet_inv_def)
qed

lemma cache_serves_contents:
  assumes c: "cacheOk gs c" and mem: "\<exists>e \<in> set (cachedEntries c). e_sn e = sn" and sn: "sn = logStart gs + int i"
    and fin: "sn < fin" "fin \<le> logStart gs + int (length (logEntries gs))" and sz: "0 < max_size"
  shows "\<exists>r n. cache_fetch c sn fin max_size False = Ret (r, False) \<and> 0 < n \<and> sn + int n \<le> fin
    \<and> fetch_entries r = map storedEntry (take n (drop i (logEntries gs))) \<and> fetch_entries r \<noteq> []
    \<and> fh_sn (fetch_hint r) = sn + int n \<and> hintAt gs (fetch_hint r)"
proof -
  let ?log = "map storedEntry (logEntries gs)" and ?d = "nat (fin - sn)"
  obtain old where tail: "cacheTail (lc_max c) (logStart gs - int (length old)) (old @ ?log) c" using c by (auto simp: cacheOk_def)
  then have "contiguous (logStart gs - int (length old)) (old @ ?log)" by (simp add: cacheTail_def)
  moreover have "nat (sn - (logStart gs - int (length old))) = i + length old" using sn by simp
  ultimately have f: "filter (\<lambda>e. sn \<le> e_sn e \<and> e_sn e < fin) (old @ ?log) = take ?d (drop i ?log)"
    using contiguous_filter [of "logStart gs - int (length old)" "old @ ?log" sn fin] sn fin by simp
  obtain r where r: "cache_fetch c sn fin max_size False = Ret (r, False)"
    "fetch_entries r = takeSized max_size 0 (take ?d (drop i ?log))" "fetch_entries r \<noteq> []"
    "fh_sn (fetch_hint r) = sn + int (length (fetch_entries r))" "fetch_hint r \<in> cm_hint ` set (lc_entries c)"
    using cacheTail_hit [OF tail mem fin(1) sz] unfolding f by blast
  obtain k where k: "takeSized max_size 0 (take ?d (drop i ?log)) = take k (take ?d (drop i ?log))" "k \<le> length (take ?d (drop i ?log))"
    using takeSized_prefix [of max_size 0 "take ?d (drop i ?log)"] by blast
  have "length (fetch_entries r) = k" using r(2) k by simp
  moreover have "k \<le> ?d" using k(2) by simp
  moreover have "fetch_entries r = map storedEntry (take k (drop i (logEntries gs)))"
    using r(2) k(1) \<open>k \<le> ?d\<close> by (simp add: take_map drop_map min_def)
  moreover have "hintAt gs (fetch_hint r)"
  proof -
    have "logStart gs < fh_sn (fetch_hint r)" using r(3,4) sn by (cases "fetch_entries r") simp_all
    then show ?thesis using r(5) c by (auto simp: cacheOk_def)
  qed
  ultimately show ?thesis using r(1,3,4) fin(1) by (intro exI [of _ r] exI [of _ k]) auto
qed

lemma nextFetchSequenceOrWait_ready:
  assumes "nextSequenceMetadata isolation (x, s) = (Ret meta, (x, s))" "LogStartSN \<le> sn" "sn < entry_sn meta"
  shows "nextFetchSequenceOrWait others sn wait_ms isolation (x, s) = (Ret (sn, meta), (x, s))"
  using assms by (simp add: nextFetchSequenceOrWait_def EarliestSN_def LatestSN_def LogStartSN_def Let_def)

text \<open>What a fetch returns from sequence \<open>sn\<close>, the one of entry \<open>i\<close>, in front of \<open>fin\<close>.\<close>

definition served :: "contents \<Rightarrow> nat \<Rightarrow> int \<Rightarrow> int \<Rightarrow> nat \<Rightarrow> FetchResult \<Rightarrow> bool" where
  "served gs i sn fin n r \<longleftrightarrow> 0 < n \<and> i + n \<le> length (logEntries gs) \<and> sn + int n \<le> fin
     \<and> fetch_entries r = map storedEntry (take n (drop i (logEntries gs)))
     \<and> fh_sn (fetch_hint r) = sn + int n \<and> goodHint gs (sn + int n) (Some (fetch_hint r))"

lemma served_stamped [simp]: "served gs i sn fin n (r\<lparr>log_start_sn := a, log_committed_sn := b\<rparr>) = served gs i sn fin n r"
  by (simp add: served_def)

lemma log_fetch_core:
  assumes inv: "log_core x s gs idx" and q: "outcomes s = []" and i: "i < length (logEntries gs)" and sn: "sn = logStart gs + int i"
    and sz: "0 < max_size" and fin: "sn < fetchEnd isolation x" and hint: "goodHint gs sn hint"
  shows "\<exists>l r n. log_fetch others sn max_size wait_ms hint isolation (x, s) = (Ret (okR r), (x\<lparr>lg_loglet := l\<rparr>, s))
    \<and> served gs i sn (fetchEnd isolation x) n r \<and> log_start_sn r = lg_start_sn x \<and> log_committed_sn r = committed_sn x
    \<and> loglet_inv l s gs idx \<and> queried (lg_loglet x) l"
proof -
  have li: "loglet_inv (lg_loglet x) s gs idx" and mem: "\<not> log_isInmemory x" and c: "cacheOk gs (lg_cached x)"
    and start: "lg_start_sn x = logStart gs" "LogStartSN \<le> logStart gs" and com: "committed_sn x < log_nextLogSequence x"
    using inv by (simp_all add: log_core_def)
  have rel: "log_rel (lg_loglet x) s gs idx" using li by (simp add: loglet_inv_def)
  obtain meta where meta: "nextSequenceMetadata isolation (x, s) = (Ret meta, (x, s))" "entry_sn meta = fetchEnd isolation x" "goodEnd gs meta"
    using nextSequenceMetadata_ok [OF rel] by blast
  have ready: "nextFetchSequenceOrWait others sn wait_ms isolation (x, s) = (Ret (sn, meta), (x, s))"
    using nextFetchSequenceOrWait_ready [OF meta(1)] start(2) sn fin meta(2) by simp
  have end_le: "fetchEnd isolation x \<le> logStart gs + int (length (logEntries gs))"
    using com end_of_log [OF rel] by (cases isolation) (simp_all add: fetchEnd_def log_nextLogSequence_def)
  show ?thesis
  proof (cases "\<exists>e \<in> set (cachedEntries (lg_cached x)). e_sn e = sn")
    case True
    then obtain r n where r: "cache_fetch (lg_cached x) sn (fetchEnd isolation x) max_size False = Ret (r, False)"
      "0 < n" "sn + int n \<le> fetchEnd isolation x" "fetch_entries r = map storedEntry (take n (drop i (logEntries gs)))"
      "fetch_entries r \<noteq> []" "fh_sn (fetch_hint r) = sn + int n" "hintAt gs (fetch_hint r)"
      using cache_serves_contents [OF c True sn fin end_le sz] by blast
    have "served gs i sn (fetchEnd isolation x) n r"
      using r end_le sn goodHint_hintAt [OF rel r(7)] by (simp add: served_def)
    moreover have "log_fetch others sn max_size wait_ms hint isolation (x, s)
        = (Ret (okR (r\<lparr>log_start_sn := lg_start_sn x, log_committed_sn := committed_sn x\<rparr>)), (x, s))"
      using ready start sn fin meta(2) mem r(1,5) by (simp add: log_fetch_def cachedFetch_def runE_def Let_def okR_def)
    moreover have "queried (lg_loglet x) (lg_loglet x)" by (auto simp: queried_def intro: exI [of _ "sn_pos_index (lg_loglet x)"])
    ultimately show ?thesis
      using li by (intro exI [of _ "lg_loglet x"] exI [of _ "r\<lparr>log_start_sn := lg_start_sn x, log_committed_sn := committed_sn x\<rparr>"] exI [of _ n]) simp
  next
    case False
    have miss: "cache_fetch (lg_cached x) sn (fetchEnd isolation x) max_size False = Ret (emptyFetchResult, True)"
      using cacheTail_miss [OF _ False] c unfolding cacheOk_def by blast
    obtain l r n where f: "loglet_fetch sn max_size meta hint (lg_loglet x, s) = (Ret (okR r), (l, s))"
      "fetch_entries r = map storedEntry (take n (drop i (logEntries gs)))" "0 < n" "i + n \<le> length (logEntries gs)" "sn + int n \<le> entry_sn meta"
      "fh_sn (fetch_hint r) = sn + int n" "goodHint gs (sn + int n) (Some (fetch_hint r))" "log_rel l s gs idx" "queried (lg_loglet x) l"
      using loglet_fetch_log [OF rel q i sn sz _ meta(3) hint] fin meta(2) by auto
    have "served gs i sn (fetchEnd isolation x) n r" using f meta(2) by (simp add: served_def)
    moreover have "log_fetch others sn max_size wait_ms hint isolation (x, s)
        = (Ret (okR (r\<lparr>log_start_sn := lg_start_sn x, log_committed_sn := committed_sn x\<rparr>)), (x\<lparr>lg_loglet := l\<rparr>, s))"
      using ready start sn fin meta(2) mem miss onLoglet_eq [of "loglet_fetch sn max_size meta hint" x, OF f(1)]
      by (simp add: log_fetch_def cachedFetch_def runE_def Let_def okR_def emptyFetchResult_def)
    ultimately show ?thesis
      using loglet_inv_queried [OF li f(8,9)] f(9)
      by (intro exI [of _ l] exI [of _ "r\<lparr>log_start_sn := lg_start_sn x, log_committed_sn := committed_sn x\<rparr>"] exI [of _ n]) simp
  qed
qed

lemmas log_fetch_ok = log_fetch_core [OF log_inv_core]

lemma log_inv_loglet:
  assumes "log_inv x s gs idx" "loglet_inv l s gs idx" "queried (lg_loglet x) l"
  shows "log_inv (x\<lparr>lg_loglet := l\<rparr>) s gs idx"
  using assms
  by (auto simp: log_inv_def log_core_def log_isInmemory_def lgConfig_def log_nextLogSequence_def nextLogSequence_def queried_def)

section \<open>Appending\<close>

lemma loglet_inv_frame:
  assumes inv: "loglet_inv l s gs idx" and s': "elsewhere (epochBase (log_dir l)) s s'"
  shows "loglet_inv l s' gs idx"
proof -
  let ?d = "log_dir l"
  have same: "content s' p = content s p" if "p \<notin> mapFiles (epochBase ?d)" for p
    using s' that by (simp add: elsewhere_def)
  obtain ts where ts: "tsOk l s ts" and pos: "posOk l s idx" and rel: "log_rel l s gs idx" and nm: "\<forall>(g, es) \<in> set gs. named ?d g"
    using inv by (auto simp: loglet_inv_def)
  have maps: "tsOk l s' ts" "posOk l s' idx"
    by (rule mapOk_frame [OF ts], rule same, use index_files_disjoint(3) [of ?d] in blast)
      (rule mapOk_frame [OF pos], rule same, use index_files_disjoint(2) [of ?d] in blast)
  have "holds s' g es" if g: "(g, es) \<in> set gs" for g es
  proof (rule holds_frame)
    show "holds s g es" using g rel by (fastforce simp: log_rel_def)
    have "named ?d g" using g nm by fastforce
    then show "content s' (fd (fle_file (seg_log g))) = content s (fd (fle_file (seg_log g)))" by (simp add: named_def same)
  qed
  moreover have "index_rel (sn_pos_index l) s' gs idx"
    using rel by (intro index_relI [OF maps(2)]) (simp_all add: log_rel_def index_rel_def)
  ultimately have "log_rel l s' gs idx" using rel by (auto simp: log_rel_def)
  then show ?thesis using inv maps same by (auto simp: loglet_inv_def freshAbove_def)
qed

lemma index_epochs_refused:
  assumes "epochOk x s xs" "xs \<noteq> []"
  shows "index_epochs es (x, s) = (Ret OK, (x, s))"
proof (induction es)
  case (Cons e es)
  obtain fulls cur where rel: "map_rel EpochSequence_ops valid_EpochSequence (epochBase (log_dir (lg_loglet x))) (epoch_sn_index x) s fulls cur"
    and xs: "xs = concat fulls @ cur" "cur \<noteq> [] \<or> fulls = []" using assms(1) by (auto simp: mapOk_def)
  have ne: "cur \<noteq> []" using xs assms(2) by auto
  then have "valid_EpochSequence (last cur)" using map_relD(8) [OF rel] by (simp add: map_wf_def)
  then have "maybeIndexEpochStartSequence \<lparr>es_epoch = 1, es_sn = e_sn e\<rparr> True (epoch_sn_index x, s) = (Ret (okR False), (epoch_sn_index x, s))"
    unfolding maybeIndexEpochStartSequence_def
    by (intro es.maybeIndex_refuse [OF rel ne]) (simp add: valid_EpochSequence_def EpochSequence_ops_def)
  then show ?case using Cons.IH by (simp add: onEpoch_def onPart_def)
qed simp

lemma index_epochs_ok:
  assumes inv: "log_inv x s gs idx" and q: "outcomes s = []" and room: "mapRoom (Suc k) (epoch_sn_index x)"
    and es: "es \<noteq> []" "\<forall>e \<in> set es. int64 (e_sn e)"
  shows "\<exists>m s'. index_epochs es (x, s) = (Ret OK, (x\<lparr>epoch_sn_index := m\<rparr>, s')) \<and> outcomes s' = []
    \<and> log_inv (x\<lparr>epoch_sn_index := m\<rparr>) s' gs idx \<and> mapRoom k m"
proof -
  obtain xs where ok: "epochOk x s xs" using inv by (auto simp: log_inv_def log_core_def)
  obtain e r where e: "es = e # r" using es(1) by (cases es) auto
  let ?v = "\<lparr>es_epoch = 1, es_sn = e_sn e\<rparr>"
  have "valid_EpochSequence ?v" using es(2) e by (simp add: valid_EpochSequence_def)
  from es.maybeIndex_ok [OF ok q this room, of True] obtain b m s' xs' where
    run: "maybeIndex EpochSequence_ops ?v True (epoch_sn_index x, s) = (Ret (okR b), (m, s'))" "outcomes s' = []"
    and m: "mapOk EpochSequence_ops valid_EpochSequence (epochBase (log_dir (lg_loglet x))) m s' xs'" "elsewhere (epochBase (log_dir (lg_loglet x))) s s'" "mapRoom k m"
    and xs': "xs' = xs @ (if \<forall>a \<in> set xs. kv_key EpochSequence_ops a < kv_key EpochSequence_ops ?v then [?v] else [])" by blast
  have "xs' \<noteq> []" using xs' by (cases xs) auto
  then have "index_epochs r (x\<lparr>epoch_sn_index := m\<rparr>, s') = (Ret OK, (x\<lparr>epoch_sn_index := m\<rparr>, s'))"
    using m(1) by (intro index_epochs_refused [of _ _ xs']) simp_all
  then have "index_epochs es (x, s) = (Ret OK, (x\<lparr>epoch_sn_index := m\<rparr>, s'))"
    using run(1) e by (simp add: onEpoch_def onPart_def maybeIndexEpochStartSequence_def)
  moreover have "log_inv (x\<lparr>epoch_sn_index := m\<rparr>) s' gs idx"
    using inv m loglet_inv_frame [OF _ m(2)]
    by (auto simp: log_inv_def log_core_def log_isInmemory_def lgConfig_def log_nextLogSequence_def)
  ultimately show ?thesis using run(2) m(3) by blast
qed

text \<open>Contents that make up the same log, for which the hints of the cache stay right.\<close>

definition sameLog :: "contents \<Rightarrow> contents \<Rightarrow> bool" where
  "sameLog gs gs' \<longleftrightarrow> logEntries gs' = logEntries gs \<and> logStart gs' = logStart gs \<and> (\<forall>h. hintAt gs h \<longrightarrow> hintAt gs' h)"

lemma sameLog_refl [simp]: "sameLog gs gs"
  by (simp add: sameLog_def)

lemma sameLog_rolled:
  assumes "chained gs" "gs \<noteq> []"
  shows "sameLog gs (rolled d gs)"
  using rolled_entries [OF assms] hintAt_rolled [OF _ assms(2)] by (simp add: sameLog_def)

lemma sameLog_synced: "sameLog (pre @ [(g, es)]) (pre @ [(synced g, es)])"
  using hintAt_grown [of pre g es _ "synced g" "[]"] by (cases pre) (auto simp: sameLog_def logStart_def)

lemma log_inv_sameLog:
  assumes inv: "log_inv x s gs idx" and l: "loglet_inv l s' gs' idx'" "keeps (lg_loglet x) l" and same: "sameLog gs gs'"
    and s': "epochSame (log_dir (lg_loglet x)) s s'"
  shows "log_inv (x\<lparr>lg_loglet := l\<rparr>) s' gs' idx'"
proof -
  obtain xs where "epochOk x s xs" using inv by (auto simp: log_inv_def log_core_def)
  then have "epochOk x s' xs" by (rule mapOk_frame) (use s' in \<open>simp add: epochSame_def\<close>)
  moreover have "nextLogSequence l = nextLogSequence (lg_loglet x)"
    using loglet_inv_entries [OF l(1)] loglet_inv_entries [of "lg_loglet x" s gs idx] inv same by (simp add: log_inv_def log_core_def sameLog_def)
  moreover have "cacheOk gs' (lg_cached x)" using inv same by (simp add: log_inv_def log_core_def cacheOk_def sameLog_def)
  ultimately show ?thesis
    using inv l same by (auto simp: log_inv_def log_core_def keeps_def sameLog_def log_isInmemory_def lgConfig_def log_nextLogSequence_def)
qed

lemma maybeRoll_ok:
  assumes inv: "log_inv x s gs idx" and q: "outcomes s = []" and room: "loglet_room (Suc k) (lg_loglet x)"
    and id: "seg_id (fst (last gs)) + 1 < 2 ^ 28"
  shows "\<exists>l s' gs'. maybeRoll sz (log_nextLogSequence x) (x, s) = (Ret (okR (Some (fst (last gs')))), (x\<lparr>lg_loglet := l\<rparr>, s'))
    \<and> outcomes s' = [] \<and> log_inv (x\<lparr>lg_loglet := l\<rparr>) s' gs' idx \<and> loglet_room k l \<and> sameLog gs gs'
    \<and> keeps (lg_loglet x) l \<and> seg_id (fst (last gs')) \<le> seg_id (fst (last gs)) + 1
    \<and> (snd (last gs') = [] \<or> seg_size (fst (last gs')) + unat sz \<le> segment_size (lgConfig x))"
proof -
  have li: "loglet_inv (lg_loglet x) s gs idx" using inv by (simp add: log_inv_def log_core_def)
  then have rel: "log_rel (lg_loglet x) s gs idx" by (simp add: loglet_inv_def)
  then have gs: "chained gs" "gs \<noteq> []" by (simp_all add: log_rel_def)
  note active = getActive_log [OF rel]
  show ?thesis
  proof (cases "shouldRoll (fst (last gs)) (lgConfig x) sz")
    case False
    then have "maybeRoll sz (log_nextLogSequence x) (x, s) = (Ret (okR (Some (fst (last gs)))), (x\<lparr>lg_loglet := lg_loglet x\<rparr>, s))"
      using active by (simp add: maybeRoll_def)
    moreover have "loglet_room k (lg_loglet x)" using room by (simp add: loglet_room_def mapRoom_mono)
    moreover have "keeps (lg_loglet x) (lg_loglet x)" by (simp add: keeps_def)
    ultimately show ?thesis
      using False inv q by (intro exI [of _ "lg_loglet x"] exI [of _ s] exI [of _ gs]) (simp add: shouldRoll_def)
  next
    case True
    let ?d = "log_dir (lg_loglet x)"
    have "(case Some (log_nextLogSequence x) of None \<Rightarrow> 0 | Some n \<Rightarrow> n) \<le> nextLogSequence (lg_loglet x)"
      by (simp add: log_nextLogSequence_def)
    from loglet_roll_ok [OF li q room id this] obtain l s' where
      r: "loglet_roll (Some (log_nextLogSequence x)) (lg_loglet x, s) = (Ret (okR (Some (fst (last (rolled ?d gs))))), (l, s'))" "outcomes s' = []"
      "loglet_inv l s' (rolled ?d gs) idx" "keeps (lg_loglet x) l" "loglet_room k l" "epochSame ?d s s'" by blast
    have "maybeRoll sz (log_nextLogSequence x) (x, s) = (Ret (okR (Some (fst (last (rolled ?d gs))))), (x\<lparr>lg_loglet := l\<rparr>, s'))"
      using True active onLoglet_eq [of "loglet_roll (Some (log_nextLogSequence x))" x, OF r(1)] by (simp add: maybeRoll_def)
    moreover have "log_inv (x\<lparr>lg_loglet := l\<rparr>) s' (rolled ?d gs) idx"
      by (rule log_inv_sameLog [OF inv r(3,4) sameLog_rolled [OF gs] r(6)])
    moreover obtain pre g es where "gs = pre @ [(g, es)]" using gs(2) by (cases gs rule: rev_cases) auto
    then have "snd (last (rolled ?d gs)) = []" "seg_id (fst (last (rolled ?d gs))) = seg_id (fst (last gs)) + 1"
      by (simp_all add: rolled_def segmentOf_def)
    ultimately show ?thesis
      using r(2,4,5) sameLog_rolled [OF gs] by (intro exI [of _ l] exI [of _ s'] exI [of _ "rolled ?d gs"]) simp
  qed
qed

text \<open>A batch the log takes: it continues the log, and its size fits the 32 bits \<^verbatim>\<open>append\<close> counts it with.\<close>

definition newBatch :: "int \<Rightarrow> Entry list \<Rightarrow> bool" where
  "newBatch sn fs \<longleftrightarrow> fs \<noteq> [] \<and> contiguous sn fs \<and> (\<forall>e \<in> set fs. wfEntry e \<and> metaFits e) \<and> length (logBytes fs) < 2 ^ 32"

lemma set_cache_push: "set (lc_entries (cache_push y sz c)) \<subseteq> insert y (set (lc_entries c))"
  by (cases "lc_entries c") (auto simp: cache_push_def Let_def)

lemma cache_append_loop_hints:
  assumes "y \<in> set (lc_entries (cache_append_loop base start n (zip (map storedEntry fs) (map entryBytes fs)) c))"
  shows "y \<in> set (lc_entries c) \<or> (\<exists>j < length fs. cm_hint y = \<lparr>fh_sn = e_sn (fs ! j) + 1, fh_segment_base_sn = base,
      fh_file_position = start + n + length (logBytes (take (Suc j) fs))\<rparr>)"
  using assms
proof (induction fs arbitrary: n c)
  case (Cons e fs)
  let ?n = "n + length (entryBytes e)"
  define item where "item = \<lparr>cm_meta = \<lparr>entry_sn = e_sn (storedEntry e), segment_base_sn = Some base, file_position = Some (start + n)\<rparr>,
    cm_hint = \<lparr>fh_sn = e_sn (storedEntry e) + 1, fh_segment_base_sn = base, fh_file_position = start + n + length (entryBytes e)\<rparr>,
    cm_entry = storedEntry e\<rparr>"
  define c1 where "c1 = cache_push item (approximateSerializedSize (storedEntry e)) c"
  have "y \<in> set (lc_entries (cache_append_loop base start ?n (zip (map storedEntry fs) (map entryBytes fs)) c1))"
    using Cons.prems by (simp add: c1_def item_def del: length_entryBytes)
  from Cons.IH [OF this] consider "y \<in> set (lc_entries c1)"
    | j where "j < length fs" "cm_hint y = \<lparr>fh_sn = e_sn (fs ! j) + 1, fh_segment_base_sn = base,
        fh_file_position = start + ?n + length (logBytes (take (Suc j) fs))\<rparr>" by blast
  then show ?case
  proof cases
    case 1
    then consider "y = item" | "y \<in> set (lc_entries c)" using set_cache_push [of item _ c] by (auto simp: c1_def)
    then show ?thesis
    proof cases
      case 1
      then show ?thesis by (intro disjI2 exI [of _ 0]) (simp add: item_def del: length_entryBytes)
    qed simp
  next
    case 2
    then show ?thesis by (intro disjI2 exI [of _ "Suc j"]) (simp del: length_entryBytes)
  qed
qed simp

lemma cache_append_batch_hints:
  assumes "y \<in> set (lc_entries (cache_append_batch (zip (map storedEntry fs) (map entryBytes fs)) base start c))"
  shows "y \<in> set (lc_entries c) \<or> (\<exists>j < length fs. cm_hint y = \<lparr>fh_sn = e_sn (fs ! j) + 1, fh_segment_base_sn = base,
      fh_file_position = start + length (logBytes (take (Suc j) fs))\<rparr>)"
proof (cases "lc_max c = 0")
  case True
  then show ?thesis using assms by (simp add: cache_append_batch_def)
next
  case False
  let ?c = "if lc_max c \<le> length (zip (map storedEntry fs) (map entryBytes fs)) then cache_clear c else c"
  have "set (lc_entries ?c) \<subseteq> set (lc_entries c)" by (simp add: cache_clear_def)
  then show ?thesis
    using assms False cache_append_loop_hints [of y base start 0 fs ?c] unfolding cache_append_batch_def by auto
qed

lemma approximateSerializedSize_wf: "wfEntry e \<Longrightarrow> approximateSerializedSize (storedEntry e) < 2 ^ 64"
  using wfEntry_data [of e] by (simp add: approximateSerializedSize_def)

lemma hintAt_appended:
  assumes "contiguous (base_sn g + int (length es)) fs" "j < length fs"
  shows "hintAt (pre @ [(enlarge g fs, es @ fs)]) \<lparr>fh_sn = e_sn (fs ! j) + 1, fh_segment_base_sn = base_sn g,
    fh_file_position = length (logBytes es) + length (logBytes (take (Suc j) fs))\<rparr>"
proof (rule hintAtI)
  show "(enlarge g fs, es @ fs) \<in> set (pre @ [(enlarge g fs, es @ fs)])" by simp
  show "length es + Suc j \<le> length (es @ fs)" using assms(2) by simp
qed (use contiguous_nth [OF assms] in \<open>simp_all add: entryStart_def\<close>)

lemma contiguous_stored [simp]: "contiguous sn (map storedEntry es) = contiguous sn es"
  by (induction es arbitrary: sn) simp_all

lemma cacheOk_append_batch:
  assumes c: "cacheOk (pre @ [(g, es)]) c" and fs: "contiguous (logStart (pre @ [(g, es)]) + int (length (logEntries (pre @ [(g, es)])))) fs"
    and wf: "\<forall>e \<in> set fs. wfEntry e" and ch: "chained (pre @ [(g, es)])" and start: "start = length (logBytes es)"
  shows "cacheOk (pre @ [(enlarge g fs, es @ fs)]) (cache_append_batch (zip (map storedEntry fs) (map entryBytes fs)) (base_sn g) start c)"
proof -
  let ?gs = "pre @ [(g, es)]" and ?gs' = "pre @ [(enlarge g fs, es @ fs)]"
  let ?es = "zip (map storedEntry fs) (map entryBytes fs)"
  have es: "map fst ?es = map storedEntry fs" by simp
  have cont: "contiguous (base_sn g + int (length es)) fs" using fs entry_position [OF ch] by (simp add: algebra_simps)
  obtain old where old: "cacheTail (lc_max c) (logStart ?gs - int (length old)) (old @ map storedEntry (logEntries ?gs)) c"
    using c by (auto simp: cacheOk_def)
  have "contiguous (logStart ?gs - int (length old) + int (length (old @ map storedEntry (logEntries ?gs)))) (map fst ?es)"
    using fs unfolding es by simp
  moreover have "\<forall>y \<in> set ?es. approximateSerializedSize (fst y) < 2 ^ 64"
    using wf approximateSerializedSize_wf by (auto dest!: set_zip_leftD)
  ultimately have "cacheTail (lc_max c) (logStart ?gs - int (length old)) ((old @ map storedEntry (logEntries ?gs)) @ map storedEntry fs)
      (cache_append_batch ?es (base_sn g) start c)"
    using cacheTail_append_batch [OF old, of ?es "base_sn g" start] unfolding es by blast
  then have "cacheTail (lc_max (cache_append_batch ?es (base_sn g) start c)) (logStart ?gs' - int (length old)) (old @ map storedEntry (logEntries ?gs'))
      (cache_append_batch ?es (base_sn g) start c)"
    using logEntries_grown [of pre g fs es] by (simp add: cacheTail_def)
  moreover have "hintAt ?gs' (cm_hint y)"
    if y: "y \<in> set (lc_entries (cache_append_batch ?es (base_sn g) start c))" and above: "logStart ?gs' < fh_sn (cm_hint y)" for y
    using cache_append_batch_hints [OF y]
  proof
    assume "y \<in> set (lc_entries c)"
    then show ?thesis using c above hintAt_grown [of pre g es "cm_hint y" "enlarge g fs" fs] logEntries_grown(2) [of pre g fs es]
      by (simp add: cacheOk_def)
  next
    assume "\<exists>j < length fs. cm_hint y = \<lparr>fh_sn = e_sn (fs ! j) + 1, fh_segment_base_sn = base_sn g,
      fh_file_position = start + length (logBytes (take (Suc j) fs))\<rparr>"
    then show ?thesis using hintAt_appended [OF cont] start by auto
  qed
  ultimately show ?thesis by (auto simp: cacheOk_def)
qed

lemma log_inv_appended:
  assumes inv: "log_inv x s (pre @ [(g, es)]) idx" and l: "loglet_inv l s' (pre @ [(enlarge g fs, es @ fs)]) idx'" "keeps (lg_loglet x) l"
    and s': "epochSame (log_dir (lg_loglet x)) s s'" and c: "cacheOk (pre @ [(enlarge g fs, es @ fs)]) c"
  shows "log_inv (x\<lparr>lg_loglet := l, lg_cached := c\<rparr>) s' (pre @ [(enlarge g fs, es @ fs)]) idx'"
proof -
  obtain xs where "epochOk x s xs" using inv by (auto simp: log_inv_def log_core_def)
  then have "epochOk x s' xs" by (rule mapOk_frame) (use s' in \<open>simp add: epochSame_def\<close>)
  moreover have "nextLogSequence (lg_loglet x) \<le> nextLogSequence l"
    using loglet_inv_entries [OF l(1)] loglet_inv_entries [of "lg_loglet x" s "pre @ [(g, es)]" idx] inv logEntries_grown [of pre g fs es]
    by (simp add: log_inv_def log_core_def)
  ultimately show ?thesis
    using inv l c logEntries_grown(2) [of pre g fs es]
    by (auto simp: log_inv_def log_core_def keeps_def log_isInmemory_def lgConfig_def log_nextLogSequence_def)
qed

lemma batch_bytes_eq: "batch_bytes (map entryBytes fs) = of_nat (length (logBytes fs))"
proof -
  have "foldl (\<lambda>n d. n + of_nat (length d)) a (map entryBytes fs) = (a :: u32) + of_nat (length (logBytes fs))" for a
    by (induction fs arbitrary: a) (simp_all add: algebra_simps del: length_entryBytes)
  then show ?thesis by (simp add: batch_bytes_def)
qed

lemma max_event_ts_valid: "\<forall>e \<in> set fs. wfEntry e \<Longrightarrow> valid_TimestampSequence (max_event_ts_of fs)"
proof -
  assume "\<forall>e \<in> set fs. wfEntry e"
  then have "valid_TimestampSequence m \<Longrightarrow> valid_TimestampSequence (foldl (\<lambda>m e. if ts_timestamp m < e_max_event_timestamp e
      then \<lparr>ts_timestamp = e_max_event_timestamp e, ts_sn = e_sn e\<rparr> else m) m fs)" for m
    by (induction fs arbitrary: m) (simp_all add: wfEntry_def valid_TimestampSequence_def)
  then show ?thesis by (simp add: max_event_ts_of_def valid_TimestampSequence_def int64_def)
qed

lemma appendable_rolled:
  assumes inv: "log_inv x s gs idx" and fs: "newBatch (log_nextLogSequence x) fs"
    and fits: "snd (last gs) = [] \<or> seg_size (fst (last gs)) + length (logBytes fs) < 2 ^ 36"
  shows "appendable gs fs"
proof -
  have li: "loglet_inv (lg_loglet x) s gs idx" using inv by (simp add: log_inv_def log_core_def)
  obtain pre g es where gs: "gs = pre @ [(g, es)]" "holds s g es" using loglet_inv_split [OF li] by metis
  then have "seg_size g = length (logBytes es)" using holdsD(2) by blast
  then have "length (logBytes (snd (last gs) @ fs)) < 2 ^ 36" using fits fs gs(1) by (auto simp: newBatch_def)
  then show ?thesis
    using fs loglet_inv_entries [OF li] by (simp add: appendable_def newBatch_def log_nextLogSequence_def)
qed

text \<open>The batch goes to the active segment, and behind the entries of the cache.\<close>

lemma append_segment_ok:
  assumes inv: "log_inv x s gs idx" and q: "outcomes s = []" and room: "loglet_room (Suc k) (lg_loglet x)"
    and app: "appendable gs fs" and n: "length fs \<le> IOV_MAX"
  defines "c \<equiv> cache_append_batch (zip (map storedEntry fs) (map entryBytes fs)) (base_sn (fst (last gs))) (seg_size (fst (last gs))) (lg_cached x)"
  shows "\<exists>l s' gs' idx'. onLoglet (loglet_append_batch (map storedEntry fs) (map entryBytes fs) (length (logBytes fs)) (max_event_ts_of fs)) (x, s)
      = (Ret (okR (length (logBytes fs))), (x\<lparr>lg_loglet := l\<rparr>, s')) \<and> outcomes s' = []
    \<and> log_inv (x\<lparr>lg_loglet := l, lg_cached := c\<rparr>) s' gs' idx' \<and> loglet_room k l \<and> keeps (lg_loglet x) l
    \<and> logEntries gs' = logEntries gs @ fs \<and> logStart gs' = logStart gs \<and> seg_id (fst (last gs')) = seg_id (fst (last gs))"
proof -
  have li: "loglet_inv (lg_loglet x) s gs idx" using inv by (simp add: log_inv_def log_core_def)
  obtain pre g es where gs: "gs = pre @ [(g, es)]" and rel: "log_rel (lg_loglet x) s (pre @ [(g, es)]) idx" and hg: "holds s g es"
    using loglet_inv_split [OF li] by metis
  have wf: "\<forall>e \<in> set fs. wfEntry e" using app by (simp add: appendable_def)
  from loglet_append_batch_ok [OF li q room app n max_event_ts_valid [OF wf], of "map storedEntry fs"]
  obtain l s' idx' where a: "loglet_append_batch (map storedEntry fs) (map entryBytes fs) (length (logBytes fs)) (max_event_ts_of fs) (lg_loglet x, s)
      = (Ret (okR (length (logBytes fs))), (l, s'))" "outcomes s' = []" "loglet_inv l s' (pre @ [(enlarge g fs, es @ fs)]) idx'"
    "keeps (lg_loglet x) l" "loglet_room k l" "epochSame (log_dir (lg_loglet x)) s s'" using gs by (auto simp: comp_def)
  let ?gs = "pre @ [(enlarge g fs, es @ fs)]"
  have "cacheOk ?gs c" unfolding c_def gs last_snoc fst_conv
  proof (rule cacheOk_append_batch [OF _ _ wf])
    show "cacheOk (pre @ [(g, es)]) (lg_cached x)" using inv gs by (simp add: log_inv_def log_core_def)
    show "contiguous (logStart (pre @ [(g, es)]) + int (length (logEntries (pre @ [(g, es)])))) fs"
      using app gs by (simp add: appendable_def)
    show "chained (pre @ [(g, es)])" using rel by (simp add: log_rel_def)
  qed (use holdsD(2) [OF hg] in simp)
  then have "log_inv (x\<lparr>lg_loglet := l, lg_cached := c\<rparr>) s' ?gs idx'"
    using log_inv_appended [of x s pre g es idx l s' fs idx' c] inv a gs by simp
  then show ?thesis
    using a logEntries_grown [of pre g fs es] gs by (intro exI [of _ l] exI [of _ s'] exI [of _ ?gs] exI [of _ idx'])
      (simp add: onLoglet_def onPart_def)
qed

lemma log_append_batch_ok:
  assumes inv: "log_inv x s gs idx" and q: "outcomes s = []" and room: "log_room (Suc k) x gs"
    and fs: "newBatch (log_nextLogSequence x) fs" "length fs \<le> IOV_MAX"
  shows "\<exists>x' s' gs' idx'. log_append_batch fs (x, s) = (Ret (okR (length (logBytes fs))), (x', s')) \<and> outcomes s' = []
    \<and> log_inv x' s' gs' idx' \<and> log_room k x' gs' \<and> logEntries gs' = logEntries gs @ fs \<and> logStart gs' = logStart gs
    \<and> committed_sn x' = committed_sn x"
proof -
  have ne: "fs \<noteq> []" and wf: "\<forall>e \<in> set fs. int64 (e_sn e)" and bytes: "unat (of_nat (length (logBytes fs)) :: u32) = length (logBytes fs)"
    and "contiguous (log_nextLogSequence x) fs" using fs(1) by (auto simp: newBatch_def unat_of_nat wfEntry_def)
  then have first: "e_sn (hd fs) = log_nextLogSequence x" by (cases fs) auto
  obtain m s1 where e: "index_epochs fs (x, s) = (Ret OK, (x\<lparr>epoch_sn_index := m\<rparr>, s1))" "outcomes s1 = []"
    "log_inv (x\<lparr>epoch_sn_index := m\<rparr>) s1 gs idx" "mapRoom k m"
    using index_epochs_ok [OF inv q _ ne wf, of k] room by (auto simp: log_room_def)
  define x1 where "x1 = x\<lparr>epoch_sn_index := m\<rparr>"
  have x1: "lg_loglet x1 = lg_loglet x" "log_nextLogSequence x1 = log_nextLogSequence x" "lgConfig x1 = lgConfig x"
    by (simp_all add: x1_def log_nextLogSequence_def lgConfig_def)
  have rm: "loglet_room (Suc (Suc (2 * k))) (lg_loglet x1)" "seg_id (fst (last gs)) + 1 < 2 ^ 28" using room x1 by (simp_all add: log_room_def)
  obtain l1 s2 gs1 where r: "maybeRoll (of_nat (length (logBytes fs))) (log_nextLogSequence x) (x1, s1)
      = (Ret (okR (Some (fst (last gs1)))), (x1\<lparr>lg_loglet := l1\<rparr>, s2))" "outcomes s2 = []"
    "log_inv (x1\<lparr>lg_loglet := l1\<rparr>) s2 gs1 idx" "loglet_room (Suc (2 * k)) l1" "sameLog gs gs1" "keeps (lg_loglet x) l1"
    "seg_id (fst (last gs1)) \<le> seg_id (fst (last gs)) + 1"
    "snd (last gs1) = [] \<or> seg_size (fst (last gs1)) + length (logBytes fs) \<le> segment_size (lgConfig x)"
    using maybeRoll_ok [OF e(3) [folded x1_def] e(2) rm, of "of_nat (length (logBytes fs))"] unfolding bytes x1 by blast
  define x2 where "x2 = x1\<lparr>lg_loglet := l1\<rparr>"
  have x2: "lg_loglet x2 = l1" "lg_cached x2 = lg_cached x" by (simp_all add: x2_def x1_def)
  have "log_nextLogSequence x2 = log_nextLogSequence x"
    using loglet_inv_entries [of l1 s2 gs1 idx] loglet_inv_entries [of "lg_loglet x" s gs idx] inv r(3,5) x2
    by (simp add: log_nextLogSequence_def log_inv_def log_core_def sameLog_def)
  then have "appendable gs1 fs"
    using r(8) room fs(1) by (intro appendable_rolled [OF r(3) [folded x2_def]]) (auto simp: log_room_def)
  from append_segment_ok [OF r(3) [folded x2_def] r(2) r(4) [folded x2(1)] this fs(2)] obtain l2 s3 gs2 idx2 where
    a: "onLoglet (loglet_append_batch (map storedEntry fs) (map entryBytes fs) (length (logBytes fs)) (max_event_ts_of fs)) (x2, s2)
      = (Ret (okR (length (logBytes fs))), (x2\<lparr>lg_loglet := l2\<rparr>, s3))" "outcomes s3 = []"
    and fin: "log_inv (x2\<lparr>lg_loglet := l2, lg_cached := cache_append_batch (zip (map storedEntry fs) (map entryBytes fs))
      (base_sn (fst (last gs1))) (seg_size (fst (last gs1))) (lg_cached x2)\<rparr>) s3 gs2 idx2"
    and l2: "loglet_room (2 * k) l2" "keeps (lg_loglet x2) l2" "logEntries gs2 = logEntries gs1 @ fs" "logStart gs2 = logStart gs1"
      "seg_id (fst (last gs2)) = seg_id (fst (last gs1))" by blast
  define x3 where "x3 = x2\<lparr>lg_loglet := l2, lg_cached := cache_append_batch (zip (map storedEntry fs) (map entryBytes fs))
      (base_sn (fst (last gs1))) (seg_size (fst (last gs1))) (lg_cached x2)\<rparr>"
  have "log_append_batch fs (x, s) = (Ret (okR (length (logBytes fs))), (x3, s3))"
    using e(1) r(1) ne first a(1)
    by (simp add: log_append_batch_def Let_def batch_bytes_eq bytes comp_def x1_def x2_def x3_def flip: storedEntry_def entryBytes_def)
  moreover have "log_room k x3 gs2"
    using l2 e(4) r(6,7) room by (simp add: log_room_def x3_def x2_def x1_def lgConfig_def keeps_def)
  ultimately show ?thesis using fin a(2) l2(3,4) r(5)
    by (intro exI [of _ x3] exI [of _ s3] exI [of _ gs2] exI [of _ idx2]) (simp add: x3_def x2_def x1_def sameLog_def)
qed

lemma log_room_mono: "log_room k x gs \<Longrightarrow> j \<le> k \<Longrightarrow> log_room j x gs"
  by (auto simp: log_room_def loglet_room_def mapRoom_def)

lemma newBatch_split:
  assumes "newBatch sn fs" "0 < n" "n < length fs"
  shows "newBatch sn (take n fs)" "newBatch (sn + int n) (drop n fs)"
    "length (logBytes fs) = length (logBytes (take n fs)) + length (logBytes (drop n fs))"
proof -
  have "logBytes fs = logBytes (take n fs) @ logBytes (drop n fs)" using append_take_drop_id [of n fs] by (metis logBytes_simps(3))
  then show len: "length (logBytes fs) = length (logBytes (take n fs)) + length (logBytes (drop n fs))" by simp
  show "newBatch sn (take n fs)" "newBatch (sn + int n) (drop n fs)"
    using assms contiguous_take_drop [of sn fs n] len by (auto simp: newBatch_def dest: in_set_takeD in_set_dropD)
qed

lemma append_chunks_ok:
  assumes "log_inv x s gs idx" "outcomes s = []" "log_room (k + length fs) x gs" "newBatch (log_nextLogSequence x) fs"
    and "n + length (logBytes fs) < 2 ^ 64"
  shows "\<exists>x' s' gs' idx'. append_chunks fs n (x, s) = (Ret (okR (n + length (logBytes fs))), (x', s')) \<and> outcomes s' = []
    \<and> log_inv x' s' gs' idx' \<and> log_room k x' gs' \<and> logEntries gs' = logEntries gs @ fs \<and> logStart gs' = logStart gs
    \<and> committed_sn x' = committed_sn x"
  using assms
proof (induction "length fs" arbitrary: fs n x s gs idx rule: less_induct)
  case less
  note inv = less.prems(1) and q = less.prems(2) and room = less.prems(3) and new = less.prems(4) and size = less.prems(5)
  show ?case
  proof (cases "length fs \<le> IOV_MAX")
    case True
    have "log_room (Suc k) x gs" using log_room_mono [OF room, of "Suc k"] new by (cases fs) (simp_all add: newBatch_def)
    from log_append_batch_ok [OF inv q this new True] obtain x' s' gs' idx' where
      "log_append_batch fs (x, s) = (Ret (okR (length (logBytes fs))), (x', s'))" "outcomes s' = []" "log_inv x' s' gs' idx'" "log_room k x' gs'"
      "logEntries gs' = logEntries gs @ fs" "logStart gs' = logStart gs" "committed_sn x' = committed_sn x" by blast
    then show ?thesis using True size
      by (intro exI [of _ x'] exI [of _ s'] exI [of _ gs'] exI [of _ idx']) (simp add: append_chunks.simps [of fs] add64_def okR_def)
  next
    case False
    let ?a = "take IOV_MAX fs" and ?b = "drop IOV_MAX fs"
    have n: "0 < IOV_MAX" "IOV_MAX < length fs" using False by (simp_all add: IOV_MAX_def)
    note split = newBatch_split [OF new n]
    have "log_room (Suc (k + length ?b)) x gs" using log_room_mono [OF room] n by simp
    from log_append_batch_ok [OF inv q this split(1)] n obtain x1 s1 gs1 idx1 where
      a: "log_append_batch ?a (x, s) = (Ret (okR (length (logBytes ?a))), (x1, s1))" "outcomes s1 = []" "log_inv x1 s1 gs1 idx1"
      "log_room (k + length ?b) x1 gs1" "logEntries gs1 = logEntries gs @ ?a" "logStart gs1 = logStart gs" "committed_sn x1 = committed_sn x"
      by auto
    have "log_nextLogSequence x1 = log_nextLogSequence x + int IOV_MAX"
      using loglet_inv_entries [of "lg_loglet x1" s1 gs1 idx1] loglet_inv_entries [of "lg_loglet x" s gs idx] a(3,5,6) inv n
      by (simp add: log_inv_def log_core_def log_nextLogSequence_def)
    then have new': "newBatch (log_nextLogSequence x1) ?b" using split(2) by simp
    have sz: "n + length (logBytes ?a) + length (logBytes ?b) = n + length (logBytes fs)" using split(3) by simp
    have "length ?b < length fs" "n + length (logBytes ?a) + length (logBytes ?b) < 2 ^ 64" using n size unfolding sz by simp_all
    from less.hyps [OF this(1) a(3,2,4) new' this(2)] obtain x' s' gs' idx' where
      b: "append_chunks ?b (n + length (logBytes ?a)) (x1, s1) = (Ret (okR (n + length (logBytes fs))), (x', s'))" "outcomes s' = []"
      "log_inv x' s' gs' idx'" "log_room k x' gs'" "logEntries gs' = logEntries gs1 @ ?b" "logStart gs' = logStart gs1" "committed_sn x' = committed_sn x1"
      unfolding sz by blast
    have "add64 n (length (logBytes ?a)) = n + length (logBytes ?a)" using size split(3) by (simp add: add64_def)
    then have "append_chunks fs n (x, s) = (Ret (okR (n + length (logBytes fs))), (x', s'))"
      using False a(1) b(1) by (simp add: append_chunks.simps [of fs])
    then show ?thesis using b a(5-7)
      by (intro exI [of _ x'] exI [of _ s'] exI [of _ gs'] exI [of _ idx']) simp
  qed
qed

lemma log_append_ok:
  assumes "log_inv x s gs idx" "outcomes s = []" "log_room (k + length fs) x gs" "newBatch (log_nextLogSequence x) fs"
  shows "\<exists>x' s' gs' idx'. log_append shared fs (x, s) = (Ret (okR (length (logBytes fs))), (x', s')) \<and> outcomes s' = []
    \<and> log_inv x' s' gs' idx' \<and> log_room k x' gs' \<and> logEntries gs' = logEntries gs @ fs \<and> logStart gs' = logStart gs
    \<and> committed_sn x' = committed_sn x"
proof -
  have "\<not> log_isInmemory x" using assms(1) by (simp add: log_inv_def log_core_def)
  moreover have "0 + length (logBytes fs) < 2 ^ 64" using assms(4) by (simp add: newBatch_def)
  ultimately show ?thesis using append_chunks_ok [OF assms, of 0] by (simp add: log_append_def)
qed

section \<open>Appending one entry\<close>

lemma cloneEntry_id [simp]: "cloneEntry e = e"
  by (cases e) (simp add: cloneEntry_def emptyEntry_def)

lemma cacheOk_append:
  assumes c: "cacheOk (pre @ [(g, es)]) c" and sn: "e_sn e = logStart (pre @ [(g, es)]) + int (length (logEntries (pre @ [(g, es)])))"
    and wf: "wfEntry e" and m: "entry_sn m = e_sn e" and h: "fh_sn h = e_sn e + 1" "hintAt (pre @ [(enlarge g [e], es @ [e])]) h"
  shows "cacheOk (pre @ [(enlarge g [e], es @ [e])]) (cache_append shared (storedEntry e) m h c)"
proof -
  let ?gs = "pre @ [(g, es)]" and ?gs' = "pre @ [(enlarge g [e], es @ [e])]"
  define y where "y = \<lparr>cm_meta = m, cm_hint = h, cm_entry = storedEntry e\<rparr>"
  have app: "cache_append shared (storedEntry e) m h c = cache_push y (approximateSerializedSize (storedEntry e)) c"
    by (simp add: cache_append_def y_def)
  obtain old where old: "cacheTail (lc_max c) (logStart ?gs - int (length old)) (old @ map storedEntry (logEntries ?gs)) c"
    using c by (auto simp: cacheOk_def)
  have "itemOk y" using m h approximateSerializedSize_wf [OF wf] by (simp add: y_def itemOk_def)
  moreover have "e_sn (cm_entry y) = logStart ?gs - int (length old) + int (length (old @ map storedEntry (logEntries ?gs)))"
    using sn by (simp add: y_def)
  ultimately have "cacheTail (lc_max c) (logStart ?gs - int (length old)) ((old @ map storedEntry (logEntries ?gs)) @ [storedEntry e])
      (cache_append shared (storedEntry e) m h c)"
    unfolding app using cacheTail_push [OF old, of y "approximateSerializedSize (storedEntry e)"] by (simp add: y_def)
  then have "cacheTail (lc_max (cache_append shared (storedEntry e) m h c)) (logStart ?gs' - int (length old)) (old @ map storedEntry (logEntries ?gs'))
      (cache_append shared (storedEntry e) m h c)"
    using logEntries_grown [of pre g "[e]" es] by (simp add: cacheTail_def)
  moreover have "hintAt ?gs' (cm_hint z)"
    if z: "z \<in> set (lc_entries (cache_append shared (storedEntry e) m h c))" and above: "logStart ?gs' < fh_sn (cm_hint z)" for z
  proof -
    from z consider "z = y" | "z \<in> set (lc_entries c)" unfolding app using set_cache_push by fast
    then show ?thesis
    proof cases
      case 1
      then show ?thesis using h(2) by (simp add: y_def)
    next
      case 2
      then show ?thesis using c above hintAt_grown [of pre g es "cm_hint z" "enlarge g [e]" "[e]"] logEntries_grown(2) [of pre g "[e]" es]
        by (simp add: cacheOk_def)
    qed
  qed
  ultimately show ?thesis by (auto simp: cacheOk_def)
qed

lemma hintAt_end:
  assumes "log_rel l s gs idx"
  shows "hintAt gs (toFetchHint (nextLogSequenceMetadata l))" "fh_sn (toFetchHint (nextLogSequenceMetadata l)) = nextLogSequence l"
proof -
  obtain g es where last: "last gs = (g, es)" by fastforce
  then have g: "(g, es) \<in> set gs" and m: "next_sn_meta l = endMeta (g, es)" using assms last_in_set [of gs] by (simp_all add: log_rel_def)
  show "hintAt gs (toFetchHint (nextLogSequenceMetadata l))"
    using m by (intro hintAtI [OF g, of "length es"]) (simp_all add: toFetchHint_def nextLogSequenceMetadata_def endMeta_def Let_def)
  show "fh_sn (toFetchHint (nextLogSequenceMetadata l)) = nextLogSequence l"
    using m by (simp add: toFetchHint_def nextLogSequenceMetadata_def nextLogSequence_def endMeta_def Let_def)
qed

lemma append_entry_ok:
  assumes inv: "log_inv x s gs idx" and q: "outcomes s = []" and room: "loglet_room (Suc k) (lg_loglet x)"
    and app: "appendable gs [e]" and m: "entry_sn m = e_sn e"
  shows "\<exists>l s' gs' idx'. onLoglet (loglet_append (entryBytes e) (storedEntry e)) (x, s)
      = (Ret (okR (length (entryBytes e))), (x\<lparr>lg_loglet := l\<rparr>, s')) \<and> outcomes s' = []
    \<and> log_inv (x\<lparr>lg_loglet := l, lg_cached := cache_append shared (storedEntry e) m (toFetchHint (nextLogSequenceMetadata l)) (lg_cached x)\<rparr>) s' gs' idx'
    \<and> loglet_room k l \<and> keeps (lg_loglet x) l \<and> logEntries gs' = logEntries gs @ [e] \<and> logStart gs' = logStart gs
    \<and> seg_id (fst (last gs')) = seg_id (fst (last gs))"
proof -
  have li: "loglet_inv (lg_loglet x) s gs idx" using inv by (simp add: log_inv_def log_core_def)
  obtain pre g es where gs: "gs = pre @ [(g, es)]" using loglet_inv_split [OF li] by metis
  let ?gs = "pre @ [(enlarge g [e], es @ [e])]"
  from loglet_append_ok [OF li q room app] obtain l s' idx' where
    a: "loglet_append (entryBytes e) (storedEntry e) (lg_loglet x, s) = (Ret (okR (length (entryBytes e))), (l, s'))" "outcomes s' = []"
    "loglet_inv l s' ?gs idx'" "keeps (lg_loglet x) l" "loglet_room k l" "epochSame (log_dir (lg_loglet x)) s s'"
    using gs by auto
  have sn: "e_sn e = logStart gs + int (length (logEntries gs))" and wf: "wfEntry e" using app by (simp_all add: appendable_def)
  have rel: "log_rel l s' ?gs idx'" using a(3) by (simp add: loglet_inv_def)
  have "nextLogSequence l = e_sn e + 1" using end_of_log [OF rel] logEntries_grown [of pre g "[e]" es] sn gs by simp
  then have "cacheOk ?gs (cache_append shared (storedEntry e) m (toFetchHint (nextLogSequenceMetadata l)) (lg_cached x))"
    using cacheOk_append [of pre g es "lg_cached x" e m "toFetchHint (nextLogSequenceMetadata l)" shared] inv gs sn wf m hintAt_end [OF rel]
    by (simp add: log_inv_def log_core_def)
  then have "log_inv (x\<lparr>lg_loglet := l, lg_cached := cache_append shared (storedEntry e) m (toFetchHint (nextLogSequenceMetadata l)) (lg_cached x)\<rparr>) s' ?gs idx'"
    using log_inv_appended [of x s pre g es idx l s' "[e]" idx'] inv a gs by simp
  then show ?thesis
    using a logEntries_grown [of pre g "[e]" es] gs by (intro exI [of _ l] exI [of _ s'] exI [of _ ?gs] exI [of _ idx'])
      (simp add: onLoglet_def onPart_def)
qed

lemma log_flush_ok:
  assumes inv: "log_inv x s gs idx" and q: "outcomes s = []" and room: "log_room k x gs"
  shows "\<exists>l gs'. log_flush (x, s) = (Ret OK, (x\<lparr>lg_loglet := l\<rparr>, s)) \<and> log_inv (x\<lparr>lg_loglet := l\<rparr>) s gs' idx
    \<and> log_room k (x\<lparr>lg_loglet := l\<rparr>) gs' \<and> sameLog gs gs' \<and> nextLogSequence l = nextLogSequence (lg_loglet x)"
proof -
  have li: "loglet_inv (lg_loglet x) s gs idx" using inv by (simp add: log_inv_def log_core_def)
  obtain pre g es where gs: "gs = pre @ [(g, es)]" using loglet_inv_split [OF li] by metis
  from flushActiveSegment_ok [OF li q] gs obtain l where f: "flushActiveSegment (lg_loglet x, s) = (Ret OK, (l, s))"
    "keeps (lg_loglet x) l" "sn_pos_index l = sn_pos_index (lg_loglet x)" "event_ts_sn_index l = event_ts_sn_index (lg_loglet x)"
    "loglet_inv l s (pre @ [(synced g, es)]) idx" by auto
  have same: "sameLog gs (pre @ [(synced g, es)])" using sameLog_synced gs by simp
  then have "nextLogSequence l = nextLogSequence (lg_loglet x)"
    using loglet_inv_entries [OF li] loglet_inv_entries [OF f(5)] by (simp add: sameLog_def)
  moreover have "log_inv (x\<lparr>lg_loglet := l\<rparr>) s (pre @ [(synced g, es)]) idx"
    by (rule log_inv_sameLog [OF inv f(5,2) same]) simp
  moreover have "log_room k (x\<lparr>lg_loglet := l\<rparr>) (pre @ [(synced g, es)])"
    using room f(2-4) gs by (simp add: log_room_def loglet_room_def lgConfig_def keeps_def)
  ultimately show ?thesis
    using same f(1) by (intro exI [of _ l] exI [of _ "pre @ [(synced g, es)]"]) (simp add: log_flush_def onLoglet_def onPart_def)
qed

lemma advance_ok:
  assumes inv: "log_inv x s gs idx" and sn: "committed_sn x < sn" "sn < log_nextLogSequence x"
  shows "log_inv (snd (advanceCommittedSequence 1 sn x)) s gs idx" "committed_sn (snd (advanceCommittedSequence 1 sn x)) = sn"
    "log_room k (snd (advanceCommittedSequence 1 sn x)) gs = log_room k x gs"
  using assms
  by (auto simp: advanceCommittedSequence_def log_inv_def log_core_def log_nextLogSequence_def log_isInmemory_def lgConfig_def log_room_def)

lemma append_local_entry_ok:
  assumes inv: "log_inv x s gs idx" and q: "outcomes s = []" and room: "log_room (Suc k) x gs" and e: "newBatch (log_nextLogSequence x) [e]"
  shows "\<exists>x' s' gs' idx'. append_local_entry shared e (x, s) = (Ret OK, (x', s')) \<and> outcomes s' = []
    \<and> log_inv x' s' gs' idx' \<and> log_room k x' gs' \<and> logEntries gs' = logEntries gs @ [e] \<and> logStart gs' = logStart gs
    \<and> committed_sn x' = committed_sn x"
proof -
  have sn: "e_sn e = log_nextLogSequence x" and bytes: "unat (of_nat (length (entryBytes e)) :: u32) = length (entryBytes e)"
    using e by (auto simp: newBatch_def unat_of_nat simp del: length_entryBytes)
  have rm: "loglet_room (Suc (Suc (2 * k))) (lg_loglet x)" "seg_id (fst (last gs)) + 1 < 2 ^ 28" using room by (simp_all add: log_room_def)
  obtain l1 s1 gs1 where r: "maybeRoll (of_nat (length (entryBytes e))) (log_nextLogSequence x) (x, s)
      = (Ret (okR (Some (fst (last gs1)))), (x\<lparr>lg_loglet := l1\<rparr>, s1))" "outcomes s1 = []"
    "log_inv (x\<lparr>lg_loglet := l1\<rparr>) s1 gs1 idx" "loglet_room (Suc (2 * k)) l1" "sameLog gs gs1" "keeps (lg_loglet x) l1"
    "seg_id (fst (last gs1)) \<le> seg_id (fst (last gs)) + 1"
    "snd (last gs1) = [] \<or> seg_size (fst (last gs1)) + length (entryBytes e) \<le> segment_size (lgConfig x)"
    using maybeRoll_ok [OF inv q rm, of "of_nat (length (entryBytes e))"] unfolding bytes by blast
  define x1 where "x1 = x\<lparr>lg_loglet := l1\<rparr>"
  have x1: "lg_loglet x1 = l1" by (simp add: x1_def)
  have next1: "log_nextLogSequence x1 = log_nextLogSequence x"
    using loglet_inv_entries [of l1 s1 gs1 idx] loglet_inv_entries [of "lg_loglet x" s gs idx] inv r(3,5) x1
    by (simp add: log_nextLogSequence_def log_inv_def log_core_def sameLog_def)
  have app: "appendable gs1 [e]"
    using r(8) room e next1 by (intro appendable_rolled [OF r(3) [folded x1_def]]) (auto simp: log_room_def simp del: length_entryBytes)
  define m where "m = \<lparr>entry_sn = e_sn e, segment_base_sn = Some (base_sn (fst (last gs1))), file_position = Some (seg_size (fst (last gs1)))\<rparr>"
  have "entry_sn m = e_sn e" by (simp add: m_def)
  from append_entry_ok [OF r(3) [folded x1_def] r(2) r(4) [folded x1] app this, of shared] obtain l2 s2 gs2 idx2 where
    a: "onLoglet (loglet_append (entryBytes e) (storedEntry e)) (x1, s1) = (Ret (okR (length (entryBytes e))), (x1\<lparr>lg_loglet := l2\<rparr>, s2))" "outcomes s2 = []"
    and fin: "log_inv (x1\<lparr>lg_loglet := l2, lg_cached := cache_append shared (storedEntry e) m (toFetchHint (nextLogSequenceMetadata l2)) (lg_cached x1)\<rparr>) s2 gs2 idx2"
    and l2: "loglet_room (2 * k) l2" "keeps (lg_loglet x1) l2" "logEntries gs2 = logEntries gs1 @ [e]" "logStart gs2 = logStart gs1"
      "seg_id (fst (last gs2)) = seg_id (fst (last gs1))" by blast
  define x2 where "x2 = x1\<lparr>lg_loglet := l2, lg_cached := cache_append shared (storedEntry e) m (toFetchHint (nextLogSequenceMetadata l2)) (lg_cached x1)\<rparr>"
  have "\<not> log_isInmemory x1" using r(3) by (simp add: log_inv_def log_core_def x1_def)
  then have "append_local_entry shared e (x, s) = (Ret OK, (x2, s2))"
    using r(1) a(1) sn by (simp add: append_local_entry_def Let_def x1_def x2_def m_def del: length_entryBytes flip: storedEntry_def entryBytes_def)
  moreover have "log_room k x2 gs2"
    using l2 r(6,7) room by (simp add: log_room_def x2_def x1_def lgConfig_def keeps_def mapRoom_mono)
  ultimately show ?thesis using fin a(2) l2(3,4) r(5)
    by (intro exI [of _ x2] exI [of _ s2] exI [of _ gs2] exI [of _ idx2]) (simp add: x2_def x1_def sameLog_def)
qed

lemma appendLocal_ok:
  assumes inv: "log_inv x s gs idx" and q: "outcomes s = []" and room: "log_room (Suc k) x gs"
    and open_log: "\<not> lg_paused x" "payloadSize entry \<le> max_entry_size (lgConfig x)"
    and e: "e = entry\<lparr>e_sn := log_nextLogSequence x, e_append_timestamp := clock s\<rparr>" "newBatch (log_nextLogSequence x) [e]"
  shows "\<exists>x' s' gs' idx'. appendLocal shared entry (x, s) = (Ret (okR (log_nextLogSequence x)), (x', s')) \<and> outcomes s' = []
    \<and> log_inv x' s' gs' idx' \<and> log_room k x' gs' \<and> logEntries gs' = logEntries gs @ [e] \<and> logStart gs' = logStart gs
    \<and> committed_sn x' = log_nextLogSequence x"
proof -
  obtain x1 s1 gs1 idx1 where a: "append_local_entry shared e (x, s) = (Ret OK, (x1, s1))" "outcomes s1 = []" "log_inv x1 s1 gs1 idx1" "log_room k x1 gs1"
    "logEntries gs1 = logEntries gs @ [e]" "logStart gs1 = logStart gs" "committed_sn x1 = committed_sn x"
    using append_local_entry_ok [OF inv q room e(2), of shared] by blast
  have "\<exists>l gs2. (if needFlush (lg_loglet x1) then bindE log_flush (\<lambda>_. retE ()) else retE ()) (x1, s1) = (Ret (), (x1\<lparr>lg_loglet := l\<rparr>, s1))
    \<and> log_inv (x1\<lparr>lg_loglet := l\<rparr>) s1 gs2 idx1 \<and> log_room k (x1\<lparr>lg_loglet := l\<rparr>) gs2 \<and> sameLog gs1 gs2"
  proof (cases "needFlush (lg_loglet x1)")
    case True
    then show ?thesis using log_flush_ok [OF a(3,2,4)] by auto
  next
    case False
    then show ?thesis using a(3,4) by (intro exI [of _ "lg_loglet x1"] exI [of _ gs1]) simp
  qed
  then obtain l gs2 where f: "(if needFlush (lg_loglet x1) then bindE log_flush (\<lambda>_. retE ()) else retE ()) (x1, s1) = (Ret (), (x1\<lparr>lg_loglet := l\<rparr>, s1))"
    "log_inv (x1\<lparr>lg_loglet := l\<rparr>) s1 gs2 idx1" "log_room k (x1\<lparr>lg_loglet := l\<rparr>) gs2" "sameLog gs1 gs2" by blast
  let ?x = "snd (advanceCommittedSequence 1 (log_nextLogSequence x) (x1\<lparr>lg_loglet := l\<rparr>))"
  have "log_nextLogSequence (x1\<lparr>lg_loglet := l\<rparr>) = log_nextLogSequence x + 1"
    using loglet_inv_entries [of l s1 gs2 idx1] loglet_inv_entries [of "lg_loglet x" s gs idx] inv f(2,4) a(5,6)
    by (simp add: log_nextLogSequence_def log_inv_def log_core_def sameLog_def)
  moreover have "committed_sn x < log_nextLogSequence x" using inv by (simp add: log_inv_def log_core_def)
  ultimately have "log_inv ?x s1 gs2 idx1" "committed_sn ?x = log_nextLogSequence x" "log_room k ?x gs2"
    using advance_ok(1,2) [OF f(2), of "log_nextLogSequence x"] advance_ok(3) [OF f(2), of "log_nextLogSequence x" k] f(3) a(7) by simp_all
  moreover have "appendLocal shared entry (x, s) = (Ret (okR (log_nextLogSequence x)), (?x, s1))"
    using open_log a(1) f(1) e(1) by (simp add: appendLocal_def Let_def not_less)
  ultimately show ?thesis
    using a(2,5,6) f(4) by (intro exI [of _ ?x] exI [of _ s1] exI [of _ gs2] exI [of _ idx1]) (simp add: sameLog_def)
qed

section \<open>The log as a store\<close>

text \<open>\<^verbatim>\<open>Log::fetch\<close> up to the end of the log, without waiting.\<close>

definition logReader :: "(Log \<times> filesys) fetcher" where
  "logReader max_size sn hint = log_fetch id sn max_size 0 hint LogEnd"

definition logView :: "Log \<times> filesys \<Rightarrow> contents \<times> SequencePosition list \<times> nat \<Rightarrow> bool" where
  "logView = (\<lambda>(x, s) (gs, idx, k). log_inv x s gs idx \<and> outcomes s = [] \<and> log_room k x gs)"

lemma log_room_queried: "queried (lg_loglet x) l \<Longrightarrow> log_room k (x\<lparr>lg_loglet := l\<rparr>) gs = log_room k x gs"
proof -
  assume "queried (lg_loglet x) l"
  then obtain m where l: "l = lg_loglet x\<lparr>sn_pos_index := m\<rparr>" and same: "same_but_segs (sn_pos_index (lg_loglet x)) m"
    by (auto simp: queried_def)
  let ?a = "pm_segs m" and ?b = "pm_segs (sn_pos_index (lg_loglet x))"
  have f: "map fst ?a = map fst ?b" by (rule same_but_segsD(6) [OF same])
  then have "?a = [] \<longleftrightarrow> ?b = []" by auto
  moreover have "?a \<noteq> [] \<Longrightarrow> fst (last ?a) = fst (last ?b)" using arg_cong [OF f, of last] calculation by (simp add: last_map)
  ultimately have "nextSegmentID m = nextSegmentID (sn_pos_index (lg_loglet x))" by (simp add: nextSegmentID_def)
  then show ?thesis by (simp add: l log_room_def loglet_room_def mapRoom_def lgConfig_def)
qed

lemma log_inv_next: "log_inv x s gs idx \<Longrightarrow> log_nextLogSequence x = logStart gs + int (length (logEntries gs))"
  using loglet_inv_entries [of "lg_loglet x" s gs idx] by (simp add: log_inv_def log_core_def log_nextLogSequence_def)

lemma log_core_next: "log_core x s gs idx \<Longrightarrow> log_nextLogSequence x = logStart gs + int (length (logEntries gs))"
  using loglet_inv_entries [of "lg_loglet x" s gs idx] by (simp add: log_core_def log_nextLogSequence_def)

lemma log_core_loglet: "log_core x s gs idx \<Longrightarrow> loglet_inv l s gs idx \<Longrightarrow> queried (lg_loglet x) l \<Longrightarrow> log_core (x\<lparr>lg_loglet := l\<rparr>) s gs idx"
  by (auto simp: log_core_def log_isInmemory_def lgConfig_def log_nextLogSequence_def nextLogSequence_def queried_def)

definition coreView :: "Log \<times> filesys \<Rightarrow> contents \<times> SequencePosition list \<Rightarrow> bool" where
  "coreView = (\<lambda>(x, s) (gs, idx). log_core x s gs idx \<and> outcomes s = [])"

interpretation reading: log_reader logReader coreView "\<lambda>v. logStart (fst v)" "\<lambda>v. logEntries (fst v)" "\<lambda>v. goodHint (fst v)"
proof (unfold_locales, goal_cases)
  case (1 st v i max_size hint)
  obtain x s gs idx where st: "st = (x, s)" "v = (gs, idx)" by (cases st; cases v) blast
  have inv: "log_core x s gs idx" "outcomes s = []" using 1(1) st by (simp_all add: coreView_def)
  have "logStart gs + int i < fetchEnd LogEnd x" using log_core_next [OF inv(1)] 1(2) st by (simp add: fetchEnd_def)
  moreover have "i < length (logEntries gs)" "goodHint gs (logStart gs + int i) hint" using 1(2,4) st by simp_all
  ultimately obtain l r n where f: "log_fetch id (logStart gs + int i) max_size 0 hint LogEnd (x, s) = (Ret (okR r), (x\<lparr>lg_loglet := l\<rparr>, s))"
    "served gs i (logStart gs + int i) (fetchEnd LogEnd x) n r" "loglet_inv l s gs idx" "queried (lg_loglet x) l"
    using log_fetch_core [OF inv _ refl 1(3)] by blast
  then show ?case
    using st inv(2) log_core_loglet [OF inv(1)]
    by (intro exI [of _ r] exI [of _ "(x\<lparr>lg_loglet := l\<rparr>, s)"] exI [of _ n]) (simp add: logReader_def served_def coreView_def add.assoc)
qed

interpretation store: log_store logReader logView "\<lambda>v. logStart (fst v)" "\<lambda>v. logEntries (fst v)" "\<lambda>v. goodHint (fst v)"
  "log_append shared" newBatch "\<lambda>v. snd (snd v)"
  for shared
proof (unfold_locales, goal_cases)
  case (1 st v i max_size hint)
  obtain x s gs idx k where st: "st = (x, s)" "v = (gs, idx, k)" by (cases st; cases v) blast
  have inv: "log_inv x s gs idx" "outcomes s = []" "log_room k x gs" using 1(1) st by (simp_all add: logView_def)
  have "logStart gs + int i < fetchEnd LogEnd x" using log_inv_next [OF inv(1)] 1(2) st by (simp add: fetchEnd_def)
  moreover have "i < length (logEntries gs)" "goodHint gs (logStart gs + int i) hint" using 1(2,4) st by simp_all
  ultimately obtain l r n where f: "log_fetch id (logStart gs + int i) max_size 0 hint LogEnd (x, s) = (Ret (okR r), (x\<lparr>lg_loglet := l\<rparr>, s))"
    "served gs i (logStart gs + int i) (fetchEnd LogEnd x) n r" "loglet_inv l s gs idx" "queried (lg_loglet x) l"
    using log_fetch_ok [OF inv(1,2) _ refl 1(3)] by blast
  have "logView (x\<lparr>lg_loglet := l\<rparr>, s) (gs, idx, k)"
    using log_inv_loglet [OF inv(1) f(3,4)] inv(2,3) log_room_queried [OF f(4)] by (simp add: logView_def)
  then show ?case
    using st f(1,2) by (intro exI [of _ r] exI [of _ "(x\<lparr>lg_loglet := l\<rparr>, s)"] exI [of _ n]) (simp add: logReader_def served_def add.assoc)
next
  case (2 st v es)
  obtain x s gs idx k where st: "st = (x, s)" "v = (gs, idx, k)" by (cases st; cases v) blast
  have inv: "log_inv x s gs idx" "outcomes s = []" "log_room k x gs" using 2(1) st by (simp_all add: logView_def)
  have "newBatch (log_nextLogSequence x) es" using 2(2) st log_inv_next [OF inv(1)] by simp
  moreover have "log_room (k - length es + length es) x gs" using 2(3) st inv(3) by simp
  ultimately obtain x' s' gs' idx' where a: "log_append shared es (x, s) = (Ret (okR (length (logBytes es))), (x', s'))" "outcomes s' = []"
    "log_inv x' s' gs' idx'" "log_room (k - length es) x' gs'" "logEntries gs' = logEntries gs @ es" "logStart gs' = logStart gs"
    using log_append_ok [OF inv(1,2)] by blast
  then show ?case
    using st by (intro exI [of _ "length (logBytes es)"] exI [of _ "(x', s')"] exI [of _ "(gs', idx', k - length es)"]) (simp add: logView_def)
qed simp

end
