(* ===== verification/Nlog_Log_Retention.thy ===== *)
theory Nlog_Log_Retention
  imports Nlog_Log_Store
begin

text \<open>
  Retention: the segments \<^verbatim>\<open>Loglet::deletableSegments\<close> selects, their removal from the table, the
  renaming of their files and the trimming of the indexes, for the three rules of
  \<^verbatim>\<open>Log::deleteOldSegments\<close>. The log keeps its invariant, so it can be appended to and fetched from
  afterwards.
\<close>

section \<open>Trimming the indexes\<close>

lemma nextSegmentID_front:
  assumes "map fst (pm_segs m') = drop k (map fst (pm_segs m))"
  shows "nextSegmentID m' \<le> nextSegmentID m"
proof (cases "pm_segs m' = []")
  case False
  then have ne: "drop k (map fst (pm_segs m)) \<noteq> []" using assms by auto
  then have "fst (last (pm_segs m')) = last (map fst (pm_segs m))" using assms False last_map [of "pm_segs m'" fst] by simp
  moreover have "pm_segs m \<noteq> []" using ne by auto
  ultimately show ?thesis using False by (simp add: nextSegmentID_def last_map)
qed (simp add: nextSegmentID_def)

context mono_key_value
begin

lemma trim_head_ok:
  assumes ok: "mapOk K valid base m s xs" and q: "outcomes s = []"
  shows "\<exists>m' s' k. trim_head K proj target (m, s) = (Ret OK, (m', s')) \<and> outcomes s' = []
    \<and> mapOk K valid base m' s' (drop k xs) \<and> elsewhere base s s' \<and> nextSegmentID m' \<le> nextSegmentID m"
proof -
  obtain fulls cur where rel: "map_rel K valid base m s fulls cur" "xs = concat fulls @ cur" "cur \<noteq> [] \<or> fulls = []"
    and mx: "0 < pm_max_size m" using ok by (auto simp: mapOk_def)
  obtain m' s' k where t: "trim_head K proj target (m, s) = (Ret OK, (m', s'))" "outcomes s' = []"
    "map_rel K valid base m' s' (drop k fulls) cur" "elsewhere base s s'" "pm_max_size m' = pm_max_size m"
    "map fst (pm_segs m') = drop k (map fst (pm_segs m))"
    using trim_head_drops [OF rel(1) q, of proj target] unfolding head_dropped_def by blast
  have "concat fulls = concat (take k fulls) @ concat (drop k fulls)" by (simp flip: concat_append)
  then have "concat (drop k fulls) @ cur = drop (length (concat (take k fulls))) xs" using rel(2) by simp
  then have "mapOk K valid base m' s' (drop (length (concat (take k fulls))) xs)"
    using t(3,5) mx rel(3) by (intro mapOkI [of _ _ _ _ _ "drop k fulls" cur]) auto
  then show ?thesis using t(1,2,4) nextSegmentID_front [OF t(6)] by blast
qed

end

section \<open>Renaming the files\<close>

lemma path_extension_logFile: "path_extension (logFile d i b []) = ''.log''"
proof -
  have "takeWhile (\<lambda>c. c \<noteq> CHR ''.'') (rev (pad0 8 (nat_to_dec i) @ ''-'' @ format_int 20 b @ ''.log'')) = ''gol''" by simp
  then show ?thesis unfolding path_extension_def Let_def filename_logFile by simp
qed

lemma deleted_file: "logFile d i b [] @ DELETED_FILE_SUFFIX = logFile d i b DELETED_FILE_SUFFIX"
  "logFile d j c [] \<noteq> logFile d i b DELETED_FILE_SUFFIX"
proof -
  show "logFile d i b [] @ DELETED_FILE_SUFFIX = logFile d i b DELETED_FILE_SUFFIX" by (simp add: logFile_def)
  have "last (logFile d j c []) = CHR ''g''" "last (logFile d i b DELETED_FILE_SUFFIX) = CHR ''d''"
    by (simp_all add: logFile_def DELETED_FILE_SUFFIX_def LOG_FILE_SUFFIX_def)
  then show "logFile d j c [] \<noteq> logFile d i b DELETED_FILE_SUFFIX" by auto
qed

text \<open>The files of segments before and after they are marked.\<close>

definition segFiles :: "string \<Rightarrow> LogSegment list \<Rightarrow> string set" where
  "segFiles d gs = (\<Union>g \<in> set gs. {logFile d (seg_id g) (base_sn g) [], logFile d (seg_id g) (base_sn g) DELETED_FILE_SUFFIX})"

lemma logFile_not_in_segFiles: "i \<notin> seg_id ` set gs \<Longrightarrow> logFile d i b [] \<notin> segFiles d gs"
  unfolding segFiles_def using logFile_inject deleted_file(2) by fastforce

lemma segFiles_not_index:
  "p \<in> mapFiles (posBase d) \<Longrightarrow> p \<notin> segFiles d gs" "p \<in> mapFiles (tsBase d) \<Longrightarrow> p \<notin> segFiles d gs"
  "p \<in> mapFiles (epochBase d) \<Longrightarrow> p \<notin> segFiles d gs"
  using logFile_outside by (auto simp: segFiles_def)

lemma mark_deleted_ok:
  assumes "outcomes s = []" "\<forall>g \<in> set gs. named d g \<and> content s (logFile d (seg_id g) (base_sn g) []) \<noteq> None" "distinct (map seg_id gs)"
  shows "\<exists>gs' s'. mark_deleted gs s = ((OK, gs'), s') \<and> outcomes s' = []
    \<and> (\<forall>p. p \<notin> segFiles d gs \<longrightarrow> content s' p = content s p)
    \<and> map (\<lambda>g. (seg_id g, base_sn g, seg_filename g)) gs'
      = map (\<lambda>g. (seg_id g, base_sn g, logFile d (seg_id g) (base_sn g) DELETED_FILE_SUFFIX)) gs"
  using assms
proof (induction gs arbitrary: s)
  case (Cons g gs)
  let ?f = "logFile d (seg_id g) (base_sn g) []" and ?h = "logFile d (seg_id g) (base_sn g) DELETED_FILE_SUFFIX"
  have n: "named d g" using Cons.prems(2) by simp
  obtain bs where bs: "content s ?f = Some bs" using Cons.prems(2) by auto
  obtain s1 where s1: "sys_rename ?f ?h s = (0, s1)" "outcomes s1 = []" "content s1 = (content s)(?f := None, ?h \<mapsto> bs)"
    using sys_rename_quiet [OF Cons.prems(1) bs deleted_file(2)] by blast
  define g1 where "g1 = g\<lparr>seg_log := (seg_log g)\<lparr>fle_file := \<lparr>filename = ?h, read_only = False, fd = ?h\<rparr>\<rparr>\<rparr>"
  have one: "changeFileSuffix g DELETED_FILE_SUFFIX s = ((OK, g1), s1)"
    using s1(1) n path_extension_logFile [of d "seg_id g" "base_sn g"] deleted_file(1) [of d "seg_id g" "base_sn g"]
    by (simp add: changeFileSuffix_def renameTo_def seg_filename_def named_def g1_def DELETED_FILE_SUFFIX_def)
  have "content s1 (logFile d (seg_id g') (base_sn g') []) = content s (logFile d (seg_id g') (base_sn g') [])" if "g' \<in> set gs" for g'
  proof -
    have "seg_id g' \<noteq> seg_id g" using that Cons.prems(3) by (metis distinct.simps(2) image_eqI list.map(2) list.set_map)
    then have "logFile d (seg_id g') (base_sn g') [] \<noteq> ?f" by (blast dest: logFile_inject)
    then show ?thesis using s1(3) deleted_file(2) by simp
  qed
  then have "\<forall>g' \<in> set gs. named d g' \<and> content s1 (logFile d (seg_id g') (base_sn g') []) \<noteq> None" using Cons.prems(2) by simp
  from Cons.IH [OF s1(2) this] Cons.prems(3) obtain gs' s' where
    r: "mark_deleted gs s1 = ((OK, gs'), s')" "outcomes s' = []" "\<forall>p. p \<notin> segFiles d gs \<longrightarrow> content s' p = content s1 p"
    "map (\<lambda>g. (seg_id g, base_sn g, seg_filename g)) gs' = map (\<lambda>g. (seg_id g, base_sn g, logFile d (seg_id g) (base_sn g) DELETED_FILE_SUFFIX)) gs"
    by auto
  have "\<forall>p. p \<notin> segFiles d (g # gs) \<longrightarrow> content s' p = content s p" using r(3) s1(3) by (simp add: segFiles_def)
  then show ?case using one r by (intro exI [of _ "g1 # gs'"] exI [of _ s']) (simp add: g1_def seg_filename_def)
qed simp

section \<open>Removing the first segments\<close>

lemma filter_above: "\<forall>y \<in> set ys. k < fst y \<Longrightarrow> filter (\<lambda>y. fst y \<noteq> (k :: int)) ys = ys"
  by (induction ys) auto

lemma fold_remove_front:
  "segs_wf (xs @ ys) \<Longrightarrow> fold (\<lambda>g. segs_remove (base_sn g)) (map snd xs) (xs @ ys) = ys"
proof (induction xs)
  case (Cons x xs)
  then have wf: "segs_wf (xs @ ys)" "base_sn (snd x) = fst x" "\<forall>y \<in> set (xs @ ys). fst x < fst y" by (simp_all add: segs_wf_Cons)
  then have "filter (\<lambda>y. fst y \<noteq> fst x) (xs @ ys) = xs @ ys" by (simp add: filter_above)
  then have "segs_remove (base_sn (snd x)) (x # xs @ ys) = xs @ ys" using wf(2) by (simp add: segs_remove_def map_erase_def)
  then show ?case using Cons.IH [OF wf(1)] by simp
qed simp

lemma chained_drop: "chained (pre @ post) \<Longrightarrow> chained post"
  by (induction pre) (auto dest: chained_Cons)

text \<open>A record of a removed segment is left over.\<close>

lemma pointsTo_front:
  assumes pt: "pointsTo (pre @ post) r" and ch: "chained (pre @ post)" and h: "\<forall>(g, es) \<in> set (pre @ post). holds s g es"
  shows "pointsTo post r"
  using pt
proof (cases rule: pointsTo_cases)
  case (entry f fs i)
  show ?thesis
  proof (cases "(f, fs) \<in> set post")
    case True
    then show ?thesis using entry by (intro pointsTo_entry [of f fs _ i]) auto
  next
    case False
    then obtain a b where ab: "pre = a @ (f, fs) # b" using entry(1) by (auto dest: split_list)
    have "holds s f fs" using h entry(1) by auto
    then have lt: "entryStart fs i < 2 ^ 36" using holdsD(7) entryStart_le [of fs i] by (meson le_less_trans)
    have "sp_sn r < base_sn g \<and> sp_file_position r < packed g 0" if "(g, es) \<in> set post" for g es
    proof -
      have "base_sn f + int (length fs) \<le> base_sn g \<and> seg_id f < seg_id g"
        using chained_after [of a f fs "b @ post" g es] ch ab that by simp
      then show ?thesis using entry lt by (simp add: packed_def)
    qed
    then show ?thesis unfolding pointsTo_def by blast
  qed
next
  case left_over
  then show ?thesis by (auto simp: pointsTo_def)
qed

definition shrinks :: "Loglet \<Rightarrow> Loglet \<Rightarrow> bool" where
  "shrinks l l' \<longleftrightarrow> log_dir l' = log_dir l \<and> log_config l' = log_config l \<and> nextLogSequence l' = nextLogSequence l
     \<and> nextSegmentID (sn_pos_index l') \<le> nextSegmentID (sn_pos_index l) \<and> nextSegmentID (event_ts_sn_index l') \<le> nextSegmentID (event_ts_sn_index l)"

lemma shrinks_room: "shrinks l l' \<Longrightarrow> loglet_room k l \<Longrightarrow> loglet_room k l'"
  by (simp add: shrinks_def loglet_room_def mapRoom_def)

text \<open>\<^verbatim>\<open>removeSegmentFilesAsync\<close>: the indexes lose records at the front.\<close>

lemma removeSegmentFilesAsync_ok:
  assumes ts: "tsOk l s ts" and pos: "posOk l s idx" and q: "outcomes s = []"
  shows "\<exists>l' s' j k. removeSegmentFilesAsync gs sn (l, s) = (Ret (), (l', s')) \<and> outcomes s' = []
    \<and> tsOk l' s' (drop j ts) \<and> posOk l' s' (drop k idx) \<and> outsideIndexes (log_dir l) s s' \<and> shrinks l l'
    \<and> segments l' = segments l \<and> next_sn_meta l' = next_sn_meta l \<and> deletions l' = deletions l @ gs
    \<and> max_etimestamp_and_sn_so_far l' = max_etimestamp_and_sn_so_far l"
proof -
  let ?d = "log_dir l"
  obtain tm s1 j where t: "TimestampSequenceIndex_trimHead sn (event_ts_sn_index l, s) = (Ret OK, (tm, s1))" "outcomes s1 = []"
    "mapOk TimestampSequence_ops valid_TimestampSequence (tsBase ?d) tm s1 (drop j ts)" "elsewhere (tsBase ?d) s s1"
    "nextSegmentID tm \<le> nextSegmentID (event_ts_sn_index l)"
    using ts.trim_head_ok [OF ts q] unfolding TimestampSequenceIndex_trimHead_def trimHeadByValue_def by blast
  have "posOk l s1 idx"
    by (rule mapOk_frame [OF pos]) (use t(4) index_files_disjoint(1) [of ?d] in \<open>unfold elsewhere_def, blast\<close>)
  then obtain pm s2 k where p: "SequencePositionIndex_trimHead sn (sn_pos_index l, s1) = (Ret OK, (pm, s2))" "outcomes s2 = []"
    "mapOk SequencePosition_ops valid_SequencePosition (posBase ?d) pm s2 (drop k idx)" "elsewhere (posBase ?d) s1 s2"
    "nextSegmentID pm \<le> nextSegmentID (sn_pos_index l)"
    using sp.trim_head_ok [OF _ t(2)] unfolding SequencePositionIndex_trimHead_def trimHead_def by blast
  have ts2: "mapOk TimestampSequence_ops valid_TimestampSequence (tsBase ?d) tm s2 (drop j ts)"
    by (rule mapOk_frame [OF t(3)]) (use p(4) index_files_disjoint(1) [of ?d] in \<open>unfold elsewhere_def, blast\<close>)
  define l' where "l' = l\<lparr>event_ts_sn_index := tm, sn_pos_index := pm, deletions := deletions l @ gs\<rparr>"
  have "removeSegmentFilesAsync gs sn (l, s) = (Ret (), (l', s2))"
    using t(1) p(1) by (simp add: removeSegmentFilesAsync_def onTs_def onSnPos_def onPart_def l'_def)
  moreover have "outsideIndexes ?d s s2" using t(4) p(4) by (simp add: outsideIndexes_def elsewhere_def)
  ultimately show ?thesis using p(2,3,5) t(5) ts2
    by (intro exI [of _ l'] exI [of _ s2] exI [of _ j] exI [of _ k]) (simp add: l'_def shrinks_def nextLogSequence_def)
qed

lemma chained_ids: "chained gs \<Longrightarrow> sorted_wrt (<) (map (\<lambda>x. seg_id (fst x)) gs)"
proof (induction gs)
  case (Cons x gs)
  have "seg_id (fst x) < seg_id (fst y)" if "y \<in> set gs" for y
    using chained_after [of "[]" "fst x" "snd x" gs "fst y" "snd y"] Cons.prems that by simp
  then show ?case using Cons.IH [OF chained_Cons [OF Cons.prems]] by simp
qed simp

lemma ids_distinct:
  assumes "chained (pre @ post)"
  shows "distinct (map seg_id (map fst pre))" "(g, es) \<in> set post \<Longrightarrow> seg_id g \<notin> seg_id ` set (map fst pre)"
proof -
  have s: "sorted_wrt (<) (map (\<lambda>x. seg_id (fst x)) pre @ map (\<lambda>x. seg_id (fst x)) post)" using chained_ids [OF assms] by simp
  then have "distinct (map (\<lambda>x. seg_id (fst x)) pre)" by (simp add: sorted_wrt_append strict_sorted_iff)
  then show "distinct (map seg_id (map fst pre))" by (simp add: comp_def)
  show "seg_id g \<notin> seg_id ` set (map fst pre)" if g: "(g, es) \<in> set post"
  proof
    assume "seg_id g \<in> seg_id ` set (map fst pre)"
    then obtain y where y: "y \<in> set pre" "seg_id g = seg_id (fst y)" by auto
    have "seg_id (fst y) < seg_id (fst (g, es))" using s y(1) g unfolding sorted_wrt_append set_map by blast
    then show False using y(2) by simp
  qed
qed

lemma segments_front:
  assumes "log_rel l s (pre @ post) idx"
  shows "map snd (take (length pre) (segments l)) = map fst pre" "map snd (drop (length pre) (segments l)) = map fst post"
proof -
  have "map snd (segments l) = map fst pre @ map fst post" using assms by (simp add: log_rel_def allSegments_def)
  then show "map snd (take (length pre) (segments l)) = map fst pre" "map snd (drop (length pre) (segments l)) = map fst post"
    by (simp_all add: take_map [symmetric] drop_map [symmetric])
qed

lemma remove_front_segments:
  assumes rel: "log_rel l s (pre @ post) idx"
  shows "fold (\<lambda>g. segs_remove (base_sn g)) (map fst pre) (segments l) = drop (length pre) (segments l)"
proof -
  have "segs_wf (take (length pre) (segments l) @ drop (length pre) (segments l))" using rel by (simp add: log_rel_def)
  from fold_remove_front [OF this] show ?thesis by (simp add: segments_front [OF rel])
qed

lemma first_left:
  assumes rel: "log_rel l s (pre @ post) idx" and ne: "post \<noteq> []"
  shows "map_option base_sn (firstSegment (drop (length pre) (segments l))) = Some (logStart post)"
proof -
  have m: "map snd (drop (length pre) (segments l)) = map fst post" by (rule segments_front [OF rel])
  then have "drop (length pre) (segments l) \<noteq> []" using ne by auto
  then show ?thesis using arg_cong [OF m, of hd] ne by (simp add: firstSegment_def logStart_def hd_map)
qed

text \<open>The invariant for what is left of the segments.\<close>

lemma loglet_inv_front:
  assumes inv: "loglet_inv l s (pre @ post) idx" and ne: "post \<noteq> []"
    and l': "segments l' = drop (length pre) (segments l)" "log_dir l' = log_dir l \<and> next_sn_meta l' = next_sn_meta l
      \<and> max_etimestamp_and_sn_so_far l' = max_etimestamp_and_sn_so_far l"
    and ts: "tsOk l' s' ts" and pos: "posOk l' s' (drop k idx)"
    and s': "\<And>p. p \<notin> mapFiles (posBase (log_dir l)) \<Longrightarrow> p \<notin> mapFiles (tsBase (log_dir l)) \<Longrightarrow> p \<notin> segFiles (log_dir l) (map fst pre) \<Longrightarrow>
      content s' p = content s p"
  shows "loglet_inv l' s' post (drop k idx)"
proof -
  let ?d = "log_dir l"
  have rel: "log_rel l s (pre @ post) idx" and names: "\<forall>(g, es) \<in> set (pre @ post). named ?d g"
    and fresh: "freshAbove ?d (seg_id (fst (last (pre @ post)))) s" using inv by (simp_all add: loglet_inv_def)
  have ch: "chained (pre @ post)" and hold: "\<forall>(g, es) \<in> set (pre @ post). holds s g es" and wf: "segs_wf (segments l)"
    and ix: "index_rel (sn_pos_index l) s (pre @ post) idx" using rel by (simp_all add: log_rel_def)
  have other: "content s' (logFile ?d i b []) = content s (logFile ?d i b [])" if "i \<notin> seg_id ` set (map fst pre)" for i b
    by (rule s') (simp_all add: logFile_not_in_segFiles [OF that])
  have "\<forall>(g, es) \<in> set post. holds s' g es"
  proof safe
    fix g es
    assume g: "(g, es) \<in> set post"
    have "seg_id g \<notin> seg_id ` set (map fst pre)" by (rule ids_distinct(2) [OF ch g])
    moreover have "named ?d g" "holds s g es" using g names hold by auto
    ultimately show "holds s' g es" using other holds_frame [of s g es s'] by (simp add: named_def)
  qed
  moreover have "index_rel (sn_pos_index l') s' post (drop k idx)"
  proof (rule index_relI [OF pos])
    have "keys_ascend (\<lambda>r. int (sp_file_position r)) (take k idx @ drop k idx)" using ix by (simp add: index_rel_def)
    then show "keys_ascend (\<lambda>r. int (sp_file_position r)) (drop k idx)" by (simp only: keys_ascend_append)
    show "\<forall>r \<in> set (drop k idx). pointsTo post r"
      using ix pointsTo_front [OF _ ch hold] by (auto simp: index_rel_def dest: in_set_dropD)
  qed
  moreover have "segs_wf (drop (length pre) (segments l))" using wf segs_wf_append [of "take (length pre) (segments l)" "drop (length pre) (segments l)"] by simp
  ultimately have "log_rel l' s' post (drop k idx)"
    using ne l' chained_drop [OF ch] rel segments_front(2) [OF rel] by (simp add: log_rel_def allSegments_def)
  moreover have "freshAbove ?d (seg_id (fst (last post))) s'"
    unfolding freshAbove_def
  proof (intro allI impI)
    fix i b
    assume i: "seg_id (fst (last post)) < i"
    have "seg_id f < i" if f: "f \<in> set (map fst pre)" for f
    proof -
      obtain fs where "(f, fs) \<in> set pre" using f by auto
      then obtain a c where "pre = a @ (f, fs) # c" by (blast dest: split_list)
      then show ?thesis using chained_after [of a f fs "c @ post" "fst (last post)" "snd (last post)"] ch ne i by simp
    qed
    then have "i \<notin> seg_id ` set (map fst pre)" by fastforce
    then show "content s' (logFile ?d i b []) = None" using other fresh i ne by (simp add: freshAbove_def)
  qed
  ultimately show ?thesis using inv l' ts pos names by (auto simp: loglet_inv_def)
qed

lemma removeSegments_front:
  assumes inv: "loglet_inv l s (pre @ post) idx" and q: "outcomes s = []" and ne: "pre \<noteq> []" "post \<noteq> []"
  shows "\<exists>l' s' idx'. removeSegments (map fst pre) None (l, s) = (Ret OK, (l', s')) \<and> outcomes s' = []
    \<and> loglet_inv l' s' post idx' \<and> epochSame (log_dir l) s s' \<and> shrinks l l'
    \<and> map (\<lambda>g. (seg_id g, base_sn g, seg_filename g)) (deletions l') = map (\<lambda>g. (seg_id g, base_sn g, seg_filename g)) (deletions l)
      @ map (\<lambda>g. (seg_id g, base_sn g, logFile (log_dir l) (seg_id g) (base_sn g) DELETED_FILE_SUFFIX)) (map fst pre)"
proof -
  let ?d = "log_dir l" and ?del = "map fst pre"
  have rel: "log_rel l s (pre @ post) idx" and pos: "posOk l s idx" using inv by (simp_all add: loglet_inv_def)
  obtain ts where ts: "tsOk l s ts" using inv by (auto simp: loglet_inv_def)
  have ch: "chained (pre @ post)" and hold: "\<forall>(g, es) \<in> set (pre @ post). holds s g es" using rel by (simp_all add: log_rel_def)
  have names: "\<forall>(g, es) \<in> set (pre @ post). named ?d g" using inv by (simp add: loglet_inv_def)
  have front: "fold (\<lambda>g. segs_remove (base_sn g)) ?del (segments l) = drop (length pre) (segments l)"
    by (rule remove_front_segments [OF rel])
  have "named ?d g \<and> content s (logFile ?d (seg_id g) (base_sn g) []) \<noteq> None" if g: "g \<in> set ?del" for g
  proof -
    obtain es where "(g, es) \<in> set pre" using g by auto
    then have "named ?d g" "holds s g es" using names hold by auto
    then show ?thesis using holdsD(1) [of s g es] by (simp add: named_def)
  qed
  then have "\<forall>g \<in> set ?del. named ?d g \<and> content s (logFile ?d (seg_id g) (base_sn g) []) \<noteq> None" by blast
  from mark_deleted_ok [OF q this ids_distinct(1) [OF ch]] obtain marked s1 where
    m: "mark_deleted ?del s = ((OK, marked), s1)" "outcomes s1 = []" "\<forall>p. p \<notin> segFiles ?d ?del \<longrightarrow> content s1 p = content s p"
    "map (\<lambda>g. (seg_id g, base_sn g, seg_filename g)) marked
      = map (\<lambda>g. (seg_id g, base_sn g, logFile ?d (seg_id g) (base_sn g) DELETED_FILE_SUFFIX)) ?del" by blast
  define l1 where "l1 = l\<lparr>segments := drop (length pre) (segments l)\<rparr>"
  have "tsOk l1 s1 ts" unfolding l1_def using m(3) segFiles_not_index(2) by (auto intro: mapOk_frame [OF ts])
  moreover have "posOk l1 s1 idx" unfolding l1_def using m(3) segFiles_not_index(1) by (auto intro: mapOk_frame [OF pos])
  ultimately obtain l' s' j k where r: "removeSegmentFilesAsync marked (logStart post) (l1, s1) = (Ret (), (l', s'))" "outcomes s' = []"
    "tsOk l' s' (drop j ts)" "posOk l' s' (drop k idx)" "outsideIndexes (log_dir l1) s1 s'" "shrinks l1 l'"
    "segments l' = segments l1" "next_sn_meta l' = next_sn_meta l1" "deletions l' = deletions l1 @ marked"
    "max_etimestamp_and_sn_so_far l' = max_etimestamp_and_sn_so_far l1"
    using removeSegmentFilesAsync_ok [OF _ _ m(2)] by blast
  have first: "map_option base_sn (firstSegment (drop (length pre) (segments l))) = Some (logStart post)"
    by (rule first_left [OF rel ne(2)])
  have run: "removeSegments ?del None (l, s) = (Ret OK, (l', s'))"
    using m(1) r(1) front first ne(1) by (auto simp: removeSegments_def l1_def)
  have outside: "content s' p = content s p" if "p \<notin> mapFiles (posBase ?d)" "p \<notin> mapFiles (tsBase ?d)" "p \<notin> segFiles ?d ?del" for p
    using that r(5) m(3) by (simp add: outsideIndexes_def l1_def)
  have "loglet_inv l' s' post (drop k idx)"
    by (rule loglet_inv_front [OF inv ne(2) _ _ r(3,4) outside]) (use r(6-8,10) in \<open>simp_all add: l1_def shrinks_def\<close>)
  moreover have "epochSame ?d s s'"
    unfolding epochSame_def using outside segFiles_not_index(3) index_files_disjoint(2,3) [of ?d] by blast
  moreover have "shrinks l l'" using r(6) by (simp add: l1_def shrinks_def nextLogSequence_def)
  ultimately show ?thesis using run r(2,9) m(4)
    by (intro exI [of _ l'] exI [of _ s'] exI [of _ "drop k idx"]) (simp add: l1_def)
qed

section \<open>The segments that may go\<close>

text \<open>
  Whatever the predicate decides, the deletable segments are the first ones, without the active one,
  and the segment behind each of them starts below the applied sequence.
\<close>

lemma deletable_loop_front:
  assumes pure: "\<And>c p g. snd (should_delete c p g s) = s"
  shows "\<exists>n \<le> length gs. deletable_loop should_delete c applied_sn (Some prev) del gs s = (del @ take n (prev # gs), s)
    \<and> (\<forall>g \<in> set (take n gs). base_sn g < applied_sn)"
proof (induction gs arbitrary: c prev del)
  case (Cons g gs)
  obtain d c' s' where p: "should_delete c prev g s = ((d, c'), s')" by (metis prod.collapse)
  have s': "s' = s" using pure [of c prev g] p by simp
  show ?case
  proof (cases "base_sn g < applied_sn \<and> d")
    case True
    obtain n where n: "n \<le> length gs" "deletable_loop should_delete c' applied_sn (Some g) (del @ [prev]) gs s = ((del @ [prev]) @ take n (g # gs), s)"
      "\<forall>g \<in> set (take n gs). base_sn g < applied_sn" using Cons.IH by blast
    then show ?thesis using True p s' by (intro exI [of _ "Suc n"]) simp
  next
    case False
    then have "deletable_loop should_delete c applied_sn (Some prev) del (g # gs) s = (del, s)" using p s' by auto
    then show ?thesis by (intro exI [of _ 0]) simp
  qed
qed (intro exI [of _ 0], simp)

lemma chained_nth: "chained gs \<Longrightarrow> Suc i < length gs \<Longrightarrow> base_sn (fst (gs ! Suc i)) = base_sn (fst (gs ! i)) + int (length (snd (gs ! i)))"
proof (induction gs arbitrary: i)
  case (Cons x gs)
  then obtain y gs' where "gs = y # gs'" by (cases gs) auto
  then show ?case using Cons by (cases i; cases x; cases y) (auto dest: chained_Cons)
qed simp

lemma deletableSegments_front:
  assumes rel: "log_rel l s gs idx" and pure: "\<And>c p g. snd (should_delete c p g s) = s"
  shows "\<exists>pre post. gs = pre @ post \<and> post \<noteq> [] \<and> deletableSegments should_delete c applied_sn (l, s) = (Ret (map fst pre), (l, s))
    \<and> (\<forall>(g, es) \<in> set pre. base_sn g + int (length es) < applied_sn)"
proof -
  obtain g es gs' where gs: "gs = (g, es) # gs'" using rel by (cases gs) (auto simp: log_rel_def)
  have all: "allSegments (segments l) = g # map fst gs'" using rel gs by (simp add: log_rel_def)
  obtain n where n: "n \<le> length gs'" "deletable_loop should_delete c applied_sn (Some g) [] (map fst gs') s = (take n (g # map fst gs'), s)"
    "\<forall>g \<in> set (take n (map fst gs')). base_sn g < applied_sn"
    using deletable_loop_front [of should_delete s "map fst gs'" c applied_sn g "[]", OF pure] by auto
  let ?pre = "take n gs" and ?post = "drop n gs"
  have "take n (g # map fst gs') = map fst ?pre" using take_map [of n fst gs] gs by simp
  then have "deletableSegments should_delete c applied_sn (l, s) = (Ret (map fst ?pre), (l, s))"
    using n(2) all by (simp add: deletableSegments_def)
  moreover have "base_sn f + int (length fs) < applied_sn" if f: "(f, fs) \<in> set ?pre" for f fs
  proof -
    obtain i where i: "i < n" "gs ! i = (f, fs)" using f n(1) gs by (auto simp: in_set_conv_nth)
    have "chained gs" using rel by (simp add: log_rel_def)
    then have "base_sn (fst (gs' ! i)) = base_sn f + int (length fs)" using chained_nth [of gs i] i n(1) gs by simp
    moreover have "fst (gs' ! i) \<in> set (take n (map fst gs'))" using i n(1) by (auto simp: in_set_conv_nth intro!: exI [of _ i])
    ultimately show ?thesis using n(3) by auto
  qed
  moreover have "?post \<noteq> []" using n(1) gs by simp
  ultimately show ?thesis by (intro exI [of _ ?pre] exI [of _ ?post]) auto
qed

section \<open>Retention of a log\<close>

lemma logStart_front:
  assumes "chained (pre @ post)" "post \<noteq> []"
  shows "logStart post = logStart (pre @ post) + int (length (logEntries pre))"
proof -
  obtain g es post' where "post = (g, es) # post'" using assms(2) by (cases post) auto
  then show ?thesis using entry_position [of pre g es post'] assms(1) by (simp add: logStart_def)
qed

lemma cacheOk_front:
  assumes c: "cacheOk (pre @ post) c" and ch: "chained (pre @ post)" and ne: "post \<noteq> []"
  shows "cacheOk post c"
proof -
  note start = logStart_front [OF ch ne]
  obtain old where "cacheTail (lc_max c) (logStart (pre @ post) - int (length old)) (old @ map storedEntry (logEntries (pre @ post))) c"
    using c by (auto simp: cacheOk_def)
  then have "cacheTail (lc_max c) (logStart post - int (length (old @ map storedEntry (logEntries pre))))
      ((old @ map storedEntry (logEntries pre)) @ map storedEntry (logEntries post)) c"
    by (simp add: start)
  moreover have "hintAt post (cm_hint y)" if y: "y \<in> set (lc_entries c)" "logStart post < fh_sn (cm_hint y)" for y
  proof -
    have "hintAt (pre @ post) (cm_hint y)" using c y start by (simp add: cacheOk_def)
    then show ?thesis
    proof (rule hintAtE)
      fix g es i
      assume h: "(g, es) \<in> set (pre @ post)" "i \<le> length es" "fh_sn (cm_hint y) = base_sn g + int i"
        "fh_segment_base_sn (cm_hint y) = base_sn g" "fh_file_position (cm_hint y) = entryStart es i"
      have "(g, es) \<notin> set pre"
      proof
        assume "(g, es) \<in> set pre"
        then obtain a b where "pre = a @ (g, es) # b" by (blast dest: split_list)
        moreover have "(fst (hd post), snd (hd post)) \<in> set post" using ne by simp
        ultimately have "base_sn g + int (length es) \<le> logStart post"
          using chained_after [of a g es "b @ post" "fst (hd post)" "snd (hd post)"] ch by (simp add: logStart_def)
        then show False using h(2,3) y(2) by simp
      qed
      then show ?thesis using h by (intro hintAtI [of g es _ i]) simp_all
    qed
  qed
  ultimately show ?thesis unfolding cacheOk_def by blast
qed

text \<open>A log of which the segments \<open>post\<close> are left.\<close>

definition retained :: "Log \<Rightarrow> contents \<Rightarrow> nat \<Rightarrow> Log \<Rightarrow> filesys \<Rightarrow> bool" where
  "retained x post k x' s' \<longleftrightarrow> outcomes s' = [] \<and> (\<exists>idx'. log_inv x' s' post idx') \<and> log_room k x' post
     \<and> committed_sn x' = committed_sn x \<and> log_nextLogSequence x' = log_nextLogSequence x \<and> lgConfig x' = lgConfig x"

lemma removeSegments_log:
  assumes inv: "log_inv x s (pre @ post) idx" and q: "outcomes s = []" and room: "log_room k x (pre @ post)" and ne: "pre \<noteq> []" "post \<noteq> []"
  shows "\<exists>l x' s'. onLoglet (removeSegments (map fst pre) None) (x, s) = (Ret OK, (x\<lparr>lg_loglet := l\<rparr>, s'))
    \<and> firstBase (x\<lparr>lg_loglet := l\<rparr>, s') = (Ret (logStart post), (x\<lparr>lg_loglet := l\<rparr>, s'))
    \<and> snd (maybeIncrementLogStartSequence (logStart post) (x\<lparr>lg_loglet := l\<rparr>)) = x' \<and> retained x post k x' s'"
proof -
  have li: "loglet_inv (lg_loglet x) s (pre @ post) idx" using inv by (simp add: log_inv_def log_core_def)
  then have ch: "chained (pre @ post)" by (simp add: loglet_inv_def log_rel_def)
  obtain l s' idx' where r: "removeSegments (map fst pre) None (lg_loglet x, s) = (Ret OK, (l, s'))" "outcomes s' = []"
    "loglet_inv l s' post idx'" "epochSame (log_dir (lg_loglet x)) s s'" "shrinks (lg_loglet x) l"
    using removeSegments_front [OF li q ne] by blast
  have "log_rel l s' ([] @ post) idx'" using r(3) by (simp add: loglet_inv_def)
  then have first: "map_option base_sn (firstSegment (segments l)) = Some (logStart post)" using first_left [of l s' "[]" post idx'] ne(2) by simp
  define x' where "x' = x\<lparr>lg_loglet := l, lg_start_sn := logStart post\<rparr>"
  have start: "lg_start_sn x = logStart (pre @ post)" using inv by (simp add: log_inv_def log_core_def)
  then have x': "snd (maybeIncrementLogStartSequence (logStart post) (x\<lparr>lg_loglet := l\<rparr>)) = x'"
    using logStart_front [OF ch ne(2)] by (cases x) (auto simp: maybeIncrementLogStartSequence_def x'_def)
  obtain es where "epochOk x s es" using inv by (auto simp: log_inv_def log_core_def)
  then have "epochOk x s' es" by (rule mapOk_frame) (use r(4) in \<open>simp add: epochSame_def\<close>)
  moreover have "cacheOk post (lg_cached x)" using inv cacheOk_front [OF _ ch ne(2)] by (simp add: log_inv_def log_core_def)
  moreover have "logStart (pre @ post) \<le> logStart post" using logStart_front [OF ch ne(2)] by simp
  ultimately have "log_inv x' s' post idx'"
    using inv r(3,5) by (auto simp: log_inv_def log_core_def x'_def shrinks_def log_isInmemory_def lgConfig_def log_nextLogSequence_def)
  moreover have "log_room k x' post" using room shrinks_room [OF r(5)] ne(2) r(5) by (simp add: log_room_def x'_def lgConfig_def shrinks_def)
  ultimately have "retained x post k x' s'"
    using r(2,5) by (auto simp: retained_def x'_def shrinks_def lgConfig_def log_nextLogSequence_def)
  moreover have "firstBase (x\<lparr>lg_loglet := l\<rparr>, s') = (Ret (logStart post), (x\<lparr>lg_loglet := l\<rparr>, s'))"
    using first by (auto simp: firstBase_def)
  ultimately show ?thesis
    using onLoglet_eq [of "removeSegments (map fst pre) None" x, OF r(1)] x' by blast
qed

lemma delete_segments_given:
  assumes inv: "log_inv x s (pre @ post) idx" and q: "outcomes s = []" and room: "log_room k x (pre @ post)" and ne: "post \<noteq> []"
    and d: "deletableSegments should_delete c applied_sn (lg_loglet x, s) = (Ret (map fst pre), (lg_loglet x, s))"
  shows "\<exists>x' s'. delete_segments should_delete c applied_sn (x, s) = (Ret (length pre), (x', s')) \<and> retained x post k x' s'"
proof -
  have on: "onLoglet (deletableSegments should_delete c applied_sn) (x, s) = (Ret (map fst pre), (x, s))"
    using onLoglet_eq [of "deletableSegments should_delete c applied_sn" x, OF d] by simp
  show ?thesis
  proof (cases "pre = []")
    case True
    have "delete_segments should_delete c applied_sn (x, s) = (Ret 0, (x, s))" using on True by (simp add: delete_segments_def)
    moreover have "retained x post k x s" using inv q room True by (auto simp: retained_def)
    ultimately show ?thesis using True by (intro exI [of _ x] exI [of _ s]) simp
  next
    case False
    obtain l x' s' where r: "onLoglet (removeSegments (map fst pre) None) (x, s) = (Ret OK, (x\<lparr>lg_loglet := l\<rparr>, s'))"
      "firstBase (x\<lparr>lg_loglet := l\<rparr>, s') = (Ret (logStart post), (x\<lparr>lg_loglet := l\<rparr>, s'))"
      "snd (maybeIncrementLogStartSequence (logStart post) (x\<lparr>lg_loglet := l\<rparr>)) = x'" "retained x post k x' s'"
      using removeSegments_log [OF inv q room False ne] by blast
    have "delete_segments should_delete c applied_sn (x, s) = (Ret (length pre), (x', s'))"
      using on r(1-3) False by (simp add: delete_segments_def)
    then show ?thesis using r(4) by blast
  qed
qed

lemma delete_segments_ok:
  assumes inv: "log_inv x s gs idx" and q: "outcomes s = []" and room: "log_room k x gs" and pure: "\<And>c p g. snd (should_delete c p g s) = s"
  shows "\<exists>pre post x' s'. gs = pre @ post \<and> post \<noteq> [] \<and> delete_segments should_delete c applied_sn (x, s) = (Ret (length pre), (x', s'))
    \<and> retained x post k x' s' \<and> (\<forall>(g, es) \<in> set pre. base_sn g + int (length es) < applied_sn)"
proof -
  have rel: "log_rel (lg_loglet x) s gs idx" using inv by (simp add: log_inv_def log_core_def loglet_inv_def)
  obtain pre post where d: "gs = pre @ post" "post \<noteq> []" "deletableSegments should_delete c applied_sn (lg_loglet x, s) = (Ret (map fst pre), (lg_loglet x, s))"
    "\<forall>(g, es) \<in> set pre. base_sn g + int (length es) < applied_sn"
    using deletableSegments_front [OF rel, of should_delete, OF pure] by blast
  then show ?thesis using delete_segments_given [OF inv [unfolded d(1)] q room [unfolded d(1)] d(2,3)] by blast
qed

text \<open>The three rules leave the files alone.\<close>

lemma breached_pure:
  assumes "outcomes s = []"
  shows "snd (start_breached start_sn c p g s) = s" "snd (size_breached r m b p g s) = s" "snd (time_breached now age m b p g s) = s"
proof -
  have "snd (seg_lastModified p s) = s" using assms 
    by (auto simp: seg_lastModified_def lastModified_file_def sys_fstat_def sys_call_def nextOutcome_def split: prod.splits)
  then show "snd (time_breached now age m b p g s) = s" by (auto simp: time_breached_def split: prod.splits)
qed (simp_all add: start_breached_def size_breached_def)

lemma deleteBreached_ok:
  assumes inv: "log_inv x s gs idx" and q: "outcomes s = []" and room: "log_room k x gs"
  shows "\<exists>pre post x' s'. gs = pre @ post \<and> post \<noteq> [] \<and> deleteBreached applied_sn r (x, s) = (Ret (length pre), (x', s'))
    \<and> retained x post k x' s' \<and> (\<forall>(g, es) \<in> set pre. base_sn g + int (length es) < applied_sn)"
proof -
  have "gs \<noteq> []" using inv by (simp add: log_inv_def log_core_def loglet_inv_def log_rel_def)
  then have skip: "\<exists>pre post x' s'. gs = pre @ post \<and> post \<noteq> [] \<and> retE 0 (x, s) = (Ret (length pre), (x', s'))
    \<and> retained x post k x' s' \<and> (\<forall>(g, es) \<in> set pre. base_sn g + int (length es) < applied_sn)"
    using inv q room by (intro exI [of _ "[]"] exI [of _ gs] exI [of _ x] exI [of _ s]) (auto simp: retained_def)
  note D = delete_segments_ok [OF inv q room]
  show ?thesis
  proof (cases r)
    case StartBreached
    then show ?thesis using D [of "start_breached (lg_start_sn x)" "()" applied_sn, OF breached_pure(1) [OF q]]
      by (simp add: deleteBreached_def deleteLogStartSequenceBreachedSegments_def)
  next
    case SizeBreached
    then show ?thesis
      using skip D [of "size_breached (retention_size (lgConfig x)) (min_size_to_keep (lgConfig x))" "loglet_size (lg_loglet x)" applied_sn, OF breached_pure(2) [OF q]]
      by (simp add: deleteBreached_def deleteRetentionSizeBreachedSegments_def Let_def)
  next
    case TimeBreached
    then show ?thesis
      using skip D [of "time_breached (clock s) (retention_ms (lgConfig x)) (min_size_to_keep (lgConfig x))" "loglet_size (lg_loglet x)" applied_sn,
        OF breached_pure(3) [OF q]]
      by (simp add: deleteBreached_def deleteRetentionTimeBreachedSegments_def Let_def)
  qed
qed

lemma retained_trans: "retained x p k x' s' \<Longrightarrow> retained x' post k x'' s'' \<Longrightarrow> retained x post k x'' s''"
  by (simp add: retained_def)

lemma deleteOldSegments_ok:
  assumes "log_inv x s gs idx" "outcomes s = []" "log_room k x gs"
  shows "\<exists>pre post x' s'. gs = pre @ post \<and> post \<noteq> [] \<and> deleteOldSegments order applied_sn (x, s) = (Ret (length pre), (x', s'))
    \<and> retained x post k x' s' \<and> (\<forall>(g, es) \<in> set pre. base_sn g + int (length es) < applied_sn)"
  using assms
proof (induction order arbitrary: x s gs idx)
  case Nil
  then have "gs \<noteq> []" by (simp add: log_inv_def log_core_def loglet_inv_def log_rel_def)
  then show ?case using Nil by (intro exI [of _ "[]"] exI [of _ gs] exI [of _ x] exI [of _ s]) (auto simp: retained_def)
next
  case (Cons r order)
  obtain pre post x' s' where d: "gs = pre @ post" "deleteBreached applied_sn r (x, s) = (Ret (length pre), (x', s'))" "retained x post k x' s'"
    "\<forall>(g, es) \<in> set pre. base_sn g + int (length es) < applied_sn" using deleteBreached_ok [OF Cons.prems, of applied_sn r] by blast
  then obtain idx' where "log_inv x' s' post idx'" "outcomes s' = []" "log_room k x' post" by (auto simp: retained_def)
  from Cons.IH [OF this] obtain pre' post' x'' s'' where e: "post = pre' @ post'" "post' \<noteq> []"
    "deleteOldSegments order applied_sn (x', s') = (Ret (length pre'), (x'', s''))" "retained x' post' k x'' s''"
    "\<forall>(g, es) \<in> set pre'. base_sn g + int (length es) < applied_sn" by blast
  have "deleteOldSegments (r # order) applied_sn (x, s) = (Ret (length (pre @ pre')), (x'', s''))" using d(2) e(3) by simp
  moreover have "\<forall>(g, es) \<in> set (pre @ pre'). base_sn g + int (length es) < applied_sn" using d(4) e(5) by auto
  ultimately show ?case using d(1) e(1,2) retained_trans [OF d(3) e(4)]
    by (intro exI [of _ "pre @ pre'"] exI [of _ post'] exI [of _ x''] exI [of _ s'']) simp
qed

section \<open>The size that is left\<close>

definition segBytes :: "LogSegment list \<Rightarrow> nat" where
  "segBytes gs = sum_list (map seg_size gs)"

lemma segBytes_simps [simp]: "segBytes [] = 0" "segBytes (g # gs) = seg_size g + segBytes gs"
  by (simp_all add: segBytes_def)

lemma deletable_size:
  assumes "segBytes (prev # gs) = total_bytes"
  shows "\<exists>n \<le> length gs. deletable_loop (size_breached retain keep) total_bytes applied_sn (Some prev) del gs s = (del @ take n (prev # gs), s)
    \<and> (0 < n \<longrightarrow> keep < segBytes (drop n (prev # gs)) \<and> retain < segBytes (drop (n - 1) (prev # gs)))
    \<and> (n < length gs \<longrightarrow> applied_sn \<le> base_sn (gs ! n) \<or> segBytes (drop n (prev # gs)) \<le> retain \<or> segBytes (drop n gs) \<le> keep)"
  using assms
proof (induction gs arbitrary: prev total_bytes del)
  case (Cons g gs)
  show ?case
  proof (cases "base_sn g < applied_sn \<and> retain < total_bytes \<and> seg_size prev < total_bytes \<and> keep < total_bytes - seg_size prev")
    case True
    have left: "segBytes (g # gs) = total_bytes - seg_size prev" using Cons.prems by simp
    obtain n where n: "n \<le> length gs"
      "deletable_loop (size_breached retain keep) (total_bytes - seg_size prev) applied_sn (Some g) (del @ [prev]) gs s = ((del @ [prev]) @ take n (g # gs), s)"
      "0 < n \<longrightarrow> keep < segBytes (drop n (g # gs)) \<and> retain < segBytes (drop (n - 1) (g # gs))"
      "n < length gs \<longrightarrow> applied_sn \<le> base_sn (gs ! n) \<or> segBytes (drop n (g # gs)) \<le> retain \<or> segBytes (drop n gs) \<le> keep"
      using Cons.IH [OF left] by blast
    have "keep < segBytes (drop n (g # gs)) \<and> retain < segBytes (drop n (prev # g # gs))"
      using n(3) True left Cons.prems by (cases n) simp_all
    moreover have "size_breached retain keep total_bytes prev g s = ((True, total_bytes - seg_size prev), s)" using True by (simp add: size_breached_def)
    ultimately show ?thesis using True n(1,2,4) by (intro exI [of _ "Suc n"]) simp
  next
    case False
    then have "deletable_loop (size_breached retain keep) total_bytes applied_sn (Some prev) del (g # gs) s = (del, s)"
      by (auto simp: size_breached_def)
    moreover have "applied_sn \<le> base_sn g \<or> segBytes (prev # g # gs) \<le> retain \<or> segBytes (g # gs) \<le> keep"
      using False Cons.prems by auto
    ultimately show ?thesis by (intro exI [of _ 0]) simp
  qed
qed (intro exI [of _ 0], simp)

text \<open>The sizes of the segments do not wrap: there are at most \<open>2 ^ 28\<close> of them, each below \<open>2 ^ 36\<close>.\<close>

lemma segBytes_bound:
  assumes "chained gs" "\<forall>(g, es) \<in> set gs. holds s g es"
  shows "segBytes (map fst gs) < 2 ^ 64"
proof (cases "gs = []")
  case False
  have ids: "sorted_wrt (<) (map (\<lambda>x. seg_id (fst x)) gs)" by (rule chained_ids [OF assms(1)])
  have small: "seg_size (fst x) < 2 ^ 36" "seg_id (fst x) < 2 ^ 28" if "x \<in> set gs" for x
    using that assms(2) holdsD(2,6,7) [of s "fst x" "snd x"] by (auto split: prod.splits)
  have "length gs = card (set (map (\<lambda>x. seg_id (fst x)) gs))" 
    using ids distinct_card [of "map (\<lambda>x. seg_id (fst x)) gs"] by (simp add: strict_sorted_iff)
  also have "\<dots> \<le> card {..< 2 ^ 28 :: nat}" using small(2) by (intro card_mono) auto
  finally have n: "length gs \<le> 2 ^ 28" by simp
  have "segBytes (map fst gs) \<le> length gs * (2 ^ 36 - 1)"
    using small(1) unfolding segBytes_def by (induction gs) (simp, fastforce)
  also have "\<dots> \<le> 2 ^ 28 * (2 ^ 36 - 1)" using n by (rule mult_right_mono) simp
  finally show ?thesis by simp
qed simp

lemma segs_apply_size:
  "c + segBytes (map snd xs) < 2 ^ 64 \<Longrightarrow> snd (segs_apply (\<lambda>c g. (False, g, add64 c (seg_size g))) c xs) = c + segBytes (map snd xs)"
proof (induction xs arbitrary: c)
  case (Cons x xs)
  then have "add64 c (seg_size (snd x)) = c + seg_size (snd x)" by (simp add: add64_def)
  then show ?case using Cons.IH [of "c + seg_size (snd x)"] Cons.prems by (cases x) (simp add: case_prod_unfold add.assoc)
qed simp

lemma loglet_size_eq: "log_rel l s gs idx \<Longrightarrow> loglet_size l = segBytes (map fst gs)"
  using segBytes_bound [of gs s] segs_apply_size [of 0 "segments l"] by (simp add: log_rel_def allSegments_def loglet_size_def)

lemma segBytes_log: "\<forall>(g, es) \<in> set gs. holds s g es \<Longrightarrow> segBytes (map fst gs) = length (logBytes (logEntries gs))"
  by (induction gs) (auto dest: holdsD(2))

lemma deletableSegments_size:
  assumes rel: "log_rel l s gs idx"
  shows "\<exists>pre post. gs = pre @ post \<and> post \<noteq> []
    \<and> deletableSegments (size_breached retain keep) (loglet_size l) applied_sn (l, s) = (Ret (map fst pre), (l, s))
    \<and> (pre \<noteq> [] \<longrightarrow> keep < segBytes (map fst post) \<and> retain < segBytes (map fst (last pre # post)))
    \<and> (tl post \<noteq> [] \<longrightarrow> applied_sn \<le> logStart (tl post) \<or> segBytes (map fst post) \<le> retain \<or> segBytes (map fst (tl post)) \<le> keep)"
proof -
  obtain x gs' where gs: "gs = x # gs'" using rel by (cases gs) (auto simp: log_rel_def)
  have all: "allSegments (segments l) = fst x # map fst gs'" using rel gs by (simp add: log_rel_def)
  have "segBytes (fst x # map fst gs') = loglet_size l" using loglet_size_eq [OF rel] gs by simp
  from deletable_size [OF this, of retain keep applied_sn "[]" s] obtain n where n: "n \<le> length gs'"
    "deletable_loop (size_breached retain keep) (loglet_size l) applied_sn (Some (fst x)) [] (map fst gs') s = (take n (map fst gs), s)"
    "0 < n \<longrightarrow> keep < segBytes (drop n (map fst gs)) \<and> retain < segBytes (drop (n - 1) (map fst gs))"
    "n < length gs' \<longrightarrow> applied_sn \<le> base_sn (fst (gs' ! n)) \<or> segBytes (drop n (map fst gs)) \<le> retain \<or> segBytes (map fst (drop n gs')) \<le> keep"
    unfolding gs by (auto simp: drop_map)
  let ?pre = "take n gs" and ?post = "drop n gs"
  have "deletableSegments (size_breached retain keep) (loglet_size l) applied_sn (l, s) = (Ret (map fst ?pre), (l, s))"
    using n(2) all by (simp add: deletableSegments_def take_map)
  moreover have "map fst (last ?pre # ?post) = drop (n - 1) (map fst gs)" if "?pre \<noteq> []"
  proof -
    have k: "0 < n" "n < length gs" "n - 1 < length gs" using that n(1) gs by auto
    then have "last ?pre # ?post = drop (n - 1) gs" using Cons_nth_drop_Suc [OF k(3)] that by (simp add: last_conv_nth min_def)
    then show ?thesis by (simp only: drop_map)
  qed
  moreover have "map fst ?post = drop n (map fst gs)" by (simp only: drop_map)
  moreover have "?post \<noteq> []" "?pre \<noteq> [] \<longrightarrow> 0 < n" using n(1) gs by auto
  moreover have "tl ?post = drop n gs'" by (simp add: gs tl_drop)
  moreover have "drop n gs' \<noteq> [] \<longrightarrow> logStart (drop n gs') = base_sn (fst (gs' ! n)) \<and> n < length gs'" by (simp add: logStart_def hd_drop_conv_nth)
  ultimately show ?thesis using n(3,4) by (intro exI [of _ ?pre, OF exI [of _ ?post]]) (metis append_take_drop_id)
qed

lemma sizeRetention_ok:
  assumes inv: "log_inv x s gs idx" and q: "outcomes s = []" and room: "log_room k x gs"
  shows "\<exists>pre post x' s'. gs = pre @ post \<and> post \<noteq> [] \<and> deleteRetentionSizeBreachedSegments applied_sn (x, s) = (Ret (length pre), (x', s'))
    \<and> retained x post k x' s' \<and> (pre \<noteq> [] \<longrightarrow> min_size_to_keep (lgConfig x) < segBytes (map fst post)
      \<and> retention_size (lgConfig x) < segBytes (map fst (last pre # post)))
    \<and> (retention_size (lgConfig x) \<noteq> 0 \<and> tl post \<noteq> [] \<longrightarrow> applied_sn \<le> logStart (tl post)
      \<or> segBytes (map fst post) \<le> retention_size (lgConfig x) \<or> segBytes (map fst (tl post)) \<le> min_size_to_keep (lgConfig x))"
proof -
  let ?c = "lgConfig x"
  have rel: "log_rel (lg_loglet x) s gs idx" using inv by (simp add: log_inv_def log_core_def loglet_inv_def)
  obtain pre post where d: "gs = pre @ post" "post \<noteq> []"
    "deletableSegments (size_breached (retention_size ?c) (min_size_to_keep ?c)) (loglet_size (lg_loglet x)) applied_sn (lg_loglet x, s)
      = (Ret (map fst pre), (lg_loglet x, s))"
    "pre \<noteq> [] \<longrightarrow> min_size_to_keep ?c < segBytes (map fst post) \<and> retention_size ?c < segBytes (map fst (last pre # post))"
    "tl post \<noteq> [] \<longrightarrow> applied_sn \<le> logStart (tl post) \<or> segBytes (map fst post) \<le> retention_size ?c \<or> segBytes (map fst (tl post)) \<le> min_size_to_keep ?c"
    using deletableSegments_size [OF rel] by blast
  obtain x' s' where r: "delete_segments (size_breached (retention_size ?c) (min_size_to_keep ?c)) (loglet_size (lg_loglet x)) applied_sn (x, s)
      = (Ret (length pre), (x', s'))" "retained x post k x' s'"
    using delete_segments_given [OF inv [unfolded d(1)] q room [unfolded d(1)] d(2,3)] by blast
  let ?off = "retention_size ?c = 0 \<or> loglet_size (lg_loglet x) < retention_size ?c \<or> loglet_size (lg_loglet x) < min_size_to_keep ?c"
  show ?thesis
  proof (cases ?off)
    case True
    have "gs \<noteq> []" using rel by (simp add: log_rel_def)
    moreover have "retained x gs k x s" using inv q room by (auto simp: retained_def)
    moreover have "deleteRetentionSizeBreachedSegments applied_sn (x, s) = (Ret 0, (x, s))"
      using True by (auto simp: deleteRetentionSizeBreachedSegments_def Let_def)
    moreover have "segBytes (map fst (tl gs)) \<le> segBytes (map fst gs)" by (cases gs) (simp_all add: segBytes_def)
    ultimately show ?thesis using True loglet_size_eq [OF rel]
      by (intro exI [of _ "[]", OF exI [of _ gs]] exI [of _ x] exI [of _ s]) auto
  next
    case False
    then have "deleteRetentionSizeBreachedSegments applied_sn (x, s) = (Ret (length pre), (x', s'))"
      using r(1) by (simp add: deleteRetentionSizeBreachedSegments_def Let_def)
    then show ?thesis using d(1,2,4,5) r(2) by (intro exI [of _ pre, OF exI [of _ post]] exI [of _ x'] exI [of _ s']) simp
  qed
qed

end
