(* ===== verification/Nlog_Log_Contract.thy ===== *)
theory Nlog_Log_Contract
  imports Nlog_Log_Retention
begin

text \<open>
  What a log promises to its writers and readers: entries are appended at the end and committed, a
  reader gets what was written, entry for entry, whether the cache or the files hold it, and a
  sequence outside the log is refused or answered with nothing.
\<close>

section \<open>A log\<close>

text \<open>A log that was just opened on the directory of \<open>demoLoglet\<close>, four entries in two segments.\<close>

definition demoStore :: Log where
  "demoStore = newLog 1 (loadedMap EpochSequence_ops ''d/epoch-sn.idx'' []) demoLoglet"

lemma demoEpochFile: "content demoLogFs ''d/epoch-sn.idx'' = Some []"
proof -
  have "logFile ''d'' 1 1 [] = ''d/00000001-00000000000000000001.log''"
    "logFile ''d'' 2 4 [] = ''d/00000002-00000000000000000004.log''" by code_simp+
  then show ?thesis by (simp add: demoLogFs_def content_def)
qed

lemma demo_next: "log_nextLogSequence demoStore = 5"
  using end_of_log [OF demo_log_rel(1)] by (simp add: demo_entries log_nextLogSequence_def demoStore_def newLog_def)

lemma demo_log_inv: "log_inv demoStore demoLogFs demoContents demoIndex" "log_room 4 demoStore demoContents"
proof -
  have "contiguous 1 (logEntries demoContents)"
    using demoLog_facts(2) demoTail_facts(2) by (simp add: demo_entries contiguous_append)
  then have c: "cacheOk demoContents (lg_cached demoStore)"
    by (auto simp: cacheOk_def demoStore_def newLog_def newLogEntryCache_def demo_entries(2) cache_wf_def cachedEntries_def
        intro!: exI [of _ "[]"] cacheTail_empty)
  have "map_rel EpochSequence_ops valid_EpochSequence ''d/epoch-sn.idx'' (loadedMap EpochSequence_ops ''d/epoch-sn.idx'' []) demoLogFs [] []"
    by (rule map_rel_loadedMap) (simp_all add: demoEpochFile)
  then have e: "epochOk demoStore demoLogFs []"
    by (intro mapOkI [of _ _ _ _ _ "[]" "[]"]) (simp_all add: demoStore_def newLog_def demoLoglet_def epochBase_def loadedMap_def)
  have mem: "\<not> log_isInmemory demoStore"
    by (simp add: log_isInmemory_def lgConfig_def demoStore_def newLog_def demoLoglet_def defaultLogConfig_def)
  show "log_inv demoStore demoLogFs demoContents demoIndex"
    using c e mem demo_loglet_inv(1) demo_next by (auto simp: log_inv_def log_core_def demo_entries) (auto simp: demoStore_def newLog_def LogStartSN_def)
  show "log_room 4 demoStore demoContents"
    using demo_loglet_inv(2)
    by (simp add: log_room_def loglet_room_def mapRoom_def nextSegmentID_def demoStore_def newLog_def demoLoglet_def loadedMap_def
        lgConfig_def defaultLogConfig_def demoContents_def)
qed

lemma demo_newBatch: "newBatch 5 demoBatch" "newBatch 7 [demoEntry 7 [4]]"
proof -
  have "metaFits (demoEntry 7 [4])" by code_simp
  then show "newBatch 7 [demoEntry 7 [4]]"
    using length_entryBytes_le [of "demoEntry 7 [4]"] by (simp add: newBatch_def demoEntry_wf) (simp add: demoEntry_def)
  have "length (logBytes demoBatch) < 2 ^ 32"
    using length_entryBytes_le [of "demoEntry 5 [1]"] length_entryBytes_le [of "demoEntry 6 [2, 3]"]
    by (simp add: demoBatch_def) (simp add: demoEntry_def)
  then show "newBatch 5 demoBatch" using demoBatch_appendable by (simp add: newBatch_def appendable_def demo_entries)
qed

text \<open>The entry the log makes of \<open>demoEntry 0 [6]\<close>.\<close>

definition demoLocal :: Entry where
  "demoLocal = emptyEntry\<lparr>e_sn := 5, e_append_timestamp := 0, e_correlation_id := 300, e_data := [6]\<rparr>"

lemma demoLocal_new: "newBatch 5 [demoLocal]"
proof -
  have "metaFits demoLocal" by code_simp
  moreover have "wfEntry demoLocal"
    using length_serialize_le [of demoLocal] by (simp add: wfEntry_def int64_def demoLocal_def emptyEntry_def)
  ultimately show ?thesis using length_entryBytes_le [of demoLocal] by (simp add: newBatch_def) (simp add: demoLocal_def)
qed

section \<open>Outside the log\<close>

lemma log_fetch_compacted:
  assumes inv: "log_inv x s gs idx" and sn: "LogStartSN \<le> sn" "sn < logStart gs"
  shows "log_fetch others sn max_size wait_ms hint isolation (x, s)
    = (Ret (errR (emptyFetchResult\<lparr>log_start_sn := logStart gs, log_committed_sn := committed_sn x,
         fetch_hint := emptyFetchHint\<lparr>fh_sn := logStart gs, fh_segment_base_sn := logStart gs\<rparr>\<rparr>) SEQUENCE_COMPACTED_AWAY), (x, s))"
proof -
  have rel: "log_rel (lg_loglet x) s ([] @ gs) idx" and start: "lg_start_sn x = logStart gs" using inv by (simp_all add: log_inv_def log_core_def loglet_inv_def)
  have "gs \<noteq> []" using rel by (simp add: log_rel_def)
  from first_left [OF rel this] have "firstBase (x, s) = (Ret (logStart gs), (x, s))" by (auto simp: firstBase_def)
  then show ?thesis using sn start by (simp add: log_fetch_def compactedAway_def Let_def)
qed

text \<open>The hint that comes with an empty answer: the one that was handed in, when it is for the end.\<close>

definition endHint :: "int \<Rightarrow> FetchHint option \<Rightarrow> LogSequenceMetadata \<Rightarrow> FetchHint" where
  "endHint sn hint meta = (case hint of
      None \<Rightarrow> toFetchHint meta
    | Some h \<Rightarrow> if sn = entry_sn meta \<and> \<not> FetchHint_empty h then h else toFetchHint meta)"

lemma log_fetch_end:
  assumes inv: "log_inv x s gs idx" and sn: "logStart gs \<le> sn" "fetchEnd isolation x \<le> sn" and w: "wait_ms \<le> 0"
  shows "\<exists>meta. log_fetch others sn max_size wait_ms hint isolation (x, s)
    = (Ret (okR (emptyFetchResult\<lparr>log_start_sn := logStart gs, log_committed_sn := committed_sn x, fetch_hint := endHint sn hint meta\<rparr>)), (x, s))
    \<and> entry_sn meta = fetchEnd isolation x \<and> fh_sn (toFetchHint meta) = fetchEnd isolation x"
proof -
  have rel: "log_rel (lg_loglet x) s gs idx" and start: "lg_start_sn x = logStart gs" "LogStartSN \<le> logStart gs"
    using inv by (simp_all add: log_inv_def log_core_def loglet_inv_def)
  obtain meta where meta: "nextSequenceMetadata isolation (x, s) = (Ret meta, (x, s))" "entry_sn meta = fetchEnd isolation x"
    using nextSequenceMetadata_ok [OF rel] by blast
  have "nextFetchSequenceOrWait others sn wait_ms isolation (x, s) = (Ret (sn, meta), (x, s))"
    using meta sn start(2) w by (simp add: nextFetchSequenceOrWait_def EarliestSN_def LatestSN_def LogStartSN_def Let_def)
  then have "log_fetch others sn max_size wait_ms hint isolation (x, s)
    = (Ret (okR (emptyFetchResult\<lparr>log_start_sn := logStart gs, log_committed_sn := committed_sn x, fetch_hint := endHint sn hint meta\<rparr>)), (x, s))"
    using sn start meta(2) by (auto simp: log_fetch_def Let_def okR_def endHint_def split: option.splits)
  then show ?thesis using meta(2) by (intro exI [of _ meta]) (simp add: toFetchHint_def Let_def split: option.splits)
qed

section \<open>Runs of a log\<close>

text \<open>
  The operations of one log in any order: batches and single entries that fit are appended, the
  committed sequence advances, the log is flushed, fetched from at or behind its start, and old
  segments are deleted. \<open>es\<close> is what was appended, in order. In a run that is \<open>limited\<close> nothing is
  reported as applied that is not committed.
\<close>

inductive logRun :: "bool \<Rightarrow> Log \<times> filesys \<Rightarrow> Log \<times> filesys \<Rightarrow> Entry list \<Rightarrow> bool" for limited st0 where
  start: "logRun limited st0 st0 []"
| batch: "logRun limited st0 (x, s) es \<Longrightarrow> newBatch (log_nextLogSequence x) fs \<Longrightarrow> log_append shared fs (x, s) = (Ret r, st)
    \<Longrightarrow> logRun limited st0 st (es @ fs)"
| single: "logRun limited st0 (x, s) es \<Longrightarrow> \<not> lg_paused x \<Longrightarrow> payloadSize entry \<le> max_entry_size (lgConfig x)
    \<Longrightarrow> e = entry\<lparr>e_sn := log_nextLogSequence x, e_append_timestamp := clock s\<rparr> \<Longrightarrow> newBatch (log_nextLogSequence x) [e]
    \<Longrightarrow> appendLocal shared entry (x, s) = (Ret r, st) \<Longrightarrow> logRun limited st0 st (es @ [e])"
| commit: "logRun limited st0 (x, s) es \<Longrightarrow> epoch \<le> 1 \<Longrightarrow> logRun limited st0 (snd (advanceCommittedSequence epoch sn x), s) es"
| flushed: "logRun limited st0 (x, s) es \<Longrightarrow> log_flush (x, s) = (Ret r, st) \<Longrightarrow> logRun limited st0 st es"
| fetched: "logRun limited st0 (x, s) es \<Longrightarrow> lg_start_sn x \<le> sn \<Longrightarrow> 0 < max_size
    \<Longrightarrow> log_fetch others sn max_size 0 None isolation (x, s) = (Ret r, st) \<Longrightarrow> logRun limited st0 st es"
| deleted: "logRun limited st0 (x, s) es \<Longrightarrow> limited \<longrightarrow> applied_sn \<le> committed_sn x + 1
    \<Longrightarrow> deleteOldSegments order applied_sn (x, s) = (Ret n, st) \<Longrightarrow> logRun limited st0 st es"

text \<open>The log is what is left of everything that was ever in it.\<close>

definition tailOf :: "contents \<Rightarrow> int \<Rightarrow> Entry list \<Rightarrow> bool" where
  "tailOf gs start all_es \<longleftrightarrow> (\<exists>n \<le> length all_es. logEntries gs = drop n all_es \<and> logStart gs = start + int n)"

lemma tailOf_append: "tailOf gs start es \<Longrightarrow> logEntries gs' = logEntries gs @ fs \<Longrightarrow> logStart gs' = logStart gs \<Longrightarrow> tailOf gs' start (es @ fs)"
  by (auto simp: tailOf_def)

lemma tailOf_front:
  assumes "tailOf (pre @ post) start es" "chained (pre @ post)" "post \<noteq> []"
  shows "tailOf post start es"
proof -
  obtain n where n: "n \<le> length es" "logEntries pre @ logEntries post = drop n es" "logStart (pre @ post) = start + int n"
    using assms(1) by (auto simp: tailOf_def)
  let ?k = "length (logEntries pre)"
  have "logEntries post = drop ?k (drop n es)" using n(2) by (metis append_eq_conv_conj)
  moreover have "?k \<le> length es - n" using arg_cong [OF n(2), of length] by simp
  ultimately show ?thesis using n(1,3) logStart_front [OF assms(2,3)] unfolding tailOf_def
    by (intro exI [of _ "?k + n"]) simp
qed

text \<open>
  What every run keeps, with \<open>k\<close> the room and \<open>c\<close> the committed sequence at its start. \<open>b\<close>: the run is
  limited and began with nothing missing in front of the committed sequence.
\<close>

definition runOk :: "bool \<Rightarrow> int \<Rightarrow> nat \<Rightarrow> contents \<Rightarrow> Entry list \<Rightarrow> Log \<times> filesys \<Rightarrow> bool" where
  "runOk b c k gs0 es = (\<lambda>(x, s). \<exists>gs idx. log_inv x s gs idx \<and> outcomes s = [] \<and> log_room (k - length es) x gs
     \<and> tailOf gs (logStart gs0) (logEntries gs0 @ es) \<and> c \<le> committed_sn x
     \<and> (b \<longrightarrow> logStart gs \<le> committed_sn x + 1))"

lemma runOkE:
  assumes "runOk b c k gs0 es (x, s)"
  obtains gs idx where "log_inv x s gs idx" "outcomes s = []" "log_room (k - length es) x gs" "tailOf gs (logStart gs0) (logEntries gs0 @ es)" "c \<le> committed_sn x"
    "b \<longrightarrow> logStart gs \<le> committed_sn x + 1"
    "b \<longrightarrow> logStart gs \<le> committed_sn x + 1"
  using assms by (auto simp: runOk_def)

lemma runOkI:
  "log_inv x s gs idx \<Longrightarrow> outcomes s = [] \<Longrightarrow> log_room (k - length es) x gs \<Longrightarrow> tailOf gs (logStart gs0) (logEntries gs0 @ es)
    \<Longrightarrow> c \<le> committed_sn x \<Longrightarrow> b \<longrightarrow> logStart gs \<le> committed_sn x + 1 \<Longrightarrow> runOk b c k gs0 es (x, s)"
  by (auto simp: runOk_def)

lemma runOk_append:
  assumes ok: "runOk b c k gs0 es (x, s)" and fs: "newBatch (log_nextLogSequence x) fs" "length (es @ fs) \<le> k"
    and a: "log_append shared fs (x, s) = (Ret r, st)"
  shows "runOk b c k gs0 (es @ fs) st"
proof (rule runOkE [OF ok])
  fix gs idx
  assume i: "log_inv x s gs idx" "outcomes s = []" "log_room (k - length es) x gs" "tailOf gs (logStart gs0) (logEntries gs0 @ es)" "c \<le> committed_sn x"
    "b \<longrightarrow> logStart gs \<le> committed_sn x + 1"
  have "log_room (k - length (es @ fs) + length fs) x gs" using i(3) fs(2) by simp
  from log_append_ok [OF i(1,2) this fs(1), of shared] obtain x' s' gs' idx' where
    "st = (x', s')" "outcomes s' = []" "log_inv x' s' gs' idx'" "log_room (k - length (es @ fs)) x' gs'"
    "logEntries gs' = logEntries gs @ fs" "logStart gs' = logStart gs" "committed_sn x' = committed_sn x" using a by auto
  then show ?thesis using tailOf_append [OF i(4)] i(5,6) by (auto intro!: runOkI [of _ _ gs' idx'])
qed

lemma runOk_appendLocal:
  assumes ok: "runOk b c k gs0 es (x, s)" and x: "\<not> lg_paused x" "payloadSize entry \<le> max_entry_size (lgConfig x)"
    and e: "e = entry\<lparr>e_sn := log_nextLogSequence x, e_append_timestamp := clock s\<rparr>" "newBatch (log_nextLogSequence x) [e]" "length (es @ [e]) \<le> k"
    and a: "appendLocal shared entry (x, s) = (Ret r, st)"
  shows "runOk b c k gs0 (es @ [e]) st"
proof (rule runOkE [OF ok])
  fix gs idx
  assume i: "log_inv x s gs idx" "outcomes s = []" "log_room (k - length es) x gs" "tailOf gs (logStart gs0) (logEntries gs0 @ es)" "c \<le> committed_sn x"
    "b \<longrightarrow> logStart gs \<le> committed_sn x + 1"
  have "log_room (Suc (k - length (es @ [e]))) x gs" using i(3) e(3) by (simp add: Suc_diff_Suc)
  from appendLocal_ok [OF i(1,2) this x e(1,2), of shared] obtain x' s' gs' idx' where
    "st = (x', s')" "outcomes s' = []" "log_inv x' s' gs' idx'" "log_room (k - length (es @ [e])) x' gs'"
    "logEntries gs' = logEntries gs @ [e]" "logStart gs' = logStart gs" "committed_sn x' = log_nextLogSequence x" using a by auto
  moreover have "committed_sn x < log_nextLogSequence x" using i(1) by (simp add: log_inv_def log_core_def)
  ultimately show ?thesis using tailOf_append [OF i(4)] i(5,6) by (auto intro!: runOkI [of _ _ gs' idx'])
qed

lemma advance_any:
  assumes "log_inv x s gs idx" "epoch \<le> 1"
  shows "log_inv (snd (advanceCommittedSequence epoch sn x)) s gs idx" "log_room k (snd (advanceCommittedSequence epoch sn x)) gs = log_room k x gs"
proof -
  have "snd (advanceCommittedSequence epoch sn x) = x
    \<or> sn < log_nextLogSequence x \<and> snd (advanceCommittedSequence epoch sn x) = x\<lparr>committed_sn := sn, committed_epoch := epoch\<rparr>"
    by (simp add: advanceCommittedSequence_def)
  then show "log_inv (snd (advanceCommittedSequence epoch sn x)) s gs idx" "log_room k (snd (advanceCommittedSequence epoch sn x)) gs = log_room k x gs"
    using assms by (elim disjE conjE; simp add: log_inv_def log_core_def log_nextLogSequence_def log_isInmemory_def lgConfig_def log_room_def)+
qed

lemma runOk_flush:
  assumes ok: "runOk b c k gs0 es (x, s)" and f: "log_flush (x, s) = (Ret r, st)"
  shows "runOk b c k gs0 es st"
proof (rule runOkE [OF ok])
  fix gs idx
  assume i: "log_inv x s gs idx" "outcomes s = []" "log_room (k - length es) x gs" "tailOf gs (logStart gs0) (logEntries gs0 @ es)" "c \<le> committed_sn x"
    "b \<longrightarrow> logStart gs \<le> committed_sn x + 1"
  from log_flush_ok [OF i(1-3)] obtain l gs' where "st = (x\<lparr>lg_loglet := l\<rparr>, s)" "log_inv (x\<lparr>lg_loglet := l\<rparr>) s gs' idx"
    "log_room (k - length es) (x\<lparr>lg_loglet := l\<rparr>) gs'" "sameLog gs gs'" using f by auto
  then show ?thesis using i(2,4-6) by (auto intro!: runOkI [of _ _ gs' idx] simp: tailOf_def sameLog_def)
qed

lemma runOk_fetch:
  assumes ok: "runOk b c k gs0 es (x, s)" and sn: "lg_start_sn x \<le> sn" "0 < max_size"
    and f: "log_fetch others sn max_size 0 None isolation (x, s) = (Ret r, st)"
  shows "runOk b c k gs0 es st"
proof (rule runOkE [OF ok])
  fix gs idx
  assume i: "log_inv x s gs idx" "outcomes s = []" "log_room (k - length es) x gs" "tailOf gs (logStart gs0) (logEntries gs0 @ es)" "c \<le> committed_sn x"
    "b \<longrightarrow> logStart gs \<le> committed_sn x + 1"
  have start: "logStart gs \<le> sn" using sn(1) i(1) by (simp add: log_inv_def log_core_def)
  show ?thesis
  proof (cases "fetchEnd isolation x \<le> sn")
    case True
    then show ?thesis using log_fetch_end [OF i(1) start, of isolation 0 others max_size None] f ok by auto
  next
    case False
    have "fetchEnd isolation x \<le> log_nextLogSequence x" using i(1) by (cases isolation) (simp_all add: fetchEnd_def log_inv_def log_core_def)
    then have "nat (sn - logStart gs) < length (logEntries gs)" "sn = logStart gs + int (nat (sn - logStart gs))"
      using False start log_inv_next [OF i(1)] by auto
    from log_fetch_ok [OF i(1,2) this sn(2) _ goodHint_None, of isolation others 0] False obtain l where
      "st = (x\<lparr>lg_loglet := l\<rparr>, s)" "loglet_inv l s gs idx" "queried (lg_loglet x) l" using f by auto
    then show ?thesis using log_inv_loglet [OF i(1)] log_room_queried i by (auto intro!: runOkI [of _ _ gs idx])
  qed
qed

lemma runOk_delete:
  assumes ok: "runOk b c k gs0 es (x, s)" and a: "b \<longrightarrow> applied_sn \<le> committed_sn x + 1"
    and d: "deleteOldSegments order applied_sn (x, s) = (Ret n, st)"
  shows "runOk b c k gs0 es st"
proof (rule runOkE [OF ok])
  fix gs idx
  assume i: "log_inv x s gs idx" "outcomes s = []" "log_room (k - length es) x gs" "tailOf gs (logStart gs0) (logEntries gs0 @ es)" "c \<le> committed_sn x"
    "b \<longrightarrow> logStart gs \<le> committed_sn x + 1"
  from deleteOldSegments_ok [OF i(1-3), of order applied_sn] obtain pre post x' s' where
    r: "gs = pre @ post" "post \<noteq> []" "st = (x', s')" "retained x post (k - length es) x' s'"
    "\<forall>(g, es) \<in> set pre. base_sn g + int (length es) < applied_sn" using d by auto
  then obtain idx' where x': "log_inv x' s' post idx'" "outcomes s' = []" "log_room (k - length es) x' post" "committed_sn x' = committed_sn x"
    by (auto simp: retained_def)
  have ch: "chained (pre @ post)" using i(1) r(1) by (simp add: log_inv_def log_core_def loglet_inv_def log_rel_def)
  have "b \<longrightarrow> logStart post \<le> committed_sn x + 1"
  proof (cases pre rule: rev_cases)
    case (snoc pre' y)
    then have "chained ([y] @ post)" using ch chained_drop [of pre' "[y] @ post"] by simp
    then have "logStart post = base_sn (fst y) + int (length (snd y))" using logStart_front [OF _ r(2), of "[y]"] by (simp add: logStart_def)
    moreover have "base_sn (fst y) + int (length (snd y)) < applied_sn" using r(5) snoc by (cases y) simp
    ultimately show ?thesis using a by (cases b) simp_all
  qed (use r(1) i(6) in simp)
  then show ?thesis using r(3) i(5) x' tailOf_front [OF i(4) [unfolded r(1)] ch r(2)] by (auto intro!: runOkI [of _ _ post idx'])
qed

lemma logRun_keeps:
  assumes "logRun limited (x0, s0) st es" "log_inv x0 s0 gs0 idx0" "outcomes s0 = []" "log_room k x0 gs0" "length es \<le> k"
    and b: "b \<longleftrightarrow> limited \<and> logStart gs0 \<le> committed_sn x0 + 1"
  shows "runOk b (committed_sn x0) k gs0 es st"
  using assms(1,5)
proof (induction rule: logRun.induct)
  case start
  show ?case using assms(2-4) b by (auto simp: tailOf_def intro!: runOkI [of _ _ gs0 idx0] exI [of _ 0])
next
  case (commit x s es epoch sn)
  then have "runOk b (committed_sn x0) k gs0 es (x, s)" by simp
  then obtain gs idx where i: "log_inv x s gs idx" "outcomes s = []" "log_room (k - length es) x gs" "tailOf gs (logStart gs0) (logEntries gs0 @ es)"
    "committed_sn x0 \<le> committed_sn x" "b \<longrightarrow> logStart gs \<le> committed_sn x + 1" by (rule runOkE)
  moreover have "committed_sn x \<le> committed_sn (snd (advanceCommittedSequence epoch sn x))" by (simp add: advanceCommittedSequence_def)
  ultimately show ?case using advance_any [OF i(1) commit.hyps(2)] by (intro runOkI [of _ _ gs idx]) auto
next
  case (deleted x s es applied_sn order n st)
  then show ?case using runOk_delete [OF _ _ deleted.hyps(3)] b by simp
next
  case (batch x s es fs shared r st)
  then show ?case using runOk_append [OF _ batch.hyps(2) batch.prems batch.hyps(3)] by simp
next
  case (single x s es entry e shared r st)
  then show ?case using runOk_appendLocal [OF _ single.hyps(2-5) single.prems single.hyps(6)] by simp
next
  case (flushed x s es r st)
  then show ?case using runOk_flush [OF _ flushed.hyps(2)] by simp
next
  case (fetched x s es sn max_size others isolation r st)
  then show ?case using runOk_fetch [OF _ fetched.hyps(2-4)] by simp
qed

text \<open>The log under a limit that its first segment breaks.\<close>

definition demoTight :: Log where
  "demoTight = demoStore\<lparr>lg_loglet := demoLoglet\<lparr>log_config := defaultLogConfig\<lparr>retention_size := 1, min_size_to_keep := 0\<rparr>\<rparr>\<rparr>"

lemma log_inv_config:
  assumes "log_inv x s gs idx" "\<not> inmemory c"
  shows "log_inv (x\<lparr>lg_loglet := (lg_loglet x)\<lparr>log_config := c\<rparr>\<rparr>) s gs idx"
proof -
  have "loglet_inv ((lg_loglet x)\<lparr>log_config := c\<rparr>) s gs idx" using assms(1) by (simp add: log_inv_def log_core_def loglet_inv_def log_rel_def)
  moreover have "nextLogSequence ((lg_loglet x)\<lparr>log_config := c\<rparr>) = nextLogSequence (lg_loglet x)" by (simp add: nextLogSequence_def)
  ultimately show ?thesis using assms by (simp add: log_inv_def log_core_def log_nextLogSequence_def log_isInmemory_def lgConfig_def)
qed

lemma demo_tight:
  "log_inv demoTight demoLogFs demoContents demoIndex" "log_room 4 demoTight demoContents"
  "\<exists>st. deleteRetentionSizeBreachedSegments 5 (demoTight, demoLogFs) = (Ret 1, st)"
proof -
  have l: "lg_loglet demoStore = demoLoglet" "log_config demoLoglet = defaultLogConfig" by (simp_all add: demoStore_def newLog_def demoLoglet_def)
  show inv: "log_inv demoTight demoLogFs demoContents demoIndex"
    using log_inv_config [OF demo_log_inv(1), of "defaultLogConfig\<lparr>retention_size := 1, min_size_to_keep := 0\<rparr>"] l
    by (simp add: demoTight_def defaultLogConfig_def)
  show room: "log_room 4 demoTight demoContents" using demo_log_inv(2) l by (simp add: log_room_def demoTight_def loglet_room_def lgConfig_def)
  define g h where "g = segmentOf ''d'' 1 1 demoLog" and "h = segmentOf ''d'' 2 4 demoTail"
  then have gh: "demoContents = [(g, demoLog), (h, demoTail)]" "base_sn h = 4" "segments (lg_loglet demoTight) = [(base_sn g, g), (base_sn h, h)]"
    by (simp_all add: demoContents_def demoTight_def demoLoglet_def segmentOf_def)
  have rel: "log_rel (lg_loglet demoTight) demoLogFs demoContents demoIndex" using inv by (simp add: log_inv_def log_core_def loglet_inv_def)
  then have "holds demoLogFs g demoLog" "holds demoLogFs h demoTail" by (simp_all add: log_rel_def gh(1))
  then have "seg_size g = length (logBytes demoLog)" "seg_size h = length (logBytes demoTail)" by (simp_all add: holdsD(2))
  moreover have "0 < length (logBytes demoLog)" "0 < length (logBytes demoTail)"
    using entryStart_less [of 0 3 demoLog] entryStart_less [of 0 1 demoTail] demo_entries(3,4) by simp_all
  ultimately have pos: "0 < seg_size g" "0 < seg_size h" by simp_all
  have total: "loglet_size (lg_loglet demoTight) = seg_size g + seg_size h" by (simp add: loglet_size_eq [OF rel] gh(1))
  have "deletableSegments (size_breached 1 0) (loglet_size (lg_loglet demoTight)) 5 (lg_loglet demoTight, demoLogFs)
      = (Ret (map fst [(g, demoLog)]), (lg_loglet demoTight, demoLogFs))"
    using pos by (simp add: deletableSegments_def gh allSegments_def total size_breached_def)
  then obtain st where "delete_segments (size_breached 1 0) (loglet_size (lg_loglet demoTight)) 5 (demoTight, demoLogFs) = (Ret (length [(g, demoLog)]), st)"
    using delete_segments_given [of demoTight demoLogFs "[(g, demoLog)]" "[(h, demoTail)]" demoIndex 4 "size_breached 1 0"
        "loglet_size (lg_loglet demoTight)" 5] inv room demo_log_rel(2) unfolding gh(1) by auto
  then show "\<exists>st. deleteRetentionSizeBreachedSegments 5 (demoTight, demoLogFs) = (Ret 1, st)"
    using total pos by (simp add: deleteRetentionSizeBreachedSegments_def Let_def) (simp add: demoTight_def lgConfig_def)
qed

section \<open>Properties\<close>

text \<open>
  Property C1: whatever batches are appended to a log with \<^verbatim>\<open>Log::append\<close>, through as many rolls of its
  active segment as they cause, a reader that then calls \<^verbatim>\<open>Log::fetch\<close> from anywhere in the old part of
  the log, each time with the hint of the call before, reaches the end of the log in at most as many
  calls as there are entries left, and has got the old entries and the new ones, once and in order.
\<close>

theorem log_reads_what_it_wrote:
  assumes "log_inv x s gs idx" "outcomes s = []" "log_room k x gs"
    and "batches newBatch (log_nextLogSequence x) ess" "length (concat ess) \<le> k"
    and "0 < max_size" "i \<le> length (logEntries gs)" "length (logEntries gs @ concat ess) - i \<le> fuel"
  shows "\<exists>st st'. write_all (log_append shared) ess (x, s) = (Ret (), st)
    \<and> drain logReader max_size (Suc fuel) (logStart gs + int i) (log_nextLogSequence x + int (length (concat ess))) None st
      = (Ret (map storedEntry (drop i (logEntries gs) @ concat ess)), st')"
  using store.written_is_read [of "(x, s)" "(gs, idx, k)" ess max_size i fuel shared] assms log_inv_next [OF assms(1)]
  by (simp add: logView_def add.assoc)

theorem log_reads_what_it_wrote_witness:
  "\<exists>st st'. write_all (log_append True) [demoBatch, [demoEntry 7 [4]]] (demoStore, demoLogFs) = (Ret (), st)
    \<and> drain logReader 1 8 1 8 None st = (Ret (map storedEntry (demoLog @ demoTail @ demoBatch @ [demoEntry 7 [4]])), st')"
  using log_reads_what_it_wrote [OF demo_log_inv(1) demo_log_rel(2) demo_log_inv(2), of "[demoBatch, [demoEntry 7 [4]]]" 1 0 7 True]
    demo_newBatch by (simp add: demo_entries demo_next demoBatch_def)

text \<open>
  Property C3: \<^verbatim>\<open>Log::fetch\<close> from a sequence the log holds, below the committed sequence or the end of
  the log as the isolation asks, returns a non-empty run of the log from there on that does not pass
  that bound, whether the cache or the files serve it, with the start and the committed sequence of
  the log and a hint that is right for the next fetch. It leaves the log as it was.
\<close>

theorem log_fetch_serves_log:
  assumes "log_inv x s gs idx" "outcomes s = []" "i < length (logEntries gs)" "0 < max_size"
    and "logStart gs + int i < (case isolation of Committed \<Rightarrow> committed_sn x + 1 | LogEnd \<Rightarrow> log_nextLogSequence x)"
    and "goodHint gs (logStart gs + int i) hint"
  shows "\<exists>l r n. log_fetch others (logStart gs + int i) max_size wait_ms hint isolation (x, s) = (Ret (okR r), (x\<lparr>lg_loglet := l\<rparr>, s))
    \<and> 0 < n \<and> i + n \<le> length (logEntries gs)
    \<and> logStart gs + int (i + n) \<le> (case isolation of Committed \<Rightarrow> committed_sn x + 1 | LogEnd \<Rightarrow> log_nextLogSequence x)
    \<and> fetch_entries r = map storedEntry (take n (drop i (logEntries gs)))
    \<and> log_start_sn r = logStart gs \<and> log_committed_sn r = committed_sn x
    \<and> fh_sn (fetch_hint r) = logStart gs + int (i + n) \<and> goodHint gs (logStart gs + int (i + n)) (Some (fetch_hint r))
    \<and> log_inv (x\<lparr>lg_loglet := l\<rparr>) s gs idx"
proof -
  obtain l r n where f: "log_fetch others (logStart gs + int i) max_size wait_ms hint isolation (x, s) = (Ret (okR r), (x\<lparr>lg_loglet := l\<rparr>, s))"
    "served gs i (logStart gs + int i) (fetchEnd isolation x) n r" "log_start_sn r = lg_start_sn x" "log_committed_sn r = committed_sn x"
    "loglet_inv l s gs idx" "queried (lg_loglet x) l"
    using log_fetch_ok [OF assms(1-3) refl assms(4) assms(5) [folded fetchEnd_def] assms(6)] by blast
  have "lg_start_sn x = logStart gs" using assms(1) by (simp add: log_inv_def log_core_def)
  then show ?thesis
    using f log_inv_loglet [OF assms(1) f(5,6)]
    by (intro exI [of _ l] exI [of _ r] exI [of _ n]) (simp add: served_def fetchEnd_def [symmetric] add.assoc)
qed

theorem log_fetch_serves_log_witness:
  "\<exists>l r n. log_fetch id 2 1 0 None LogEnd (demoStore, demoLogFs) = (Ret (okR r), (demoStore\<lparr>lg_loglet := l\<rparr>, demoLogFs))
    \<and> 0 < n \<and> fetch_entries r = map storedEntry (take n [demoEntry 2 [], demoEntry 3 [8, 9], demoEntry 4 [7]])"
proof -
  have "drop 1 (demoLog @ demoTail) = [demoEntry 2 [], demoEntry 3 [8, 9], demoEntry 4 [7]]"
    by (simp add: demoLog_def demoTail_def)
  then show ?thesis
    using log_fetch_serves_log [OF demo_log_inv(1) demo_log_rel(2), of 1 1 LogEnd None id 0] demo_next
    by (auto simp: demo_entries simp del: drop_append One_nat_def)
qed

text \<open>
  Property C4: \<^verbatim>\<open>Log::append\<close> of a batch that continues the log extends the log by that batch, keeps the
  loglet, the cache of the tail, the indexes and the committed sequence consistent, and leaves the
  start and the committed sequence alone; it returns the number of bytes written.
\<close>

theorem log_append_extends_log:
  assumes "log_inv x s gs idx" "outcomes s = []" "log_room (k + length fs) x gs" "newBatch (log_nextLogSequence x) fs"
  shows "\<exists>x' s' gs' idx'. log_append shared fs (x, s) = (Ret (okR (length (logBytes fs))), (x', s'))
    \<and> log_inv x' s' gs' idx' \<and> log_room k x' gs' \<and> logEntries gs' = logEntries gs @ fs \<and> logStart gs' = logStart gs
    \<and> log_nextLogSequence x' = log_nextLogSequence x + int (length fs) \<and> committed_sn x' = committed_sn x"
proof -
  obtain x' s' gs' idx' where a: "log_append shared fs (x, s) = (Ret (okR (length (logBytes fs))), (x', s'))"
    "log_inv x' s' gs' idx'" "log_room k x' gs'" "logEntries gs' = logEntries gs @ fs" "logStart gs' = logStart gs" "committed_sn x' = committed_sn x"
    using log_append_ok [OF assms] by blast
  then show ?thesis using log_inv_next [OF assms(1)] log_inv_next [OF a(2)]
    by (intro exI [of _ x'] exI [of _ s'] exI [of _ gs'] exI [of _ idx']) simp
qed

theorem log_append_extends_log_witness:
  "\<exists>x' s' gs' idx'. log_append False demoBatch (demoStore, demoLogFs) = (Ret (okR (length (logBytes demoBatch))), (x', s'))
    \<and> log_inv x' s' gs' idx' \<and> logEntries gs' = demoLog @ demoTail @ demoBatch \<and> log_nextLogSequence x' = 7"
  using log_append_extends_log [OF demo_log_inv(1) demo_log_rel(2), of 2 demoBatch False] demo_log_inv(2) demo_newBatch(1)
  by (simp add: demo_entries demo_next demoBatch_def) blast

text \<open>
  Property C5: an entry that \<^verbatim>\<open>Log::appendLocal\<close> has acknowledged is committed under the sequence it
  returned, the next one of the log, and a fetch of committed entries at that sequence returns it.
\<close>

theorem appendLocal_is_committed:
  assumes "log_inv x s gs idx" "outcomes s = []" "log_room (Suc k) x gs"
    and "\<not> lg_paused x" "payloadSize entry \<le> max_entry_size (lgConfig x)"
    and "e = entry\<lparr>e_sn := log_nextLogSequence x, e_append_timestamp := clock s\<rparr>" "newBatch (log_nextLogSequence x) [e]"
    and "0 < max_size"
  shows "\<exists>st r st'. appendLocal shared entry (x, s) = (Ret (okR (log_nextLogSequence x)), st)
    \<and> committed_sn (fst st) = log_nextLogSequence x
    \<and> log_fetch others (log_nextLogSequence x) max_size wait_ms None Committed st = (Ret (okR r), st')
    \<and> fetch_entries r = [storedEntry e]"
proof -
  obtain x' s' gs' idx' where a: "appendLocal shared entry (x, s) = (Ret (okR (log_nextLogSequence x)), (x', s'))" "outcomes s' = []"
    "log_inv x' s' gs' idx'" "logEntries gs' = logEntries gs @ [e]" "logStart gs' = logStart gs" "committed_sn x' = log_nextLogSequence x"
    using appendLocal_ok [OF assms(1-7)] by blast
  let ?i = "length (logEntries gs)"
  have i: "?i < length (logEntries gs')" "log_nextLogSequence x = logStart gs' + int ?i" using a(4,5) log_inv_next [OF assms(1)] by simp_all
  have "log_nextLogSequence x < fetchEnd Committed x'" using a(6) by (simp add: fetchEnd_def)
  then obtain l r n where f: "log_fetch others (log_nextLogSequence x) max_size wait_ms None Committed (x', s') = (Ret (okR r), (x'\<lparr>lg_loglet := l\<rparr>, s'))"
    "served gs' ?i (log_nextLogSequence x) (fetchEnd Committed x') n r"
    using log_fetch_ok [OF a(3,2) i assms(8)] goodHint_None by blast
  have "n = 1" "drop ?i (logEntries gs') = [e]" using f(2) a(4) by (simp_all add: served_def)
  then have "fetch_entries r = [storedEntry e]" using f(2) by (simp add: served_def)
  then show ?thesis using a(1,6) f(1) by (intro exI [of _ "(x', s')"] exI [of _ r] exI [of _ "(x'\<lparr>lg_loglet := l\<rparr>, s')"]) simp
qed


theorem appendLocal_is_committed_witness:
  "\<exists>st r st'. appendLocal True (demoEntry 0 [6]) (demoStore, demoLogFs) = (Ret (okR 5), st)
    \<and> committed_sn (fst st) = 5 \<and> log_fetch id 5 1 0 None Committed st = (Ret (okR r), st')
    \<and> fetch_entries r = [storedEntry demoLocal]"
proof -
  have "\<not> lg_paused demoStore" "payloadSize (demoEntry 0 [6]) \<le> max_entry_size (lgConfig demoStore)"
    by (simp_all add: demoStore_def newLog_def payloadSize_def demoEntry_def lgConfig_def demoLoglet_def defaultLogConfig_def)
  moreover have "demoLocal = (demoEntry 0 [6])\<lparr>e_sn := log_nextLogSequence demoStore, e_append_timestamp := clock demoLogFs\<rparr>"
    by (simp add: demo_next demoLogFs_def demoLocal_def demoEntry_def)
  ultimately show ?thesis
    using appendLocal_is_committed [OF demo_log_inv(1) demo_log_rel(2), of 3 "demoEntry 0 [6]" demoLocal 1 True id 0] demo_log_inv(2) demo_next demoLocal_new
    by simp
qed

text \<open>
  Property C2: in every run of a log, whatever the order in which batches and single entries are
  appended, sequences committed, entries fetched, data flushed and old segments deleted, the log is
  what is left at the end of everything that was ever in it, without a gap, and stays consistent with
  its files, its cache and its indexes. Every sequence of the log can be fetched. The committed
  sequence never goes back and stays below the end of the log. The start of the log does not pass the
  sequence behind the committed one if retention is never told that something uncommitted is applied;
  nothing else keeps it from doing so.
\<close>

theorem logRun_is_tail:
  assumes "logRun limited (x0, s0) (x, s) es" "log_inv x0 s0 gs0 idx0" "outcomes s0 = []" "log_room k x0 gs0" "length es \<le> k"
  shows "\<exists>n gs idx. n \<le> length (logEntries gs0 @ es) \<and> log_inv x s gs idx \<and> lg_start_sn x = lg_start_sn x0 + int n
    \<and> logEntries gs = drop n (logEntries gs0 @ es) \<and> log_nextLogSequence x = log_nextLogSequence x0 + int (length es)
    \<and> committed_sn x0 \<le> committed_sn x \<and> committed_sn x < log_nextLogSequence x
    \<and> (limited \<and> lg_start_sn x0 \<le> committed_sn x0 + 1 \<longrightarrow> lg_start_sn x \<le> committed_sn x + 1)
    \<and> (\<forall>i max_size. n \<le> i \<and> i < length (logEntries gs0 @ es) \<and> 0 < max_size \<longrightarrow>
         (\<exists>r st. log_fetch id (lg_start_sn x0 + int i) max_size 0 None LogEnd (x, s) = (Ret (okR r), st)
            \<and> hd (fetch_entries r) = storedEntry ((logEntries gs0 @ es) ! i)))"
proof -
  obtain gs idx where g: "log_inv x s gs idx" "outcomes s = []" "tailOf gs (logStart gs0) (logEntries gs0 @ es)" "committed_sn x0 \<le> committed_sn x"
    and lim: "limited \<and> logStart gs0 \<le> committed_sn x0 + 1 \<longrightarrow> logStart gs \<le> committed_sn x + 1"
    using logRun_keeps [OF assms refl] unfolding runOk_def by blast
  obtain n where n: "n \<le> length (logEntries gs0 @ es)" "logEntries gs = drop n (logEntries gs0 @ es)" "logStart gs = logStart gs0 + int n"
    using g(3) by (auto simp: tailOf_def)
  have start: "lg_start_sn x = lg_start_sn x0 + int n" "lg_start_sn x0 = logStart gs0" using g(1) assms(2) n(3) by (simp_all add: log_inv_def log_core_def)
  have nxt: "log_nextLogSequence x = log_nextLogSequence x0 + int (length es)"
    using log_inv_next [OF g(1)] log_inv_next [OF assms(2)] n by simp
  have "\<exists>r st. log_fetch id (lg_start_sn x0 + int i) max_size 0 None LogEnd (x, s) = (Ret (okR r), st)
      \<and> hd (fetch_entries r) = storedEntry ((logEntries gs0 @ es) ! i)"
    if i: "n \<le> i" "i < length (logEntries gs0 @ es)" "0 < max_size" for i max_size
  proof -
    have j: "i - n < length (logEntries gs)" "lg_start_sn x0 + int i = logStart gs + int (i - n)" using i n start(2) by simp_all
    have "logStart gs + int (i - n) < fetchEnd LogEnd x" using j(1) log_inv_next [OF g(1)] by (simp add: fetchEnd_def)
    from log_fetch_ok [OF g(1,2) j(1) refl i(3) this goodHint_None, of id 0] obtain l r m where
      f: "log_fetch id (logStart gs + int (i - n)) max_size 0 None LogEnd (x, s) = (Ret (okR r), (x\<lparr>lg_loglet := l\<rparr>, s))"
      "served gs (i - n) (logStart gs + int (i - n)) (fetchEnd LogEnd x) m r" by blast
    then have "hd (fetch_entries r) = storedEntry (logEntries gs ! (i - n))"
      using j(1) by (simp add: served_def hd_map hd_drop_conv_nth)
    moreover have "logEntries gs ! (i - n) = (logEntries gs0 @ es) ! i" unfolding n(2) using i by (subst nth_drop) simp_all
    ultimately show ?thesis using f(1) unfolding j(2) by auto
  qed
  moreover have "committed_sn x < log_nextLogSequence x" using g(1) by (simp add: log_inv_def log_core_def)
  moreover have "limited \<and> lg_start_sn x0 \<le> committed_sn x0 + 1 \<longrightarrow> lg_start_sn x \<le> committed_sn x + 1"
    using lim start n(3) by simp
  ultimately show ?thesis using n(1,2) g(1,4) start(1) nxt by (intro exI [of _ n] exI [of _ gs] exI [of _ idx]) blast
qed

theorem logRun_is_tail_witness:
  "\<exists>x s n gs idx. logRun True (demoStore, demoLogFs) (x, s) demoBatch \<and> n \<le> 6 \<and> log_inv x s gs idx
    \<and> logEntries gs = drop n (demoLog @ demoTail @ demoBatch) \<and> log_nextLogSequence x = 7 \<and> lg_start_sn x \<le> committed_sn x + 1"
proof -
  obtain x s where a: "log_append True demoBatch (demoStore, demoLogFs) = (Ret (okR (length (logBytes demoBatch))), (x, s))"
    using log_append_ok [OF demo_log_inv(1) demo_log_rel(2), of 2 demoBatch True] demo_log_inv(2) demo_newBatch(1) demo_next
    by (auto simp: demoBatch_def)
  have run: "logRun True (demoStore, demoLogFs) (x, s) ([] @ demoBatch)"
    by (rule logRun.batch [OF logRun.start _ a]) (simp add: demo_next demo_newBatch)
  have "length demoBatch = 2" "lg_start_sn demoStore \<le> committed_sn demoStore + 1"
    by (simp_all add: demoBatch_def demoStore_def newLog_def LogStartSN_def)
  then show ?thesis
    using logRun_is_tail [OF run demo_log_inv(1) demo_log_rel(2) demo_log_inv(2)] run by (simp add: demo_entries demo_next) blast
qed

text \<open>
  Property C6: \<^verbatim>\<open>Log::deleteOldSegments\<close>, whatever the order in which its three rules run, removes
  segments from the front of the log only, never the active one, and only ones all of whose entries
  lie below the applied sequence. The start of the log moves to the first segment left, and the log
  stays consistent, so that it can be read and appended to as before.
\<close>

theorem retention_keeps_tail:
  assumes "log_inv x s gs idx" "outcomes s = []" "log_room k x gs"
  shows "\<exists>pre post x' s' idx'. gs = pre @ post \<and> post \<noteq> [] \<and> deleteOldSegments order applied_sn (x, s) = (Ret (length pre), (x', s'))
    \<and> log_inv x' s' post idx' \<and> log_room k x' post \<and> (\<forall>(g, es) \<in> set pre. base_sn g + int (length es) < applied_sn)
    \<and> lg_start_sn x' = lg_start_sn x + int (length (logEntries pre))
    \<and> log_nextLogSequence x' = log_nextLogSequence x \<and> committed_sn x' = committed_sn x"
proof -
  obtain pre post x' s' where d: "gs = pre @ post" "post \<noteq> []" "deleteOldSegments order applied_sn (x, s) = (Ret (length pre), (x', s'))"
    "retained x post k x' s'" "\<forall>(g, es) \<in> set pre. base_sn g + int (length es) < applied_sn"
    using deleteOldSegments_ok [OF assms] by blast
  have "chained (pre @ post)" using assms(1) d(1) by (simp add: log_inv_def log_core_def loglet_inv_def log_rel_def)
  then have "logStart post = logStart gs + int (length (logEntries pre))" using logStart_front d(1,2) by blast
  moreover obtain idx' where "log_inv x' s' post idx'" "log_room k x' post" "committed_sn x' = committed_sn x"
    "log_nextLogSequence x' = log_nextLogSequence x" using d(4) by (auto simp: retained_def)
  ultimately show ?thesis using d(1-3,5) assms(1)
    by (intro exI [of _ pre, OF exI [of _ post]] exI [of _ x'] exI [of _ s'] exI [of _ idx']) (simp add: log_inv_def log_core_def)
qed

theorem retention_keeps_tail_witness:
  "\<exists>pre post x' s' idx'. demoContents = pre @ post \<and> post \<noteq> []
    \<and> deleteOldSegments [SizeBreached, TimeBreached, StartBreached] 5 (demoStore, demoLogFs) = (Ret (length pre), (x', s'))
    \<and> log_inv x' s' post idx' \<and> log_nextLogSequence x' = 5"
  using retention_keeps_tail [OF demo_log_inv(1) demo_log_rel(2) demo_log_inv(2), of "[SizeBreached, TimeBreached, StartBreached]" 5]
  unfolding demo_next by blast

text \<open>
  Property C32: what the size rule of the retention leaves of a log. It removes a prefix of the
  segments, and the log that is left is consistent and has exactly the other segments. If it removes
  anything, what is left is above \<^verbatim>\<open>min_size_to_keep\<close>, and the log was still above \<^verbatim>\<open>retention_size\<close> with
  the last segment it removed. It stops only when the next segment may not go: because what is left
  is within \<^verbatim>\<open>retention_size\<close>, because without the segment it would not be above \<^verbatim>\<open>min_size_to_keep\<close>, because
  the segment reaches the applied sequence, or because it is the active one.
\<close>

theorem size_retention_keeps_minimum:
  assumes "log_inv x s gs idx" "outcomes s = []" "log_room k x gs"
  shows "\<exists>pre post x' s' idx'. gs = pre @ post \<and> post \<noteq> []
    \<and> deleteRetentionSizeBreachedSegments applied_sn (x, s) = (Ret (length pre), (x', s'))
    \<and> log_inv x' s' post idx' \<and> loglet_size (lg_loglet x') = length (logBytes (logEntries post))
    \<and> (pre \<noteq> [] \<longrightarrow> min_size_to_keep (lgConfig x) < length (logBytes (logEntries post))
      \<and> retention_size (lgConfig x) < length (logBytes (logEntries (last pre # post))))
    \<and> (retention_size (lgConfig x) \<noteq> 0 \<and> tl post \<noteq> [] \<longrightarrow> applied_sn \<le> logStart (tl post)
      \<or> length (logBytes (logEntries post)) \<le> retention_size (lgConfig x)
      \<or> length (logBytes (logEntries (tl post))) \<le> min_size_to_keep (lgConfig x))"
proof -
  from sizeRetention_ok [OF assms, of applied_sn] obtain pre post x' s' where
    r: "gs = pre @ post" "post \<noteq> []" "deleteRetentionSizeBreachedSegments applied_sn (x, s) = (Ret (length pre), (x', s'))"
    "retained x post k x' s'" "pre \<noteq> [] \<longrightarrow> min_size_to_keep (lgConfig x) < segBytes (map fst post)
      \<and> retention_size (lgConfig x) < segBytes (map fst (last pre # post))"
    "retention_size (lgConfig x) \<noteq> 0 \<and> tl post \<noteq> [] \<longrightarrow> applied_sn \<le> logStart (tl post)
      \<or> segBytes (map fst post) \<le> retention_size (lgConfig x) \<or> segBytes (map fst (tl post)) \<le> min_size_to_keep (lgConfig x)" by blast
  obtain idx' where inv: "log_inv x' s' post idx'" using r(4) by (auto simp: retained_def)
  have hold: "\<forall>(g, es) \<in> set (pre @ post). holds s g es" and rel: "log_rel (lg_loglet x') s' post idx'"
    using assms(1) inv r(1) by (simp_all add: log_inv_def log_core_def loglet_inv_def log_rel_def)
  have bytes: "segBytes (map fst hs) = length (logBytes (logEntries hs))" if "set hs \<subseteq> set (pre @ post)" for hs
    using that hold by (intro segBytes_log [of _ s]) blast
  have "set post \<subseteq> set (pre @ post)" "set (tl post) \<subseteq> set (pre @ post)" "pre \<noteq> [] \<longrightarrow> set (last pre # post) \<subseteq> set (pre @ post)"
    using r(2) last_in_set [of pre] by (auto dest: list.set_sel(2))
  then have b: "segBytes (map fst post) = length (logBytes (logEntries post))" "segBytes (map fst (tl post)) = length (logBytes (logEntries (tl post)))"
    "pre \<noteq> [] \<longrightarrow> segBytes (map fst (last pre # post)) = length (logBytes (logEntries (last pre # post)))" using bytes by blast+
  show ?thesis using r(1-3,5,6) inv loglet_size_eq [OF rel] b
    by (intro exI [of _ pre, OF exI [of _ post]] exI [of _ x'] exI [of _ s'] exI [of _ idx']) simp
qed

theorem size_retention_keeps_minimum_witness:
  "\<exists>x' s' idx'. deleteRetentionSizeBreachedSegments 5 (demoTight, demoLogFs) = (Ret 1, (x', s'))
    \<and> log_inv x' s' [last demoContents] idx' \<and> loglet_size (lg_loglet x') = length (logBytes demoTail)
    \<and> 0 < length (logBytes demoTail) \<and> 1 < length (logBytes (demoLog @ demoTail))"
proof -
  obtain pre post x' s' idx' where p: "demoContents = pre @ post" "post \<noteq> []"
    "deleteRetentionSizeBreachedSegments 5 (demoTight, demoLogFs) = (Ret (length pre), (x', s'))"
    "log_inv x' s' post idx'" "loglet_size (lg_loglet x') = length (logBytes (logEntries post))"
    "pre \<noteq> [] \<longrightarrow> min_size_to_keep (lgConfig demoTight) < length (logBytes (logEntries post))
      \<and> retention_size (lgConfig demoTight) < length (logBytes (logEntries (last pre # post)))"
    using size_retention_keeps_minimum [OF demo_tight(1) demo_log_rel(2) demo_tight(2), of 5] by blast
  have n: "length pre = 1" using p(3) demo_tight(3) by auto
  then obtain y where y: "pre = [y]" by (cases pre) auto
  then have "snd y = demoLog" "post = [last demoContents]" "logEntries post = demoTail" using p(1) by (auto simp: demoContents_def)
  then show ?thesis using p(3-6) y by (intro exI [of _ x'] exI [of _ s'] exI [of _ idx']) (simp add: demoTight_def lgConfig_def)
qed



end
