(* ===== verification/Nlog_LogLoader.thy ===== *)
theory Nlog_LogLoader
  imports Nlog_Log "HOL-Library.List_Lexorder" "HOL-Library.Char_ord"
begin

text \<open>
  \<^verbatim>\<open>LogLoader\<close> of \<^verbatim>\<open>src/src/Cluster/LocalLog/Log/LogLoader.cpp\<close>, which builds the segment table from the
  files of a log directory and recovers the last segment after a crash, and \<^verbatim>\<open>Log::create\<close>, which
  calls it. The loader works on the two indexes and the segment table while the log does not exist
  yet. File permissions are not modelled: every file is readable.
\<close>

section \<open>Model\<close>

record LogParts =
  ld_ts_index :: "TimestampSequence PersistentMonoMap"
  ld_pos_index :: "SequencePosition PersistentMonoMap"
  ld_segments :: LogSegments

type_synonym 'a loadProg = "(LogParts \<times> filesys, 'a) prog"

definition onLoadTs :: "(TimestampSequence, 'a) mapProg \<Rightarrow> 'a loadProg" where
  "onLoadTs = onPart (\<lambda>(p, s). (ld_ts_index p, s)) (\<lambda>(m, s) (p, _). (p\<lparr>ld_ts_index := m\<rparr>, s))"

definition onLoadPos :: "(SequencePosition, 'a) mapProg \<Rightarrow> 'a loadProg" where
  "onLoadPos = onPart (\<lambda>(p, s). (ld_pos_index p, s)) (\<lambda>(m, s) (p, _). (p\<lparr>ld_pos_index := m\<rparr>, s))"

text \<open>
  \<^verbatim>\<open>auto [_, sn] = segmentIDAndSequenceFromFileName(...)\<close> binds the two members of the \<^verbatim>\<open>CallResult\<close>, so
  that \<^verbatim>\<open>sn\<close> is the error code, and not the sequence: 0 for a well-formed name and 2507, the number of
  \<^verbatim>\<open>BAD_FILE_NAME\<close>, for any other one. \<^verbatim>\<open>fs::remove\<close> throws on errors.
\<close>

definition boundSequence :: "string \<Rightarrow> int" where
  "boundSequence f = (if error_code (segmentIDAndSequenceFromFileName f) = OK then 0 else 2507)"

fun remove_temp_loop :: "string list \<Rightarrow> unit loadProg" where
  "remove_temp_loop [] = retE ()"
| "remove_temp_loop (p # ps) =
    (let f = path_filename p in
     if ends_with f DELETED_FILE_SUFFIX then
       bindE (liftF (sys_remove p)) (\<lambda>ec.
       if ec \<noteq> 0 then throwE STD_EXCEPTION
       else
         bindE (onLoadTs (TimestampSequenceIndex_trimHead (boundSequence f))) (\<lambda>_.
         bindE (onLoadPos (SequencePositionIndex_trimHead (boundSequence f))) (\<lambda>_.
         remove_temp_loop ps)))
     else remove_temp_loop ps)"

definition removeTempFiles :: "string \<Rightarrow> unit loadProg" where
  "removeTempFiles dir = (\<lambda>(p, s). remove_temp_loop (directory_files s dir) (p, s))"

fun load_segments_loop :: "string \<Rightarrow> string list \<Rightarrow> unit loadProg" where
  "load_segments_loop dir [] = retE ()"
| "load_segments_loop dir (p # ps) =
    (let f = path_filename p in
     if isLogFile f then
       let res = segmentIDAndSequenceFromFileName f in
       if hasError res then load_segments_loop dir ps
       else
         case result res of (segment_id, base) \<Rightarrow>
         bindE (liftP (newLogSegment dir segment_id base True [])) (\<lambda>segment.
         bindE (modM (\<lambda>p. p\<lparr>ld_segments := segs_add segment (ld_segments p)\<rparr>)) (\<lambda>_.
         load_segments_loop dir ps))
     else load_segments_loop dir ps)"

definition loadSegmentFiles :: "string \<Rightarrow> unit loadProg" where
  "loadSegmentFiles dir = (\<lambda>(p, s). load_segments_loop dir (sort (directory_files s dir)) (p, s))"

text \<open>\<^verbatim>\<open>segments->lastSegment()\<close>, which the code dereferences.\<close>

definition getLast :: "LogSegment loadProg" where
  "getLast = bindE getM (\<lambda>p. case lastSegment (ld_segments p) of None \<Rightarrow> undefE | Some g \<Rightarrow> retE g)"

definition get_last_sn_pos :: "LogSegment \<Rightarrow> SequencePosition loadProg" where
  "get_last_sn_pos last_segment =
     bindE (onLoadPos lastIndexedSequencePosition) (\<lambda>sn_pos.
     if hasError sn_pos then throwE (error_code sn_pos)
     else retE
       (case result sn_pos of
          None \<Rightarrow> \<lparr>sp_sn = base_sn last_segment, sp_file_position = 0\<rparr>
        | Some r \<Rightarrow>
          if sp_sn r < base_sn last_segment then \<lparr>sp_sn = base_sn last_segment, sp_file_position = 0\<rparr>
          else r\<lparr>sp_file_position := unat (snd (segmentIDAndFilePosition (of_nat (sp_file_position r))))\<rparr>))"

definition recoverLog :: "bool \<Rightarrow> int loadProg" where
  "recoverLog had_clean_shutdown =
     bindE getLast (\<lambda>last_segment.
     bindE (get_last_sn_pos last_segment) (\<lambda>last_sn_pos.
     if \<not> had_clean_shutdown then
       bindE (liftP (seg_recover last_segment last_sn_pos)) (\<lambda>(res, segment').
       bindE (modM (\<lambda>p. p\<lparr>ld_segments := segs_put segment' (ld_segments p)\<rparr>)) (\<lambda>_.
       if hasError res then throwE (error_code res)
       else case result res of (next_sn, trimmed_bytes) \<Rightarrow>
         if 0 < trimmed_bytes then
           bindE (onLoadTs (TimestampSequenceIndex_trim next_sn)) (\<lambda>_.
           bindE (onLoadPos (SequencePositionIndex_trim next_sn)) (\<lambda>_.
           retE next_sn))
         else retE next_sn))
     else liftP (readNextSequence last_segment (sp_file_position last_sn_pos) (sp_sn last_sn_pos))))"

definition DELETE_DIR_SUFFIX :: string where "DELETE_DIR_SUFFIX = ''.delete''"

definition load :: "string \<Rightarrow> bool \<Rightarrow> LogSequenceMetadata loadProg" where
  "load dir had_clean_shutdown =
     bindE (removeTempFiles dir) (\<lambda>_.
     bindE (loadSegmentFiles dir) (\<lambda>_.
     bindE getM (\<lambda>p.
     bindE (if \<not> segs_empty (ld_segments p) then
              if path_extension dir \<noteq> DELETE_DIR_SUFFIX then recoverLog had_clean_shutdown else retE 0
            else
              bindE (liftP (newLogSegment dir SegmentStartID LogStartSN False [])) (\<lambda>segment.
              bindE (modM (\<lambda>p. p\<lparr>ld_segments := segs_add segment (ld_segments p)\<rparr>)) (\<lambda>_.
              retE LogStartSN))) (\<lambda>next_sn.
     bindE getLast (\<lambda>active_segment.
     retE \<lparr>entry_sn = next_sn, segment_base_sn = Some (base_sn active_segment),
           file_position = Some (seg_size active_segment)\<rparr>)))))"

definition removeSegmentsSync :: "LogSegment list \<Rightarrow> int option \<Rightarrow> unit loadProg" where
  "removeSegmentsSync segments_to_remove new_start_sn =
     bindE (modM (\<lambda>p. p\<lparr>ld_segments := fold (\<lambda>g. segs_remove (base_sn g)) segments_to_remove (ld_segments p)\<rparr>)) (\<lambda>_.
     bindE (case new_start_sn of
              Some n \<Rightarrow> retE n
            | None \<Rightarrow> bindE getLast (\<lambda>g. retE (base_sn g))) (\<lambda>n.
     bindE (onLoadTs (TimestampSequenceIndex_trimHead n)) (\<lambda>_.
     bindE (onLoadPos (SequencePositionIndex_trimHead n)) (\<lambda>_.
     liftF (\<lambda>s. ((), remove_files segments_to_remove s))))))"

section \<open>Creating a log\<close>

definition create_directories :: "string \<Rightarrow> (filesys, unit) prog" where
  "create_directories d = (\<lambda>s. case nextOutcome s of (c, s') \<Rightarrow>
     if d \<in> set (dirs s') then (Ret (), s')
     else case c of Some (Fail e) \<Rightarrow> (Throw STD_EXCEPTION, s') | _ \<Rightarrow> (Ret (), s'\<lparr>dirs := dirs s' @ [d]\<rparr>))"

text \<open>The loader runs on parts that only exist during the call.\<close>

definition withParts :: "LogParts \<Rightarrow> 'a loadProg \<Rightarrow> (filesys, 'a \<times> LogParts) prog" where
  "withParts p m s = (case m (p, s) of
       (Ret a, (p', s')) \<Rightarrow> (Ret (a, p'), s')
     | (Throw x, (_, s')) \<Rightarrow> (Throw x, s')
     | (Undef, (_, s')) \<Rightarrow> (Undef, s')
     | (Diverge, (_, s')) \<Rightarrow> (Diverge, s'))"

definition log_create :: "string \<Rightarrow> LogConfig \<Rightarrow> bool \<Rightarrow> (filesys, Log) prog" where
  "log_create dir config had_clean_shutdown =
     bindE (create_directories dir) (\<lambda>_.
     bindE (newEpochSequenceIndex dir (leader_epoch_index_log_size config) (leader_epoch_index_log_preallocate config)) (\<lambda>epoch_index.
     bindE (newTimestampSequenceIndex dir (timestamp_index_log_size config) (timestamp_index_log_preallocate config)) (\<lambda>ts_index.
     bindE (newSequencePositionIndex dir (log_position_index_log_size config) (log_position_index_log_preallocate config)) (\<lambda>pos_index.
     bindE (withParts \<lparr>ld_ts_index = ts_index, ld_pos_index = pos_index, ld_segments = []\<rparr> (load dir had_clean_shutdown)) (\<lambda>(meta, parts).
     bindE (newLoglet dir config meta (ld_segments parts) (ld_ts_index parts) (ld_pos_index parts)) (\<lambda>l.
     case firstSegment (ld_segments parts) of
       None \<Rightarrow> undefE
     | Some g \<Rightarrow> retE (newLog (base_sn g) epoch_index l)))))))"

end
