(* ===== verification/Spec2Isabelle.thy ===== *)
theory Spec2Isabelle
  imports Nlog_Loglet_Epochs Nlog_Log_Contract Nlog_LogLoader
begin

text \<open>
  A verification library of the native log of Proton, the write-ahead log of the streaming database,
  under \<^verbatim>\<open>src/src/Cluster/LocalLog\<close>.

  \<^bold>\<open>The program.\<close> A log is a directory of segment files. \<^verbatim>\<open>Log\<close> (\<^verbatim>\<open>Log/Log.cpp\<close>) is what the rest of the
  database sees: it appends entries, fetches them, commits sequences and deletes what is old. It keeps
  the last entries in a \<^verbatim>\<open>LogEntryCache\<close>, the epochs in an \<^verbatim>\<open>EpochSequenceIndex\<close> and hands the files to a
  \<^verbatim>\<open>Loglet\<close> (\<^verbatim>\<open>Log/Loglet.cpp\<close>). The loglet keeps a table of \<^verbatim>\<open>LogSegment\<close>s, of which the last one is
  active, and two indexes beside them, from sequences to file positions and from timestamps to
  sequences. A segment is a \<^verbatim>\<open>FileLogEntries\<close> over an \<^verbatim>\<open>AppendOnlyFile\<close>. The indexes are
  \<^verbatim>\<open>PersistentMonoMap\<close>s: append-only files of fixed-size records that are rolled, searched and trimmed.
  \<^verbatim>\<open>LogLoader\<close> opens a directory, removes what a deletion left, and recovers the active segment after
  a crash.

  \<^bold>\<open>The theories\<close>, from the bottom up, with the files they model.

  \<^item> \<^verbatim>\<open>Nlog_Prelude\<close>: words, decimal numbers, \<^verbatim>\<open>CallResult\<close>, and the effects all components share. A
    computation is \<open>('s, 'a) prog\<close>, a function from a state to an outcome and a state. The outcome is
    a value, an exception, \<open>Undef\<close> where C++ leaves the behaviour undefined, or \<open>Diverge\<close> where the code
    does not return.
  \<^item> \<^verbatim>\<open>Nlog_Codec\<close> (\<^verbatim>\<open>src/src/IO/VarInt.h\<close>, \<^verbatim>\<open>ReadHelpers.h\<close>) and \<^verbatim>\<open>Nlog_Entry\<close> (\<^verbatim>\<open>Common/Entry.cpp\<close>):
    the binary format, with round trips for integers and entries, torn tails included.
  \<^item> \<^verbatim>\<open>Nlog_File\<close> (\<^verbatim>\<open>Base/AppendOnlyFile.cpp\<close>, \<^verbatim>\<open>Base/Utils.cpp\<close>): a file system whose calls fail, are
    interrupted or are partial as a list of outcomes says, and the retry, partial-write and rollback
    loops over it. An append is proved to leave exactly what it reports, whatever fails.
  \<^item> \<^verbatim>\<open>Nlog_KeyValue\<close> (\<^verbatim>\<open>SequencePosition.h\<close>, \<^verbatim>\<open>TimestampSequence.h\<close>, \<^verbatim>\<open>EpochSequence.h\<close>): the records of the
    indexes, as interpretations of the locale \<open>mono_key_value\<close>, the interface the map relies on.
  \<^item> \<^verbatim>\<open>Nlog_MonoMap\<close> (\<^verbatim>\<open>Indexes/PersistentMonoMap.cpp\<close>): the model of the map. \<^verbatim>\<open>Nlog_MonoMap_Search\<close>,
    \<^verbatim>\<open>Nlog_MonoMap_Update\<close> and \<^verbatim>\<open>Nlog_MonoMap_Recover\<close> prove inside the locale that it refines a sorted
    list: \<open>map_rel\<close> relates a map and its files to the records of the rolled files and of the current
    one. \<^verbatim>\<open>Nlog_Indexes\<close> states the results for the three indexes.
  \<^item> \<^verbatim>\<open>Nlog_Metadata\<close> (\<^verbatim>\<open>LogSequenceMetadata\<close>, \<^verbatim>\<open>FetchHint\<close>, \<^verbatim>\<open>FetchResult\<close>, \<^verbatim>\<open>LogConfig\<close>).
  \<^item> \<^verbatim>\<open>Nlog_FileLogEntries\<close> (\<^verbatim>\<open>Common/FileLogEntries.cpp\<close>) and \<^verbatim>\<open>Nlog_LogSegment\<close> (\<^verbatim>\<open>Log/LogSegment.cpp\<close>): the
    chunked reader agrees with one parse of the whole range for every buffer size, the metadata walk
    finds a sequence, and recovery cuts a torn tail.
  \<^item> \<^verbatim>\<open>Nlog_LogSegments\<close> (\<^verbatim>\<open>Log/LogSegments.cpp\<close>): the table, as an interpretation of the locale
    \<open>segment_table\<close>. \<^verbatim>\<open>Nlog_LogEntryCache\<close> (\<^verbatim>\<open>Log/LogEntryCache.cpp\<close>): in every history the cache is a tail
    of the log.
  \<^item> \<^verbatim>\<open>Nlog_Loglet\<close>: the model of \<^verbatim>\<open>Log/Loglet.cpp\<close>. \<^verbatim>\<open>Nlog_Loglet_Fetch\<close>, \<^verbatim>\<open>Nlog_Loglet_Append\<close> and
    \<^verbatim>\<open>Nlog_Loglet_Epochs\<close> prove its operations. \<open>log_rel\<close> relates a loglet and its files to \<open>contents\<close>, the
    list of its segments with their entries, and \<open>loglet_inv\<close> adds what appending needs.
  \<^item> \<^verbatim>\<open>Nlog_Reader\<close>: the interface of a log to its clients. The locale \<open>log_reader\<close> is what a fetch
    promises, \<open>log_store\<close> extends it by what an append promises; readers and writers are proved
    against them once. The loglet interprets the first, the log the second.
  \<^item> \<^verbatim>\<open>Nlog_Log\<close>: the model of \<^verbatim>\<open>Log/Log.cpp\<close>. \<^verbatim>\<open>Nlog_Log_Store\<close> proves appending, committing and fetching
    over \<open>log_inv\<close>, the invariant of loglet, cache, epoch index, start and committed sequence together.
    \<^verbatim>\<open>Nlog_Log_Retention\<close> proves the deletion of old segments. \<^verbatim>\<open>Nlog_Log_Contract\<close> has the runs of a log
    as an inductive relation and the properties of the log.
  \<^item> \<^verbatim>\<open>Nlog_LogLoader\<close>: the model of \<^verbatim>\<open>Log/LogLoader.cpp\<close> and of \<^verbatim>\<open>Log::create\<close>.

  \<^bold>\<open>What is shown.\<close> At the top: in every run of appends, commits, flushes, fetches and deletions a log
  holds a gapless tail of everything appended to it, every sequence of it can be fetched, and a reader
  that follows the hints gets each entry once and in order; an acknowledged entry is committed and
  readable; retention removes from the front only and below the applied sequence only, and its size
  rule stops where the configuration says. The code does not compare the start of the log with the
  committed sequence: that the start does not pass it is shown for runs in which nothing uncommitted is
  reported as applied. A roll flushes the old segment, and a failed flush leaves the loglet as it was.
  Below: the
  refinement of the maps, the recovery of indexes and segments from files, all-or-reported appends
  under faults, the equivalence of the chunked reader with the plain one, and round trips of every
  format. Where the code does something else than it means to, a theorem says what it does: searches
  that never return, recovery that loses or invents entries, queries with no defined result.

  \<^bold>\<open>Under which assumptions.\<close> The properties of files and of appends to segments hold under any system
  call that fails or is partial. Those of the indexes, the loglet and the log are for runs in which no
  system call fails (\<open>outcomes s = []\<close>), apart from the read errors and the failed flush that are
  stated. The entries of a log are well formed (\<open>wfEntry\<close>: their fields fit their types, an entry is
  below 4 GiB) and have at most 43 bytes of metadata (\<open>metaFits\<close>), the size of the buffer of the
  metadata walk; what happens with longer metadata is a theorem of its own. Recovery of a segment is
  stated apart for tails that are torn behind and inside the metadata of an entry.

  \<^bold>\<open>Bounds and fuel.\<close> No definition of the model takes fuel: loops are structural recursions or
  functions with a termination measure, and the one loop that does not end, of \<^verbatim>\<open>epochSequences\<close>, is a
  partial function whose result there is \<open>Diverge\<close>. The reader \<open>drain\<close> of \<^verbatim>\<open>Nlog_Reader\<close> takes a number
  of calls, and the number of entries left is proved to be enough. The numbers of the code have their
  width: positions wrap at 64 bits, a segment id has 28 bits and a position in a segment 36, the size
  of a batch 32. \<open>log_room k\<close> says that these bounds leave room for \<open>k\<close> more entries.

  \<^bold>\<open>Not modelled.\<close> Threads and locks: the operations of one log run one after the other, and what other
  threads do while a fetch waits is the parameter \<open>others\<close> of the definitions; the task that deletes
  files is \<open>runDeletions\<close>. Logging, metrics, file permissions, preallocation. The variants of the
  epoch index and the inverted indexes on RocksDB, the metadata store on it and the Kafka log on
  librdkafka are layers over libraries that are not part of the sources. \<^verbatim>\<open>LogManager\<close> and \<^verbatim>\<open>NativeLog\<close>
  are thread pools, timers and directory locks around logs. The names of log directories are matched
  by RE2, another library. The SQL engine above the log is not touched.
\<close>

end
